(* ===== verification/Hop_Prelude.thy ===== *)
theory Hop_Prelude
  imports Main "HOL-Library.Sublist" "HOL-Library.AList"
begin

text \<open>
  Shared prelude of the HttpHop development: Go's byte strings and the functions of
  Go's \<^verbatim>\<open>strings\<close> package that the sources call, 64-bit durations, results with
  errors, and insertion-ordered maps. A Go \<^verbatim>\<open>string\<close> is a sequence of bytes and is
  modelled by \<^typ>\<open>string\<close>, whose characters are bytes. Case mapping and white space
  are those of the ASCII range, on which Go's functions take their byte-wise path;
  host names, header fields and paths of the configuration are ASCII.
\<close>

section \<open>Collections of facts\<close>

named_theorems go_string \<open>characterisations of Go's string functions\<close>
named_theorems hop_ops \<open>definitions of operations, for symbolic execution\<close>

section \<open>Durations and machine integers\<close>

text \<open>
  \<^verbatim>\<open>time.Duration\<close> and \<^verbatim>\<open>int\<close> are signed 64-bit integers. They are read as
  \<^typ>\<open>int\<close>; where the code multiplies, the wrap-around is written out.
\<close>

type_synonym duration = int

definition wrap64 :: "int \<Rightarrow> int" where
  "wrap64 x = (x + 2 ^ 63) mod 2 ^ 64 - 2 ^ 63"

definition in_int64 :: "int \<Rightarrow> bool" where
  "in_int64 x \<longleftrightarrow> - (2 ^ 63) \<le> x \<and> x < 2 ^ 63"

abbreviation second :: duration where "second \<equiv> 1000000000"
abbreviation millisecond :: duration where "millisecond \<equiv> 1000000"
abbreviation minute :: duration where "minute \<equiv> 60 * second"

lemma wrap64_id [simp]: "in_int64 x \<Longrightarrow> wrap64 x = x"
  by (simp add: wrap64_def in_int64_def)

lemma wrap64_range: "in_int64 (wrap64 x)"
  by (simp add: wrap64_def in_int64_def)

section \<open>Go's strings package\<close>

definition HasPrefix :: "string \<Rightarrow> string \<Rightarrow> bool" where
  "HasPrefix s p \<longleftrightarrow> length p \<le> length s \<and> take (length p) s = p"

definition HasSuffix :: "string \<Rightarrow> string \<Rightarrow> bool" where
  "HasSuffix s x \<longleftrightarrow> length x \<le> length s \<and> drop (length s - length x) s = x"

definition TrimPrefix :: "string \<Rightarrow> string \<Rightarrow> string" where
  "TrimPrefix s p = (if HasPrefix s p then drop (length p) s else s)"

definition TrimSuffix :: "string \<Rightarrow> string \<Rightarrow> string" where
  "TrimSuffix s x = (if HasSuffix s x then take (length s - length x) s else s)"

fun Contains :: "string \<Rightarrow> string \<Rightarrow> bool" where
  "Contains [] x = (x = [])"
| "Contains (c # s) x = (HasPrefix (c # s) x \<or> Contains s x)"

fun Split :: "string \<Rightarrow> char \<Rightarrow> string list" where
  "Split [] sep = [[]]"
| "Split (c # s) sep =
     (if c = sep then [] # Split s sep
      else (case Split s sep of [] \<Rightarrow> [[c]] | w # ws \<Rightarrow> (c # w) # ws))"

fun Join :: "string list \<Rightarrow> char \<Rightarrow> string" where
  "Join [] sep = []"
| "Join [w] sep = w"
| "Join (w # v # ws) sep = w @ sep # Join (v # ws) sep"

definition lower_char :: "char \<Rightarrow> char" where
  "lower_char c =
     (let n = (of_char c :: nat) in if 65 \<le> n \<and> n \<le> 90 then char_of (n + 32) else c)"

definition ToLower :: "string \<Rightarrow> string" where
  "ToLower s = map lower_char s"

definition EqualFold :: "string \<Rightarrow> string \<Rightarrow> bool" where
  "EqualFold s t \<longleftrightarrow> ToLower s = ToLower t"

definition is_space :: "char \<Rightarrow> bool" where
  "is_space c \<longleftrightarrow> (let n = (of_char c :: nat) in n = 32 \<or> (9 \<le> n \<and> n \<le> 13))"

definition TrimSpace :: "string \<Rightarrow> string" where
  "TrimSpace s = rev (dropWhile is_space (rev (dropWhile is_space s)))"

text \<open>Decimal digits, for \<^verbatim>\<open>strconv.Itoa\<close> and \<^verbatim>\<open>%d\<close>.\<close>

fun show_nat :: "nat \<Rightarrow> string" where
  "show_nat n = (if n < 10 then [char_of (n + 48)]
                 else show_nat (n div 10) @ [char_of (n mod 10 + 48)])"

declare show_nat.simps [simp del]

section \<open>Facts about strings\<close>

lemma HasPrefix_prefix [go_string]: "HasPrefix s p \<longleftrightarrow> prefix p s"
  by (auto simp: HasPrefix_def prefix_def) (metis append_take_drop_id)

lemma HasSuffix_suffix [go_string]: "HasSuffix s x \<longleftrightarrow> suffix x s"
  by (auto simp: HasSuffix_def suffix_def) (metis append_take_drop_id)

lemma HasPrefix_append [simp]: "HasPrefix (p @ s) p"
  by (simp add: HasPrefix_def)

lemma HasSuffix_append [simp]: "HasSuffix (s @ x) x"
  by (simp add: HasSuffix_def)

lemma TrimPrefix_append [simp]: "TrimPrefix (p @ s) p = s"
  by (simp add: TrimPrefix_def)

lemma TrimSuffix_append [simp]: "TrimSuffix (s @ x) x = s"
  by (simp add: TrimSuffix_def)

lemma HasPrefix_TrimPrefix: "HasPrefix s p \<Longrightarrow> p @ TrimPrefix s p = s"
  by (auto simp: go_string prefix_def)

lemma find_snoc: "find P (xs @ [b]) = (case find P xs of Some y \<Rightarrow> Some y | None \<Rightarrow> if P b then Some b else None)"
  by (induction xs) auto

lemma Contains_char [go_string]: "Contains s [c] \<longleftrightarrow> c \<in> set s"
  by (induction s) (auto simp: HasPrefix_def)

lemma Split_ne [simp]: "Split s sep \<noteq> []"
  by (induction s) (auto split: list.splits)

lemma Join_Split [simp]: "Join (Split s sep) sep = s"
proof (induction s)
  case (Cons c s)
  obtain w ws where "Split s sep = w # ws"
    using Split_ne [of s sep] by (cases "Split s sep") auto
  with Cons show ?case by (cases ws) auto
qed simp

lemma Split_sep_free: "w \<in> set (Split s sep) \<Longrightarrow> sep \<notin> set w"
  by (induction s arbitrary: w) (auto split: list.splits if_splits)

lemma Split_word: "sep \<notin> set w \<Longrightarrow> Split w sep = [w]"
  by (induction w) auto

lemma Split_append_sep: "sep \<notin> set w \<Longrightarrow> Split (w @ sep # s) sep = w # Split s sep"
  by (induction w) auto

lemma Split_Join:
  "ws \<noteq> [] \<Longrightarrow> (\<forall>w\<in>set ws. sep \<notin> set w) \<Longrightarrow> Split (Join ws sep) sep = ws"
proof (induction ws sep rule: Join.induct)
  case (2 w sep)
  then show ?case by (simp add: Split_word)
next
  case (3 w v ws sep)
  then show ?case by (simp add: Split_append_sep)
qed simp

lemma Join_Cons_Split: "Join (w # Split s sep) sep = w @ sep # s"
proof -
  obtain v ws where "Split s sep = v # ws"
    using Split_ne [of s sep] by (cases "Split s sep") auto
  then show ?thesis using Join_Split [of s sep] by simp
qed

lemma Join_snoc: "ws \<noteq> [] \<Longrightarrow> Join (ws @ [w]) sep = Join ws sep @ sep # w"
  by (induction ws sep rule: Join.induct) auto

lemma Join_append:
  "vs \<noteq> [] \<Longrightarrow> ws \<noteq> [] \<Longrightarrow> Join (vs @ ws) sep = Join vs sep @ sep # Join ws sep"
proof (induction vs sep rule: Join.induct)
  case (2 w sep)
  then show ?case by (cases ws) auto
qed auto

lemma set_Join: "set (Join ws sep) \<subseteq> (\<Union>w\<in>set ws. set w) \<union> {sep}"
  by (induction ws sep rule: Join.induct) auto

lemma Join_eq_Nil: "(\<forall>w\<in>set ws. w \<noteq> []) \<Longrightarrow> Join ws sep = [] \<longleftrightarrow> ws = []"
  by (induction ws sep rule: Join.induct) auto

lemma lower_char_idem [simp]: "lower_char (lower_char c) = lower_char c"
proof -
  have "(of_char c :: nat) < 256" by simp
  then show ?thesis by (auto simp: lower_char_def Let_def)
qed

lemma ToLower_idem [simp]: "ToLower (ToLower s) = ToLower s"
  by (simp add: ToLower_def)

lemma ToLower_append [simp]: "ToLower (s @ t) = ToLower s @ ToLower t"
  by (simp add: ToLower_def)

lemma ToLower_Nil [simp]: "ToLower s = [] \<longleftrightarrow> s = []"
  by (simp add: ToLower_def)

lemma length_ToLower [simp]: "length (ToLower s) = length s"
  by (simp add: ToLower_def)

lemma lower_char_inv: "lower_char c = d \<Longrightarrow> (of_char d :: nat) < 65 \<Longrightarrow> c = d"
proof -
  assume *: "lower_char c = d" "(of_char d :: nat) < 65"
  have "(of_char c :: nat) < 256" by simp
  with * show "c = d" by (auto simp: lower_char_def Let_def split: if_splits)
qed

section \<open>Path-segment prefixes\<close>

text \<open>
  The test \<^verbatim>\<open>p == prefix || strings.HasPrefix(p, prefix+"/")\<close> occurs in the router, the
  proxy, the response rewriting and the configuration checks. \<open>under_path p a\<close> names it:
  the path \<open>p\<close> is \<open>a\<close>, or \<open>a\<close> followed by a slash and more. For a clean \<open>a\<close> other than \<^verbatim>\<open>/\<close> these are the paths at
  and below \<open>a\<close>; for \<^verbatim>\<open>/\<close> they are only \<^verbatim>\<open>/\<close> itself and paths that start with two slashes, in the code as here.
\<close>

definition under_path :: "string \<Rightarrow> string \<Rightarrow> bool" where
  "under_path p a \<longleftrightarrow> p = a \<or> HasPrefix p (a @ ''/'')"

lemma under_path_prefix: "under_path p a \<longleftrightarrow> prefix (a @ ''/'') (p @ ''/'')"
  by (auto simp: under_path_def go_string)

lemma under_path_refl [simp]: "under_path p p"
  by (simp add: under_path_def)

lemma under_path_trans: "under_path p a \<Longrightarrow> under_path a b \<Longrightarrow> under_path p b"
  unfolding under_path_prefix by (rule prefix_order.trans)

lemma under_path_append [simp]: "under_path (a @ CHR ''/'' # s) a"
  by (simp add: under_path_prefix)

lemma under_path_cases:
  assumes "under_path p a"
  obtains "p = a" | s where "p = a @ CHR ''/'' # s"
  using assms by (auto simp: under_path_def go_string prefix_def)

lemma under_path_comparable:
  assumes "under_path p a" "under_path p b"
  shows "under_path a b \<or> under_path b a"
  using assms unfolding under_path_prefix by (blast dest: prefix_same_cases)

lemma under_path_length: "under_path p a \<Longrightarrow> length a \<le> length p"
  by (erule under_path_cases) auto

lemma under_path_antisym: "under_path a b \<Longrightarrow> length a \<le> length b \<Longrightarrow> a = b"
  by (erule under_path_cases) auto

section \<open>Maps in insertion order\<close>

text \<open>
  Go's maps are modelled by association lists with distinct keys: \<^const>\<open>map_of\<close> looks up,
  \<^const>\<open>AList.update\<close> stores and \<^const>\<open>AList.delete\<close> removes. Go iterates a map in an
  unspecified order; facts about an iteration are stated up to that order.
\<close>

lemma distinct_keys_update [simp]:
  "distinct (map fst m) \<Longrightarrow> distinct (map fst (AList.update k v m))"
  by (rule distinct_update)

lemma map_of_update [simp]: "map_of (AList.update k v m) = (map_of m)(k \<mapsto> v)"
  by (rule update_conv')

lemma map_of_delete [simp]: "map_of (AList.delete k m) = (map_of m)(k := None)"
  by (rule delete_conv')

text \<open>A Go map read of a missing key yields the zero value.\<close>

definition map_get :: "(string \<rightharpoonup> string) \<Rightarrow> string \<Rightarrow> string" where
  "map_get m k = (case m k of None \<Rightarrow> '''' | Some v \<Rightarrow> v)"

section \<open>Results\<close>

text \<open>Sequencing of fallible steps: the first error returns.\<close>

definition bind_result :: "'e + 'a \<Rightarrow> ('a \<Rightarrow> 'e + 'b) \<Rightarrow> 'e + 'b" where
  "bind_result r f = (case r of Inl e \<Rightarrow> Inl e | Inr x \<Rightarrow> f x)"

lemma bind_result_simps [simp]:
  "bind_result (Inl e) f = Inl e"
  "bind_result (Inr x) f = f x"
  by (simp_all add: bind_result_def)

lemma bind_result_Inr: "bind_result r f = Inr y \<longleftrightarrow> (\<exists>x. r = Inr x \<and> f x = Inr y)"
  by (simp add: bind_result_def split: sum.splits)

text \<open>A guard: the error \<open>e\<close> unless the condition holds.\<close>

definition check :: "bool \<Rightarrow> 'e \<Rightarrow> 'e + unit" where
  "check b e = (if b then Inr () else Inl e)"

lemma check_Inr [simp]: "check b e = Inr u \<longleftrightarrow> b"
  by (simp add: check_def)

lemma check_Inl [simp]: "check b e = Inl e' \<longleftrightarrow> \<not> b \<and> e' = e"
  by (auto simp: check_def)

section \<open>Running a machine by a schedule\<close>

text \<open>
  A step relation is run on a concrete input by a function that makes the step a scheduler chooses, or
  fails; a run of it is a run of the relation.
\<close>

fun runs :: "('c \<Rightarrow> 's \<Rightarrow> 's option) \<Rightarrow> 'c list \<Rightarrow> 's \<Rightarrow> 's option" where
  "runs ex [] s = Some s"
| "runs ex (c # cs) s = Option.bind (ex c s) (runs ex cs)"

lemma runs_relpow:
  assumes "\<And>c s s'. ex c s = Some s' \<Longrightarrow> R s s'" "runs ex cs s = Some s'"
  shows "(R ^^ length cs) s s'"
  using assms(2)
proof (induction cs arbitrary: s)
  case (Cons c cs)
  then obtain u where "ex c s = Some u" "runs ex cs u = Some s'"
    by (auto simp: bind_eq_Some_conv)
  with Cons.IH assms(1) show ?case
    by (metis length_Cons relpowp_Suc_I2)
qed simp

lemma runs_rtranclp:
  assumes "\<And>c s s'. ex c s = Some s' \<Longrightarrow> R s s'" "runs ex cs s = Some s'"
  shows "R\<^sup>*\<^sup>* s s'"
  using relpowp_imp_rtranclp [OF runs_relpow [OF assms]] .

lemma runs_append: "runs ex (cs @ ds) s = Option.bind (runs ex cs s) (runs ex ds)"
  by (induction cs arbitrary: s) (auto simp: bind_eq_Some_conv split: bind_splits)

end
