(* ===== verification/Go_Path.thy ===== *)
theory Go_Path
  imports Hop_Prelude
begin

text \<open>
  The parts of Go's \<^verbatim>\<open>path\<close>, \<^verbatim>\<open>path/filepath\<close> (on Unix) and \<^verbatim>\<open>net\<close> packages that the
  sources call: \<^verbatim>\<open>path.Clean\<close>, \<^verbatim>\<open>filepath.Dir\<close>, \<^verbatim>\<open>filepath.Join\<close>, \<^verbatim>\<open>filepath.IsAbs\<close> and
  \<^verbatim>\<open>net.SplitHostPort\<close>, with the facts the router, the proxy and the configuration
  checks rest on: a cleaned rooted path is \<^verbatim>\<open>/\<close> followed by proper elements joined by
  \<^verbatim>\<open>/\<close>, and cleaning is idempotent.
\<close>

section \<open>Definitions\<close>

text \<open>
  \<^verbatim>\<open>path.Clean\<close> reads the elements between slashes from left to right, drops empty and
  \<^verbatim>\<open>.\<close> elements, lets \<^verbatim>\<open>..\<close> remove the element before it, and keeps leading \<^verbatim>\<open>..\<close>
  elements of a path that is not rooted. The stack holds the elements written so far,
  last first.
\<close>

definition clean_step :: "bool \<Rightarrow> string list \<Rightarrow> string \<Rightarrow> string list" where
  "clean_step rooted st e =
     (if e = '''' \<or> e = ''.'' then st
      else if e = ''..'' then
        (case st of
           [] \<Rightarrow> if rooted then [] else [''..'']
         | x # xs \<Rightarrow> if x = ''..'' then ''..'' # st else xs)
      else e # st)"

definition rooted :: "string \<Rightarrow> bool" where
  "rooted p \<longleftrightarrow> HasPrefix p ''/''"

definition clean_elems :: "string \<Rightarrow> string list" where
  "clean_elems p = rev (foldl (clean_step (rooted p)) [] (Split p CHR ''/''))"

definition Clean :: "string \<Rightarrow> string" where
  "Clean p =
     (if p = '''' then ''.''
      else if rooted p then CHR ''/'' # Join (clean_elems p) CHR ''/''
      else if clean_elems p = [] then ''.''
      else Join (clean_elems p) CHR ''/'')"

definition IsAbs :: "string \<Rightarrow> bool" where
  "IsAbs p \<longleftrightarrow> HasPrefix p ''/''"

definition Dir :: "string \<Rightarrow> string" where
  "Dir p = Clean (rev (dropWhile (\<lambda>c. c \<noteq> CHR ''/'') (rev p)))"

definition Join_path :: "string \<Rightarrow> string \<Rightarrow> string" where
  "Join_path a b =
     (if a \<noteq> '''' then Clean (a @ ''/'' @ b)
      else if b \<noteq> '''' then Clean b
      else '''')"

text \<open>
  \<^verbatim>\<open>net.SplitHostPort\<close>: the host part, or \<^const>\<open>None\<close> where Go returns an error. The port
  starts after the last colon; a bracketed host ends at the first \<^verbatim>\<open>]\<close>, which must stand
  right before that colon.
\<close>

definition before_last :: "char \<Rightarrow> string \<Rightarrow> string option" where
  "before_last c s =
     (if c \<in> set s then Some (rev (tl (dropWhile (\<lambda>d. d \<noteq> c) (rev s)))) else None)"

definition SplitHostPort :: "string \<Rightarrow> string option" where
  "SplitHostPort hp =
     (case before_last CHR '':'' hp of
        None \<Rightarrow> None
      | Some h \<Rightarrow>
          if HasPrefix hp ''['' then
            (let inner = takeWhile (\<lambda>c. c \<noteq> CHR '']'') (tl hp) in
             if h \<noteq> ''['' @ inner @ '']'' then None
             else if CHR ''['' \<in> set (tl hp) then None
             else if CHR '']'' \<in> set (drop (length h) hp) then None
             else Some inner)
          else if CHR '':'' \<in> set h then None
          else if CHR ''['' \<in> set hp then None
          else if CHR '']'' \<in> set hp then None
          else Some h)"

section \<open>Cleaned paths\<close>

definition proper_elem :: "string \<Rightarrow> bool" where
  "proper_elem e \<longleftrightarrow> e \<noteq> '''' \<and> e \<noteq> ''.'' \<and> e \<noteq> ''..'' \<and> CHR ''/'' \<notin> set e"

definition clean_abs :: "string \<Rightarrow> bool" where
  "clean_abs p \<longleftrightarrow> rooted p \<and> Clean p = p"

lemma clean_step_proper:
  "list_all proper_elem st \<Longrightarrow> CHR ''/'' \<notin> set e \<Longrightarrow> list_all proper_elem (clean_step True st e)"
  by (cases st) (auto simp: clean_step_def proper_elem_def)

lemma foldl_clean_proper:
  "list_all proper_elem st \<Longrightarrow> (\<forall>e\<in>set es. CHR ''/'' \<notin> set e) \<Longrightarrow>
   list_all proper_elem (foldl (clean_step True) st es)"
  by (induction es arbitrary: st) (auto simp: clean_step_proper)

lemma clean_elems_proper: "rooted p \<Longrightarrow> list_all proper_elem (clean_elems p)"
  unfolding clean_elems_def list_all_rev
  by (simp add: foldl_clean_proper Split_sep_free)

lemma foldl_clean_id:
  "list_all proper_elem es \<Longrightarrow> foldl (clean_step r) st es = rev es @ st"
  by (induction es arbitrary: st) (auto simp: clean_step_def proper_elem_def)

lemma rooted_Cons [simp]: "rooted (c # s) \<longleftrightarrow> c = CHR ''/''"
  by (simp add: rooted_def HasPrefix_def)

lemma rooted_Nil [simp]: "\<not> rooted ''''"
  by (simp add: rooted_def HasPrefix_def)

lemma rootedE: "rooted p \<Longrightarrow> \<exists>s. p = CHR ''/'' # s"
  by (cases p) auto

lemma proper_sep_free: "list_all proper_elem es \<Longrightarrow> \<forall>e\<in>set es. CHR ''/'' \<notin> set e"
  by (auto simp: list_all_iff proper_elem_def)

lemma clean_elems_join:
  assumes "list_all proper_elem es"
  shows "clean_elems (CHR ''/'' # Join es CHR ''/'') = es"
proof (cases "es = []")
  case True
  then show ?thesis by (simp add: clean_elems_def clean_step_def)
next
  case False
  with assms show ?thesis
    by (simp add: clean_elems_def Split_Join proper_sep_free foldl_clean_id)
       (simp add: clean_step_def foldl_clean_id)
qed

lemma Clean_rooted: "rooted p \<Longrightarrow> Clean p = CHR ''/'' # Join (clean_elems p) CHR ''/''"
  by (auto simp: Clean_def)

lemma Clean_join:
  "list_all proper_elem es \<Longrightarrow> Clean (CHR ''/'' # Join es CHR ''/'') = CHR ''/'' # Join es CHR ''/''"
  by (simp add: Clean_rooted clean_elems_join)

lemma clean_abs_iff:
  "clean_abs p \<longleftrightarrow> (\<exists>es. list_all proper_elem es \<and> p = CHR ''/'' # Join es CHR ''/'')"
  unfolding clean_abs_def
  by (metis Clean_join Clean_rooted clean_elems_proper rooted_Cons)

lemma clean_abs_Clean [simp]: "rooted p \<Longrightarrow> clean_abs (Clean p)"
  by (auto simp: clean_abs_iff Clean_rooted intro!: exI [of _ "clean_elems p"] clean_elems_proper)

lemma clean_absD: "clean_abs p \<Longrightarrow> Clean p = p" "clean_abs p \<Longrightarrow> rooted p"
  by (simp_all add: clean_abs_def)

text \<open>Also without a leading slash the elements written are nonempty and free of slashes.\<close>

definition slash_free :: "string \<Rightarrow> bool" where
  "slash_free e \<longleftrightarrow> e \<noteq> '''' \<and> CHR ''/'' \<notin> set e"

lemma clean_step_slash_free:
  "list_all slash_free st \<Longrightarrow> CHR ''/'' \<notin> set e \<Longrightarrow> list_all slash_free (clean_step r st e)"
  by (cases st) (auto simp: clean_step_def slash_free_def)

lemma foldl_clean_slash_free:
  "list_all slash_free st \<Longrightarrow> (\<forall>e\<in>set es. CHR ''/'' \<notin> set e) \<Longrightarrow>
   list_all slash_free (foldl (clean_step r) st es)"
  by (induction es arbitrary: st) (simp_all add: clean_step_slash_free)

lemma clean_elems_slash_free: "list_all slash_free (clean_elems p)"
  unfolding clean_elems_def list_all_rev
  by (simp add: foldl_clean_slash_free Split_sep_free)

lemma Join_slash_free_not_rooted:
  assumes "list_all slash_free es"
  shows "\<not> rooted (Join es CHR ''/'')"
proof (cases es)
  case (Cons e fs)
  with assms obtain c e' where "e = c # e'" "c \<noteq> CHR ''/''"
    by (cases e) (auto simp: slash_free_def)
  with Cons show ?thesis by (cases fs) auto
qed simp

lemma rooted_Clean [simp]: "rooted (Clean p) \<longleftrightarrow> rooted p"
  using Join_slash_free_not_rooted [OF clean_elems_slash_free [of p]]
  by (auto simp: Clean_def)

lemma Clean_rooted_idem [simp]: "rooted p \<Longrightarrow> Clean (Clean p) = Clean p"
  by (rule clean_absD(1)) simp

lemma Clean_root [simp]: "Clean ''/'' = ''/''"
  by (simp add: Clean_def clean_elems_def clean_step_def)

lemma clean_abs_root [simp]: "clean_abs ''/''"
  by (simp add: clean_abs_def)

text \<open>A cleaned rooted path other than the root neither ends in nor contains an empty element.\<close>

lemma clean_abs_no_trailing:
  assumes "clean_abs p" "p \<noteq> ''/''"
  shows "\<not> HasSuffix p ''/''"
proof -
  from assms(1) obtain es where es: "list_all proper_elem es" "p = CHR ''/'' # Join es CHR ''/''"
    unfolding clean_abs_iff by blast
  with assms(2) have ne: "es \<noteq> []" by auto
  then obtain fs e where fe: "es = fs @ [e]" by (cases es rule: rev_cases) auto
  with es(1) have e: "e \<noteq> []" "CHR ''/'' \<notin> set e" by (auto simp: proper_elem_def)
  have "\<exists>u. p = u @ e"
    using es(2) fe by (cases "fs = []") (auto simp: Join_snoc)
  then obtain u where "p = u @ e" ..
  with e show ?thesis
    by (cases e rule: rev_cases) (auto simp: go_string suffix_def)
qed

text \<open>Nor does a cleaned relative path end in a slash.\<close>

lemma Join_last:
  assumes "list_all slash_free es" "es \<noteq> []"
  shows "\<exists>u c. Join es CHR ''/'' = u @ [c] \<and> c \<noteq> CHR ''/''"
  using assms
proof (induction es "CHR ''/''" rule: Join.induct)
  case (2 w)
  then show ?case by (cases w rule: rev_cases) (auto simp: slash_free_def)
next
  case (3 w v ws)
  then obtain u c where "Join (v # ws) CHR ''/'' = u @ [c]" "c \<noteq> CHR ''/''" by auto
  then show ?case by (intro exI [of _ "w @ CHR ''/'' # u"] exI [of _ c]) simp
qed simp

lemma Clean_relative_last:
  assumes "\<not> rooted p"
  shows "\<exists>u c. Clean p = u @ [c] \<and> c \<noteq> CHR ''/''"
  using assms Join_last [OF clean_elems_slash_free [of p]] by (auto simp: Clean_def)

lemma TrimSuffix_clean_abs:
  "clean_abs p \<Longrightarrow> p \<noteq> ''/'' \<Longrightarrow> TrimSuffix p ''/'' = p"
  by (simp add: TrimSuffix_def clean_abs_no_trailing)

text \<open>Extending a cleaned path below a cleaned path: only proper elements can be added.\<close>

lemma clean_abs_append_iff:
  assumes "clean_abs a" "a \<noteq> ''/''" "clean_abs b"
  shows "clean_abs (a @ b) \<longleftrightarrow> b \<noteq> ''/''"
proof -
  obtain es fs where es: "list_all proper_elem es" "a = CHR ''/'' # Join es CHR ''/''"
    and fs: "list_all proper_elem fs" "b = CHR ''/'' # Join fs CHR ''/''"
    using assms unfolding clean_abs_iff by blast
  have esne: "es \<noteq> []" using es(2) assms(2) by auto
  show ?thesis
  proof (cases "fs = []")
    case True
    then have "b = ''/''" using fs by simp
    moreover have "\<not> clean_abs (a @ ''/'')"
      using clean_abs_no_trailing [of "a @ ''/''"] HasSuffix_append [of a "''/''"] es(2) by auto
    ultimately show ?thesis by simp
  next
    case False
    then have "a @ b = CHR ''/'' # Join (es @ fs) CHR ''/''"
      using es fs esne by (simp add: Join_append)
    moreover have "b \<noteq> ''/''"
      using fs False Join_eq_Nil [of fs "CHR ''/''"] by (auto simp: list_all_iff proper_elem_def)
    ultimately show ?thesis using es fs by (auto simp: clean_abs_iff intro!: exI [of _ "es @ fs"])
  qed
qed

text \<open>The part of a cleaned path below a prefix of whole elements is again a cleaned path.\<close>

lemma clean_abs_suffix:
  assumes "clean_abs p" "p = a @ CHR ''/'' # s" "a \<noteq> ''''"
  shows "clean_abs (CHR ''/'' # s)"
proof -
  obtain es where es: "list_all proper_elem es" "p = CHR ''/'' # Join es CHR ''/''"
    using assms(1) unfolding clean_abs_iff by blast
  from assms(2,3) es(2) obtain a' where a: "a = CHR ''/'' # a'" by (cases a) auto
  have esne: "es \<noteq> []" using es(2) assms(2) a by auto
  have "es = Split (Join es CHR ''/'') CHR ''/''"
    using es(1) esne by (simp add: Split_Join proper_sep_free)
  also have "Join es CHR ''/'' = a' @ CHR ''/'' # s" using assms(2) es(2) a by simp
  also have "Split \<dots> CHR ''/'' = Split a' CHR ''/'' @ Split s CHR ''/''"
    by (induction a') (auto split: list.splits)
  finally have "list_all proper_elem (Split s CHR ''/'')" using es(1) by (metis list_all_append)
  then show ?thesis unfolding clean_abs_iff by (metis Join_Split)
qed

section \<open>Host and port\<close>

lemma before_last_append:
  "c \<notin> set q \<Longrightarrow> before_last c (h @ c # q) = Some h"
proof -
  assume c: "c \<notin> set q"
  have "dropWhile (\<lambda>d. d \<noteq> c) (rev q @ c # rev h) = c # rev h"
    using c by (subst dropWhile_append2) auto
  then show ?thesis by (simp add: before_last_def)
qed

lemma before_last_None: "c \<notin> set s \<Longrightarrow> before_last c s = None"
  by (simp add: before_last_def)

text \<open>A name without colons and brackets is returned whole, with or without a port.\<close>

definition plain_host :: "string \<Rightarrow> bool" where
  "plain_host h \<longleftrightarrow> CHR '':'' \<notin> set h \<and> CHR ''['' \<notin> set h \<and> CHR '']'' \<notin> set h"

lemma SplitHostPort_none: "CHR '':'' \<notin> set h \<Longrightarrow> SplitHostPort h = None"
  by (simp add: SplitHostPort_def before_last_None)

lemma SplitHostPort_port:
  assumes "plain_host h" "plain_host q"
  shows "SplitHostPort (h @ '':'' @ q) = Some h"
proof -
  have "\<not> HasPrefix (h @ '':'' @ q) ''[''"
    using assms by (cases h) (auto simp: HasPrefix_def plain_host_def)
  then show ?thesis
    using assms before_last_append [of "CHR '':''" q h]
    by (simp add: SplitHostPort_def plain_host_def)
qed

lemma SplitHostPort_ipv6:
  "SplitHostPort ''[::1]:80'' = Some ''::1''"
  by (simp add: SplitHostPort_def before_last_def HasPrefix_def Let_def)

end
