(* ===== verification/Config.thy ===== *)
theory Config
  imports Go_Path
begin

text \<open>
  The configuration types of \<^verbatim>\<open>internal/config/config.go\<close>: one record per struct, in the
  order of the source, the default values, and the mapping of the tunnel section to the
  configuration of the pollmux library. The constants that pollmux exports are not part
  of the repository: they are the fields of the record \<open>pollmux_consts\<close>, an argument of
  every definition that reads them.
\<close>

section \<open>Constants of the pollmux package\<close>

record pollmux_consts =
  PollModeBatch :: string
  PollModeStream :: string
  DefaultHeartbeatInterval :: duration
  DefaultStreamMaxDuration :: duration
  DefaultResumeGrace :: duration
  MaxResumeGrace :: duration
  DefaultMaxReplayBytes :: int
  DefaultMaxDetachedResumable :: int
  HeaderLocalHealth :: string

section \<open>Configuration records\<close>

definition Version :: string where
  "Version = ''0.1.0''"

record TLSConfig =
  tls_CacheDir :: string
  tls_Email :: string
  tls_Disable :: bool

record TunnelConfig =
  tun_PollTimeout :: duration
  tun_SessionTimeout :: duration
  tun_SweepInterval :: duration
  tun_CoalesceWindow :: duration
  tun_PollBufferSize :: int
  tun_MaxSendBytes :: int
  tun_HighWaterWarn :: int
  tun_PollMode :: string
  tun_HeartbeatInterval :: duration
  tun_StreamMaxDuration :: duration
  tun_EnableWebSocket :: bool
  tun_EnableResume :: bool
  tun_ResumeGrace :: duration
  tun_MaxReplayBytes :: int
  tun_MaxDetachedResumable :: int
  tun_MaxStreamsPerTunnel :: int
  tun_SupersedeDrainTimeout :: duration

record ProxyConfig =
  px_ResponseHeaderTimeout :: duration
  px_ReadHeaderTimeout :: duration
  px_MaxHeaderBytes :: int

record ClientBinding =
  cb_ClientID :: string
  cb_Subdomain :: string
  cb_PathPrefix :: string
  cb_StripPrefix :: bool
  cb_TokenFile :: string
  cb_Token :: string
  cb_MaxClients :: int

record StatusConfig =
  st_Enabled :: bool
  st_Listen :: string

record LoggingConfig =
  lg_Level :: string

record ServerConfig =
  sc_PublicListen :: string
  sc_HTTPListen :: string
  sc_RootDomain :: string
  sc_ControlPath :: string
  sc_DevListen :: string
  sc_TLS :: TLSConfig
  sc_Tunnel :: TunnelConfig
  sc_Proxy :: ProxyConfig
  sc_Clients :: "ClientBinding list"
  sc_Status :: StatusConfig
  sc_Logging :: LoggingConfig

record ServerRef =
  sr_URL :: string
  sr_Token :: string
  sr_TokenFile :: string
  sr_ControlPath :: string
  sr_InsecureSkipVerify :: bool

record LocalConfig =
  lc_Target :: string
  lc_HostRewrite :: string

record HealthConfig =
  hc_Enabled :: bool
  hc_Mode :: string
  hc_Path :: string
  hc_Interval :: duration
  hc_Timeout :: duration

record TransportConfig =
  tr_PollInterval :: duration
  tr_PollGrace :: duration
  tr_SendTimeout :: duration
  tr_DialTimeout :: duration
  tr_CoalesceWindow :: duration
  tr_MaxSendChunk :: int
  tr_PreferStream :: bool
  tr_UploadStreamPreference :: string
  tr_UploadProbeTimeout :: duration
  tr_PreferWebSocket :: bool
  tr_PreferResume :: bool
  tr_MaxReplayBytes :: int

text \<open>A pointer field of the source (\<^verbatim>\<open>*ServerRef\<close>, \<^verbatim>\<open>*HealthConfig\<close>) is an option.\<close>

record ServiceEntry =
  se_ClientID :: string
  se_TokenFile :: string
  se_Token :: string
  se_Local :: LocalConfig
  se_Server :: "ServerRef option"
  se_Health :: "HealthConfig option"

record MultiClientConfig =
  mc_Server :: ServerRef
  mc_Transport :: TransportConfig
  mc_Health :: HealthConfig
  mc_Logging :: LoggingConfig
  mc_Services :: "ServiceEntry list"

record ClientConfig =
  cc_ClientID :: string
  cc_Server :: ServerRef
  cc_Local :: LocalConfig
  cc_Transport :: TransportConfig
  cc_Health :: HealthConfig
  cc_Logging :: LoggingConfig

section \<open>Default values\<close>

definition Defaults :: "pollmux_consts \<Rightarrow> ServerConfig" where
  "Defaults pm = \<lparr>
     sc_PublicListen = '':443'',
     sc_HTTPListen = '':80'',
     sc_RootDomain = '''',
     sc_ControlPath = ''/tunnel'',
     sc_DevListen = '':8443'',
     sc_TLS = \<lparr>tls_CacheDir = '''', tls_Email = '''', tls_Disable = False\<rparr>,
     sc_Tunnel = \<lparr>
       tun_PollTimeout = 30 * second,
       tun_SessionTimeout = 60 * second,
       tun_SweepInterval = 5 * second,
       tun_CoalesceWindow = 2 * millisecond,
       tun_PollBufferSize = 256 * 2 ^ 10,
       tun_MaxSendBytes = 2 ^ 20,
       tun_HighWaterWarn = 0,
       tun_PollMode = PollModeBatch pm,
       tun_HeartbeatInterval = DefaultHeartbeatInterval pm,
       tun_StreamMaxDuration = DefaultStreamMaxDuration pm,
       tun_EnableWebSocket = False,
       tun_EnableResume = True,
       tun_ResumeGrace = DefaultResumeGrace pm,
       tun_MaxReplayBytes = DefaultMaxReplayBytes pm,
       tun_MaxDetachedResumable = DefaultMaxDetachedResumable pm,
       tun_MaxStreamsPerTunnel = 256,
       tun_SupersedeDrainTimeout = 10 * minute\<rparr>,
     sc_Proxy = \<lparr>
       px_ResponseHeaderTimeout = 60 * second,
       px_ReadHeaderTimeout = 10 * second,
       px_MaxHeaderBytes = 65536\<rparr>,
     sc_Clients = [],
     sc_Status = \<lparr>st_Enabled = False, st_Listen = ''127.0.0.1:9090''\<rparr>,
     sc_Logging = \<lparr>lg_Level = ''info''\<rparr>\<rparr>"

definition DefaultClient :: "pollmux_consts \<Rightarrow> ClientConfig" where
  "DefaultClient pm = \<lparr>
     cc_ClientID = '''',
     cc_Server = \<lparr>sr_URL = '''', sr_Token = '''', sr_TokenFile = '''', sr_ControlPath = '''',
                  sr_InsecureSkipVerify = False\<rparr>,
     cc_Local = \<lparr>lc_Target = '''', lc_HostRewrite = ''''\<rparr>,
     cc_Transport = \<lparr>
       tr_PollInterval = 0,
       tr_PollGrace = 10 * second,
       tr_SendTimeout = 15 * second,
       tr_DialTimeout = 10 * second,
       tr_CoalesceWindow = 2 * millisecond,
       tr_MaxSendChunk = 512 * 2 ^ 10,
       tr_PreferStream = False,
       tr_UploadStreamPreference = '''',
       tr_UploadProbeTimeout = 0,
       tr_PreferWebSocket = False,
       tr_PreferResume = True,
       tr_MaxReplayBytes = DefaultMaxReplayBytes pm\<rparr>,
     cc_Health = \<lparr>
       hc_Enabled = True,
       hc_Mode = ''tcp'',
       hc_Path = ''/healthz'',
       hc_Interval = 15 * second,
       hc_Timeout = 3 * second\<rparr>,
     cc_Logging = \<lparr>lg_Level = ''info''\<rparr>\<rparr>"

section \<open>The pollmux server configuration\<close>

text \<open>
  The fields of \<^verbatim>\<open>pollmux.ServerConfig\<close> that HttpHop fills in; the logger, which carries no
  configuration, is left out.
\<close>

record pollmux_ServerConfig =
  ps_PollTimeout :: duration
  ps_SessionTimeout :: duration
  ps_SweepInterval :: duration
  ps_CoalesceWindow :: duration
  ps_PollBufferSize :: int
  ps_MaxSendBytes :: int
  ps_HighWaterWarn :: int
  ps_PollMode :: string
  ps_HeartbeatInterval :: duration
  ps_StreamMaxDuration :: duration
  ps_EnableWebSocket :: bool
  ps_EnableResume :: bool
  ps_ResumeGrace :: duration
  ps_MaxReplayBytes :: int
  ps_MaxDetachedResumable :: int

definition PollmuxServerConfig :: "pollmux_consts \<Rightarrow> ServerConfig \<Rightarrow> pollmux_ServerConfig" where
  "PollmuxServerConfig pm cfg =
     (let t = sc_Tunnel cfg;
          pollMode = (if tun_PollMode t = '''' then PollModeBatch pm else tun_PollMode t)
      in \<lparr>
       ps_PollTimeout = tun_PollTimeout t,
       ps_SessionTimeout = tun_SessionTimeout t,
       ps_SweepInterval = tun_SweepInterval t,
       ps_CoalesceWindow = tun_CoalesceWindow t,
       ps_PollBufferSize = tun_PollBufferSize t,
       ps_MaxSendBytes = tun_MaxSendBytes t,
       ps_HighWaterWarn = tun_HighWaterWarn t,
       ps_PollMode = pollMode,
       ps_HeartbeatInterval = tun_HeartbeatInterval t,
       ps_StreamMaxDuration = tun_StreamMaxDuration t,
       ps_EnableWebSocket = tun_EnableWebSocket t,
       ps_EnableResume = tun_EnableResume t,
       ps_ResumeGrace = tun_ResumeGrace t,
       ps_MaxReplayBytes = tun_MaxReplayBytes t,
       ps_MaxDetachedResumable = tun_MaxDetachedResumable t\<rparr>)"

section \<open>Example values\<close>

text \<open>Values of the pollmux constants at which hypotheses about them are checked.\<close>

definition example_consts :: pollmux_consts where
  "example_consts = \<lparr>
     PollModeBatch = ''batch'', PollModeStream = ''stream'',
     DefaultHeartbeatInterval = 15 * second, DefaultStreamMaxDuration = 5 * minute,
     DefaultResumeGrace = 30 * second, MaxResumeGrace = 10 * minute,
     DefaultMaxReplayBytes = 2 ^ 22, DefaultMaxDetachedResumable = 64,
     HeaderLocalHealth = ''X-Local-Health''\<rparr>"

definition example_token :: string where
  "example_token = ''0123456789abcdef0123456789abcdef''"

definition example_binding :: ClientBinding where
  "example_binding = \<lparr>
     cb_ClientID = ''home'', cb_Subdomain = ''app'', cb_PathPrefix = '''', cb_StripPrefix = False,
     cb_TokenFile = ''t'', cb_Token = example_token, cb_MaxClients = 1\<rparr>"

end
