(* ===== verification/Config_Load.thy ===== *)
theory Config_Load
  imports Config
begin

text \<open>
  Loading and validation of the configuration: \<^verbatim>\<open>internal/config/control_path.go\<close>,
  \<^verbatim>\<open>token.go\<close> and \<^verbatim>\<open>load.go\<close>. Every \<^verbatim>\<open>fmt.Errorf\<close> of the source is a constructor of
  \<open>config_error\<close> that carries the values the message prints. The viper library and the file
  system are parameters: the records \<open>viper\<close> and the function \<open>os_ReadFile\<close>.
  The loops over the bindings and the services are recursions over their lists that carry
  the \<^verbatim>\<open>seen\<close> sets of the source. The predicates \<open>server_ok\<close> and \<open>client_ok\<close> state the
  contract of the validators without loops; soundness and completeness against them are the
  main results, with the uniqueness of the credentials and routes of an accepted configuration.
\<close>

section \<open>Errors\<close>

datatype config_error =
    ReadConfig string
  | ParseConfig string
  | ReadTokenFile string string
  | TokenFileEmpty string
  | RequiresTokenFile string
  | TokenTooShort string
  | ForClient string config_error
  | ForService string config_error
  | ServiceRequiresTokenFile string
  | ServerTokenFileRequired
  | RootDomainRequired
  | ControlPathIsRoot
  | ControlPathConflict string string string
  | SessionTimeoutTooSmall duration duration
  | InvalidPollMode string
  | StreamMaxDurationTooSmall duration duration
  | InvalidResumeGrace duration
  | InvalidReplayBytes
  | NoClientBinding
  | BindingClientIDRequired
  | DuplicateClientID string
  | DuplicateToken string string
  | DuplicateRoute string string
  | PathPrefixNotRooted string
  | ConflictingPathPrefix string string string
  | ServicesEmpty
  | ServiceClientIDRequired
  | DuplicateServiceClientID string
  | ClientIDRequired
  | ServerURLRequired
  | ServerTokenRequired
  | ServerTokenTooShort
  | LocalTargetRequired
  | InvalidHealthMode
  | InvalidUploadPreference string

section \<open>control\_path.go\<close>

definition defaultControlPath :: string where
  "defaultControlPath = ''/tunnel''"

definition validateControlPath :: "string \<Rightarrow> config_error + string" where
  "validateControlPath p =
     (if p = '''' then Inr defaultControlPath
      else let cleaned = Clean p;
               cleaned = (if \<not> HasPrefix cleaned ''/'' then ''/'' @ cleaned else cleaned)
           in if cleaned = ''/'' then Inl ControlPathIsRoot
              else Inr (TrimSuffix cleaned ''/''))"

definition NormalizeControlPath :: "string \<Rightarrow> string" where
  "NormalizeControlPath p =
     (case validateControlPath p of Inl _ \<Rightarrow> defaultControlPath | Inr normalized \<Rightarrow> normalized)"

definition normalizePathPrefix :: "string \<Rightarrow> string" where
  "normalizePathPrefix p =
     (if p = '''' then ''''
      else let cleaned = Clean p
           in if cleaned = ''/'' then ''/'' else TrimSuffix cleaned ''/'')"

fun validateControlPathNotConflicting :: "string \<Rightarrow> ClientBinding list \<Rightarrow> config_error + unit" where
  "validateControlPathNotConflicting controlPath [] = Inr ()"
| "validateControlPathNotConflicting controlPath (cb # cbs) =
     (let pp = normalizePathPrefix (cb_PathPrefix cb)
      in if pp = '''' then validateControlPathNotConflicting controlPath cbs
         else if pp = controlPath \<or> HasPrefix controlPath (pp @ ''/'')
                 \<or> HasPrefix pp (controlPath @ ''/'')
              then Inl (ControlPathConflict controlPath pp (cb_ClientID cb))
         else validateControlPathNotConflicting controlPath cbs)"

section \<open>token.go\<close>

type_synonym read_file = "string \<Rightarrow> string + string"

definition readTokenFile :: "read_file \<Rightarrow> string \<Rightarrow> config_error + string" where
  "readTokenFile os_ReadFile path =
     (case os_ReadFile path of
        Inl e \<Rightarrow> Inl (ReadTokenFile path e)
      | Inr data \<Rightarrow>
          let token = TrimSpace data
          in if token = '''' then Inl (TokenFileEmpty path) else Inr token)"

definition token_path :: "string \<Rightarrow> string \<Rightarrow> string" where
  "token_path baseDir path = (if \<not> IsAbs path then Join_path baseDir path else path)"

fun resolve_bindings ::
  "read_file \<Rightarrow> string \<Rightarrow> ClientBinding list \<Rightarrow> config_error + ClientBinding list" where
  "resolve_bindings os_ReadFile baseDir [] = Inr []"
| "resolve_bindings os_ReadFile baseDir (cb # cbs) =
     (if cb_TokenFile cb = '''' then Inl (RequiresTokenFile (cb_ClientID cb))
      else case readTokenFile os_ReadFile (token_path baseDir (cb_TokenFile cb)) of
             Inl e \<Rightarrow> Inl (ForClient (cb_ClientID cb) e)
           | Inr tok \<Rightarrow>
               if length tok < 32 then Inl (TokenTooShort (cb_ClientID cb))
               else bind_result (resolve_bindings os_ReadFile baseDir cbs)
                      (\<lambda>cbs'. Inr (cb\<lparr>cb_Token := tok\<rparr> # cbs')))"

definition resolveClientBindingTokens ::
  "read_file \<Rightarrow> ClientBinding list \<Rightarrow> string \<Rightarrow> config_error + ClientBinding list" where
  "resolveClientBindingTokens os_ReadFile clients configPath =
     resolve_bindings os_ReadFile (Dir configPath) clients"

fun resolve_services ::
  "read_file \<Rightarrow> string \<Rightarrow> ServiceEntry list \<Rightarrow> config_error + ServiceEntry list" where
  "resolve_services os_ReadFile baseDir [] = Inr []"
| "resolve_services os_ReadFile baseDir (svc # svcs) =
     (if se_TokenFile svc = '''' then Inl (ServiceRequiresTokenFile (se_ClientID svc))
      else case readTokenFile os_ReadFile (token_path baseDir (se_TokenFile svc)) of
             Inl e \<Rightarrow> Inl (ForService (se_ClientID svc) e)
           | Inr tok \<Rightarrow>
               bind_result (resolve_services os_ReadFile baseDir svcs)
                 (\<lambda>svcs'. Inr (svc\<lparr>se_Token := tok\<rparr> # svcs')))"

definition resolveServiceTokens ::
  "read_file \<Rightarrow> ServiceEntry list \<Rightarrow> string \<Rightarrow> config_error + ServiceEntry list" where
  "resolveServiceTokens os_ReadFile services configPath =
     resolve_services os_ReadFile (Dir configPath) services"

definition resolveClientAuthToken ::
  "read_file \<Rightarrow> ClientConfig \<Rightarrow> string \<Rightarrow> config_error + ClientConfig" where
  "resolveClientAuthToken os_ReadFile cfg configPath =
     (let srv = cc_Server cfg
      in if sr_TokenFile srv \<noteq> '''' then
           bind_result (readTokenFile os_ReadFile (token_path (Dir configPath) (sr_TokenFile srv)))
             (\<lambda>tok. Inr (cfg\<lparr>cc_Server := srv\<lparr>sr_Token := tok\<rparr>\<rparr>))
         else if sr_Token srv \<noteq> '''' then Inr cfg
         else Inl ServerTokenFileRequired)"

section \<open>load.go: defaults for omitted values\<close>

definition or_default :: "'a \<Rightarrow> 'a \<Rightarrow> 'a \<Rightarrow> 'a" where
  "or_default zero d x = (if x = zero then d else x)"

definition applyServerDefaults :: "pollmux_consts \<Rightarrow> ServerConfig \<Rightarrow> ServerConfig" where
  "applyServerDefaults pm cfg =
     (let d = Defaults pm; dt = sc_Tunnel d; t = sc_Tunnel cfg; dp = sc_Proxy d; p = sc_Proxy cfg
      in cfg\<lparr>
        sc_PublicListen := or_default '''' (sc_PublicListen d) (sc_PublicListen cfg),
        sc_HTTPListen := or_default '''' (sc_HTTPListen d) (sc_HTTPListen cfg),
        sc_DevListen := or_default '''' (sc_DevListen d) (sc_DevListen cfg),
        sc_Tunnel := t\<lparr>
          tun_PollTimeout := or_default 0 (tun_PollTimeout dt) (tun_PollTimeout t),
          tun_SessionTimeout := or_default 0 (tun_SessionTimeout dt) (tun_SessionTimeout t),
          tun_SweepInterval := or_default 0 (tun_SweepInterval dt) (tun_SweepInterval t),
          tun_CoalesceWindow := or_default 0 (tun_CoalesceWindow dt) (tun_CoalesceWindow t),
          tun_PollBufferSize := or_default 0 (tun_PollBufferSize dt) (tun_PollBufferSize t),
          tun_MaxSendBytes := or_default 0 (tun_MaxSendBytes dt) (tun_MaxSendBytes t),
          tun_PollMode := or_default '''' (tun_PollMode dt) (tun_PollMode t),
          tun_HeartbeatInterval := or_default 0 (tun_HeartbeatInterval dt) (tun_HeartbeatInterval t),
          tun_StreamMaxDuration := or_default 0 (tun_StreamMaxDuration dt) (tun_StreamMaxDuration t),
          tun_ResumeGrace := or_default 0 (tun_ResumeGrace dt) (tun_ResumeGrace t),
          tun_MaxReplayBytes := or_default 0 (tun_MaxReplayBytes dt) (tun_MaxReplayBytes t),
          tun_MaxStreamsPerTunnel :=
            or_default 0 (tun_MaxStreamsPerTunnel dt) (tun_MaxStreamsPerTunnel t)\<rparr>,
        sc_Proxy := p\<lparr>
          px_ResponseHeaderTimeout :=
            or_default 0 (px_ResponseHeaderTimeout dp) (px_ResponseHeaderTimeout p),
          px_ReadHeaderTimeout := or_default 0 (px_ReadHeaderTimeout dp) (px_ReadHeaderTimeout p),
          px_MaxHeaderBytes := or_default 0 (px_MaxHeaderBytes dp) (px_MaxHeaderBytes p)\<rparr>,
        sc_Status := (sc_Status cfg)\<lparr>
          st_Listen := or_default '''' (st_Listen (sc_Status d)) (st_Listen (sc_Status cfg))\<rparr>,
        sc_Logging := (sc_Logging cfg)\<lparr>
          lg_Level := or_default '''' (lg_Level (sc_Logging d)) (lg_Level (sc_Logging cfg))\<rparr>,
        sc_ControlPath := or_default '''' (sc_ControlPath d) (sc_ControlPath cfg),
        sc_Clients := map (\<lambda>cb. cb\<lparr>cb_MaxClients := or_default 0 1 (cb_MaxClients cb)\<rparr>)
                          (sc_Clients cfg)\<rparr>)"

definition applyClientDefaults :: "pollmux_consts \<Rightarrow> ClientConfig \<Rightarrow> ClientConfig" where
  "applyClientDefaults pm cfg =
     (let d = DefaultClient pm; dt = cc_Transport d; t = cc_Transport cfg;
          dh = cc_Health d; h = cc_Health cfg
      in cfg\<lparr>
        cc_Transport := t\<lparr>
          tr_PollGrace := or_default 0 (tr_PollGrace dt) (tr_PollGrace t),
          tr_SendTimeout := or_default 0 (tr_SendTimeout dt) (tr_SendTimeout t),
          tr_DialTimeout := or_default 0 (tr_DialTimeout dt) (tr_DialTimeout t),
          tr_CoalesceWindow := or_default 0 (tr_CoalesceWindow dt) (tr_CoalesceWindow t),
          tr_MaxSendChunk := or_default 0 (tr_MaxSendChunk dt) (tr_MaxSendChunk t),
          tr_MaxReplayBytes := or_default 0 (tr_MaxReplayBytes dt) (tr_MaxReplayBytes t)\<rparr>,
        cc_Health := h\<lparr>
          hc_Interval := or_default 0 (hc_Interval dh) (hc_Interval h),
          hc_Timeout := or_default 0 (hc_Timeout dh) (hc_Timeout h),
          hc_Mode := or_default '''' (hc_Mode dh) (hc_Mode h),
          hc_Path := or_default '''' (hc_Path dh) (hc_Path h)\<rparr>,
        cc_Logging := (cc_Logging cfg)\<lparr>
          lg_Level := or_default '''' (lg_Level (cc_Logging d)) (lg_Level (cc_Logging cfg))\<rparr>\<rparr>)"

section \<open>load.go: validation of the server configuration\<close>

text \<open>
  The entries of one host in \<^verbatim>\<open>validatePathPrefixConflicts\<close>: prefix and client. Go visits the hosts in an arbitrary
  order; the order matters for which conflict is reported, not for whether there is one.
\<close>

definition prefix_entries :: "string \<Rightarrow> ClientBinding list \<Rightarrow> (string \<times> string) list" where
  "prefix_entries host bindings =
     map (\<lambda>cb. (normalizePathPrefix (cb_PathPrefix cb), cb_ClientID cb))
       (filter (\<lambda>cb. cb_Subdomain cb = host \<and> normalizePathPrefix (cb_PathPrefix cb) \<noteq> '''')
         bindings)"

definition conflicting_pair :: "(string \<times> string) list \<Rightarrow> nat \<times> nat \<Rightarrow> bool" where
  "conflicting_pair entries ij =
     (let (i, j) = ij; (a, ida) = entries ! i; (b, idb) = entries ! j
      in \<not> (i = j \<or> ida = idb)
         \<and> (HasPrefix a (b @ ''/'') \<or> HasPrefix b (a @ ''/'') \<or> a = b))"

fun first_conflict :: "ClientBinding list \<Rightarrow> string list \<Rightarrow> config_error + unit" where
  "first_conflict bindings [] = Inr ()"
| "first_conflict bindings (host # hosts) =
     (let entries = prefix_entries host bindings; n = length entries
      in case find (conflicting_pair entries) (List.product [0..<n] [0..<n]) of
           Some (i, j) \<Rightarrow>
             Inl (ConflictingPathPrefix host (fst (entries ! i)) (fst (entries ! j)))
         | None \<Rightarrow> first_conflict bindings hosts)"

definition validatePathPrefixConflicts :: "ClientBinding list \<Rightarrow> config_error + unit" where
  "validatePathPrefixConflicts bindings =
     first_conflict bindings (remdups (map cb_Subdomain bindings))"

definition routeKey :: "ClientBinding \<Rightarrow> string" where
  "routeKey cb = cb_Subdomain cb @ [CHR 0x00] @ normalizePathPrefix (cb_PathPrefix cb)"

fun validate_bindings ::
  "string list \<Rightarrow> (string \<times> string) list \<Rightarrow> string list \<Rightarrow> ClientBinding list
     \<Rightarrow> config_error + unit" where
  "validate_bindings seenClientID seenToken seenRoute [] = Inr ()"
| "validate_bindings seenClientID seenToken seenRoute (cb # cbs) =
     (if cb_ClientID cb = '''' then Inl BindingClientIDRequired
      else if cb_TokenFile cb = '''' \<and> cb_Token cb = '''' then
        Inl (RequiresTokenFile (cb_ClientID cb))
      else if cb_ClientID cb \<in> set seenClientID then Inl (DuplicateClientID (cb_ClientID cb))
      else if length (cb_Token cb) < 32 then Inl (TokenTooShort (cb_ClientID cb))
      else case map_of seenToken (cb_Token cb) of
             Some other \<Rightarrow> Inl (DuplicateToken other (cb_ClientID cb))
           | None \<Rightarrow>
               if routeKey cb \<in> set seenRoute then
                 Inl (DuplicateRoute (cb_Subdomain cb) (cb_PathPrefix cb))
               else if cb_PathPrefix cb \<noteq> '''' \<and> \<not> HasPrefix (cb_PathPrefix cb) ''/'' then
                 Inl (PathPrefixNotRooted (cb_ClientID cb))
               else validate_bindings (cb_ClientID cb # seenClientID)
                      ((cb_Token cb, cb_ClientID cb) # seenToken) (routeKey cb # seenRoute) cbs)"

definition validate_tunnel :: "pollmux_consts \<Rightarrow> TunnelConfig \<Rightarrow> config_error + unit" where
  "validate_tunnel pm t =
     (if tun_SessionTimeout t < wrap64 (2 * tun_PollTimeout t) then
        Inl (SessionTimeoutTooSmall (tun_SessionTimeout t) (tun_PollTimeout t))
      else let pollMode = (if tun_PollMode t = '''' then PollModeBatch pm else tun_PollMode t)
      in if pollMode \<noteq> PollModeBatch pm \<and> pollMode \<noteq> PollModeStream pm then
           Inl (InvalidPollMode pollMode)
         else if pollMode = PollModeStream pm
                 \<and> tun_StreamMaxDuration t < wrap64 (2 * tun_HeartbeatInterval t) then
           Inl (StreamMaxDurationTooSmall (tun_StreamMaxDuration t) (tun_HeartbeatInterval t))
         else if tun_EnableResume t
                 \<and> (tun_ResumeGrace t \<le> 0 \<or> tun_ResumeGrace t > MaxResumeGrace pm) then
           Inl (InvalidResumeGrace (tun_ResumeGrace t))
         else if tun_EnableResume t \<and> tun_MaxReplayBytes t \<le> 0 then Inl InvalidReplayBytes
         else Inr ())"

definition ValidateServer :: "pollmux_consts \<Rightarrow> ServerConfig \<Rightarrow> config_error + ServerConfig" where
  "ValidateServer pm cfg =
     (if sc_RootDomain cfg = '''' then Inl RootDomainRequired
      else bind_result (validateControlPath (sc_ControlPath cfg)) (\<lambda>normalizedControlPath.
        let cfg = cfg\<lparr>sc_ControlPath := normalizedControlPath\<rparr>
        in bind_result (validateControlPathNotConflicting (sc_ControlPath cfg) (sc_Clients cfg))
             (\<lambda>_. bind_result (validate_tunnel pm (sc_Tunnel cfg))
             (\<lambda>_. bind_result (check (sc_Clients cfg \<noteq> []) NoClientBinding)
             (\<lambda>_. bind_result (validate_bindings [] [] [] (sc_Clients cfg))
             (\<lambda>_. bind_result (validatePathPrefixConflicts (sc_Clients cfg))
             (\<lambda>_. Inr cfg)))))))"

definition ValidateClient :: "pollmux_consts \<Rightarrow> ClientConfig \<Rightarrow> config_error + unit" where
  "ValidateClient pm cfg =
     (let srv = cc_Server cfg; up = tr_UploadStreamPreference (cc_Transport cfg)
      in if cc_ClientID cfg = '''' then Inl ClientIDRequired
         else if sr_URL srv = '''' then Inl ServerURLRequired
         else if sr_Token srv = '''' then Inl ServerTokenRequired
         else if length (sr_Token srv) < 32 then Inl ServerTokenTooShort
         else if lc_Target (cc_Local cfg) = '''' then Inl LocalTargetRequired
         else if hc_Enabled (cc_Health cfg)
                 \<and> hc_Mode (cc_Health cfg) \<noteq> ''tcp'' \<and> hc_Mode (cc_Health cfg) \<noteq> ''http'' then
           Inl InvalidHealthMode
         else if tr_MaxReplayBytes (cc_Transport cfg) \<le> 0 then Inl InvalidReplayBytes
         else if up \<noteq> '''' \<and> up \<noteq> PollModeBatch pm \<and> up \<noteq> PollModeStream pm then
           Inl (InvalidUploadPreference up)
         else Inr ())"

section \<open>load.go: the loaders\<close>

text \<open>
  A viper instance holds the defaults that were set and the file to read. Reading the file and
  decoding it into a struct are the library's; decoding starts from the struct's current value.
\<close>

datatype viper_value = VBool bool | VInt int

record viper_inst =
  vi_defaults :: "(string \<times> viper_value) list"
  vi_file :: string

record viper =
  ReadInConfig :: "viper_inst \<Rightarrow> string option"
  IsSet :: "viper_inst \<Rightarrow> string \<Rightarrow> bool"
  UnmarshalServer :: "viper_inst \<Rightarrow> ServerConfig \<Rightarrow> string + ServerConfig"
  UnmarshalClient :: "viper_inst \<Rightarrow> ClientConfig \<Rightarrow> string + ClientConfig"
  UnmarshalMulti :: "viper_inst \<Rightarrow> string + MultiClientConfig"

definition parse_result :: "string + 'a \<Rightarrow> config_error + 'a" where
  "parse_result r = (case r of Inl e \<Rightarrow> Inl (ParseConfig e) | Inr x \<Rightarrow> Inr x)"

definition LoadServer ::
  "pollmux_consts \<Rightarrow> viper \<Rightarrow> read_file \<Rightarrow> string \<Rightarrow> config_error + ServerConfig" where
  "LoadServer pm vp os_ReadFile path =
     (let v = \<lparr>vi_defaults = [(''tunnel.enable_resume'', VBool True),
                             (''tunnel.max_detached_resumable'',
                              VInt (DefaultMaxDetachedResumable pm))],
              vi_file = path\<rparr>
      in case ReadInConfig vp v of
           Some e \<Rightarrow> Inl (ReadConfig e)
         | None \<Rightarrow>
             bind_result (parse_result (UnmarshalServer vp v (Defaults pm))) (\<lambda>cfg.
             let cfg = applyServerDefaults pm cfg
             in bind_result (resolveClientBindingTokens os_ReadFile (sc_Clients cfg) path)
                  (\<lambda>clients. ValidateServer pm (cfg\<lparr>sc_Clients := clients\<rparr>))))"

definition loadSingleClient ::
  "pollmux_consts \<Rightarrow> viper \<Rightarrow> read_file \<Rightarrow> viper_inst \<Rightarrow> string \<Rightarrow> config_error + ClientConfig list"
where
  "loadSingleClient pm vp os_ReadFile v path =
     bind_result (parse_result (UnmarshalClient vp v (DefaultClient pm))) (\<lambda>cfg.
     bind_result (resolveClientAuthToken os_ReadFile (applyClientDefaults pm cfg) path) (\<lambda>cfg.
     bind_result (ValidateClient pm cfg) (\<lambda>_. Inr [cfg])))"

text \<open>The overrides of one service entry: the server reference and the health check.\<close>

definition service_server :: "ServerRef \<Rightarrow> ServiceEntry \<Rightarrow> ServerRef" where
  "service_server base svc =
     (case se_Server svc of
        None \<Rightarrow> base
      | Some s \<Rightarrow> base\<lparr>
          sr_URL := (if sr_URL s \<noteq> '''' then sr_URL s else sr_URL base),
          sr_ControlPath := (if sr_ControlPath s \<noteq> '''' then sr_ControlPath s
                             else sr_ControlPath base),
          sr_InsecureSkipVerify := sr_InsecureSkipVerify s\<rparr>)\<lparr>sr_Token := se_Token svc\<rparr>"

definition service_health :: "HealthConfig \<Rightarrow> ServiceEntry \<Rightarrow> HealthConfig" where
  "service_health base svc =
     (case se_Health svc of
        None \<Rightarrow> base
      | Some h \<Rightarrow> base\<lparr>
          hc_Mode := (if hc_Mode h \<noteq> '''' then hc_Mode h else hc_Mode base),
          hc_Path := (if hc_Path h \<noteq> '''' then hc_Path h else hc_Path base),
          hc_Interval := (if hc_Interval h \<noteq> 0 then hc_Interval h else hc_Interval base),
          hc_Timeout := (if hc_Timeout h \<noteq> 0 then hc_Timeout h else hc_Timeout base)\<rparr>)"

definition service_config ::
  "pollmux_consts \<Rightarrow> MultiClientConfig \<Rightarrow> ServiceEntry \<Rightarrow> ClientConfig" where
  "service_config pm multi svc =
     applyClientDefaults pm ((DefaultClient pm)\<lparr>
       cc_ClientID := se_ClientID svc,
       cc_Local := se_Local svc,
       cc_Transport := mc_Transport multi,
       cc_Logging := mc_Logging multi,
       cc_Server := service_server (mc_Server multi) svc,
       cc_Health := service_health (mc_Health multi) svc\<rparr>)"

fun load_services ::
  "pollmux_consts \<Rightarrow> MultiClientConfig \<Rightarrow> string list \<Rightarrow> ServiceEntry list
     \<Rightarrow> config_error + ClientConfig list" where
  "load_services pm multi seenID [] = Inr []"
| "load_services pm multi seenID (svc # svcs) =
     (if se_ClientID svc = '''' then Inl ServiceClientIDRequired
      else if se_ClientID svc \<in> set seenID then Inl (DuplicateServiceClientID (se_ClientID svc))
      else let cfg = service_config pm multi svc
           in case ValidateClient pm cfg of
                Inl e \<Rightarrow> Inl (ForService (se_ClientID svc) e)
              | Inr _ \<Rightarrow>
                  bind_result (load_services pm multi (se_ClientID svc # seenID) svcs)
                    (\<lambda>configs. Inr (cfg # configs)))"

definition loadMultiClient ::
  "pollmux_consts \<Rightarrow> viper \<Rightarrow> read_file \<Rightarrow> viper_inst \<Rightarrow> string \<Rightarrow> config_error + ClientConfig list"
where
  "loadMultiClient pm vp os_ReadFile v path =
     bind_result (parse_result (UnmarshalMulti vp v)) (\<lambda>multi.
     bind_result (check (mc_Services multi \<noteq> []) ServicesEmpty) (\<lambda>_.
     bind_result (resolveServiceTokens os_ReadFile (mc_Services multi) path) (\<lambda>services.
     load_services pm multi [] services)))"

definition LoadClient ::
  "pollmux_consts \<Rightarrow> viper \<Rightarrow> read_file \<Rightarrow> string \<Rightarrow> config_error + ClientConfig list" where
  "LoadClient pm vp os_ReadFile path =
     (let v = \<lparr>vi_defaults = [(''transport.prefer_resume'', VBool True),
                             (''transport.max_replay_bytes'', VInt (DefaultMaxReplayBytes pm))],
              vi_file = path\<rparr>
      in case ReadInConfig vp v of
           Some e \<Rightarrow> Inl (ReadConfig e)
         | None \<Rightarrow> if IsSet vp v ''services'' then loadMultiClient pm vp os_ReadFile v path
                   else loadSingleClient pm vp os_ReadFile v path)"

section \<open>The contract of the validators\<close>

text \<open>
  The control path that a configured value stands for: the default for the empty string, otherwise the
  cleaned path with a leading slash.
\<close>

definition control_path :: "string \<Rightarrow> string" where
  "control_path p = (if p = '''' then ''/tunnel'' else if rooted p then Clean p else CHR ''/'' # Clean p)"

definition control_disjoint :: "string \<Rightarrow> ClientBinding \<Rightarrow> bool" where
  "control_disjoint cp cb \<longleftrightarrow>
     (let pp = normalizePathPrefix (cb_PathPrefix cb)
      in pp = '''' \<or> (\<not> under_path pp cp \<and> \<not> under_path cp pp))"

definition poll_mode :: "pollmux_consts \<Rightarrow> TunnelConfig \<Rightarrow> string" where
  "poll_mode pm t = (if tun_PollMode t = '''' then PollModeBatch pm else tun_PollMode t)"

definition tunnel_ok :: "pollmux_consts \<Rightarrow> TunnelConfig \<Rightarrow> bool" where
  "tunnel_ok pm t \<longleftrightarrow>
     wrap64 (2 * tun_PollTimeout t) \<le> tun_SessionTimeout t
     \<and> poll_mode pm t \<in> {PollModeBatch pm, PollModeStream pm}
     \<and> (poll_mode pm t = PollModeStream pm \<longrightarrow>
          wrap64 (2 * tun_HeartbeatInterval t) \<le> tun_StreamMaxDuration t)
     \<and> (tun_EnableResume t \<longrightarrow>
          0 < tun_ResumeGrace t \<and> tun_ResumeGrace t \<le> MaxResumeGrace pm
          \<and> 0 < tun_MaxReplayBytes t)"

definition binding_ok :: "ClientBinding \<Rightarrow> bool" where
  "binding_ok cb \<longleftrightarrow>
     cb_ClientID cb \<noteq> '''' \<and> 32 \<le> length (cb_Token cb)
     \<and> (cb_PathPrefix cb = '''' \<or> rooted (cb_PathPrefix cb))"

definition bindings_ok :: "ClientBinding list \<Rightarrow> bool" where
  "bindings_ok cbs \<longleftrightarrow>
     list_all binding_ok cbs \<and> distinct (map cb_ClientID cbs)
     \<and> distinct (map cb_Token cbs) \<and> distinct (map routeKey cbs)"

definition prefixes_disjoint :: "ClientBinding list \<Rightarrow> bool" where
  "prefixes_disjoint cbs \<longleftrightarrow>
     (\<forall>cb\<in>set cbs. \<forall>cb'\<in>set cbs.
        cb_Subdomain cb = cb_Subdomain cb' \<longrightarrow> cb_ClientID cb \<noteq> cb_ClientID cb' \<longrightarrow>
        normalizePathPrefix (cb_PathPrefix cb) \<noteq> '''' \<longrightarrow>
        normalizePathPrefix (cb_PathPrefix cb') \<noteq> '''' \<longrightarrow>
        \<not> under_path (normalizePathPrefix (cb_PathPrefix cb))
                     (normalizePathPrefix (cb_PathPrefix cb')))"

definition server_ok :: "pollmux_consts \<Rightarrow> ServerConfig \<Rightarrow> bool" where
  "server_ok pm cfg \<longleftrightarrow>
     sc_RootDomain cfg \<noteq> ''''
     \<and> control_path (sc_ControlPath cfg) \<noteq> ''/''
     \<and> list_all (control_disjoint (control_path (sc_ControlPath cfg))) (sc_Clients cfg)
     \<and> tunnel_ok pm (sc_Tunnel cfg)
     \<and> sc_Clients cfg \<noteq> []
     \<and> bindings_ok (sc_Clients cfg)
     \<and> prefixes_disjoint (sc_Clients cfg)"

section \<open>Normalised prefixes and control paths\<close>

lemma rooted_HasPrefix [simp]: "HasPrefix p ''/'' \<longleftrightarrow> rooted p"
  by (simp add: rooted_def)

lemma normalizePathPrefix_Nil [simp]: "normalizePathPrefix '''' = ''''"
  by (simp add: normalizePathPrefix_def)

lemma normalizePathPrefix_rooted: "rooted p \<Longrightarrow> normalizePathPrefix p = Clean p"
  by (auto simp: normalizePathPrefix_def Let_def TrimSuffix_clean_abs)

lemma normalizePathPrefix_clean_abs: "rooted p \<Longrightarrow> clean_abs (normalizePathPrefix p)"
  by (simp add: normalizePathPrefix_rooted)

lemma normalizePathPrefix_idem:
  "p = '''' \<or> rooted p \<Longrightarrow> normalizePathPrefix (normalizePathPrefix p) = normalizePathPrefix p"
  by (auto simp: normalizePathPrefix_rooted)

lemma validateControlPath_rooted:
  "rooted p \<Longrightarrow>
   validateControlPath p = (if Clean p = ''/'' then Inl ControlPathIsRoot else Inr (Clean p))"
  by (auto simp: validateControlPath_def Let_def TrimSuffix_clean_abs)

lemma validateControlPath_Nil [simp]: "validateControlPath '''' = Inr ''/tunnel''"
  by (simp add: validateControlPath_def defaultControlPath_def)

lemma validateControlPath_eq:
  "validateControlPath p = (if control_path p = ''/'' then Inl ControlPathIsRoot else Inr (control_path p))"
proof (cases "rooted p")
  case True
  then show ?thesis by (auto simp: validateControlPath_rooted control_path_def)
next
  case False
  then obtain u c where last: "Clean p = u @ [c]" "c \<noteq> CHR ''/''"
    using Clean_relative_last by blast
  then have "\<not> HasSuffix (CHR ''/'' # Clean p) ''/''"
    by (auto simp: go_string suffix_def)
  moreover have "\<not> rooted (Clean p)"
    using False by simp
  ultimately show ?thesis
    using False last by (simp add: validateControlPath_def control_path_def defaultControlPath_def TrimSuffix_def Let_def)
qed

lemma clean_abs_tunnel: "clean_abs ''/tunnel''"
  by (simp add: clean_abs_def Clean_def clean_elems_def clean_step_def)

lemma validateControlPath_clean_abs:
  assumes "validateControlPath p = Inr cp" "p = '''' \<or> rooted p"
  shows "clean_abs cp \<and> cp \<noteq> ''/''"
  using assms
  by (auto simp: validateControlPath_rooted clean_abs_tunnel split: if_splits)

lemma validateControlPath_fixpoint:
  "clean_abs cp \<Longrightarrow> cp \<noteq> ''/'' \<Longrightarrow> validateControlPath cp = Inr cp"
  by (simp add: validateControlPath_rooted clean_absD)

section \<open>Soundness and completeness of the checks\<close>

lemma validateControlPathNotConflicting_iff:
  "validateControlPathNotConflicting cp cbs = Inr () \<longleftrightarrow> list_all (control_disjoint cp) cbs"
  by (induction cbs) (auto simp: control_disjoint_def Let_def under_path_def)

lemma validate_tunnel_iff: "validate_tunnel pm t = Inr () \<longleftrightarrow> tunnel_ok pm t"
  by (auto simp: validate_tunnel_def tunnel_ok_def poll_mode_def Let_def)

lemma validate_bindings_iff:
  "validate_bindings ids toks routes cbs = Inr () \<longleftrightarrow>
     list_all binding_ok cbs
     \<and> distinct (map cb_ClientID cbs) \<and> set (map cb_ClientID cbs) \<inter> set ids = {}
     \<and> distinct (map cb_Token cbs) \<and> set (map cb_Token cbs) \<inter> fst ` set toks = {}
     \<and> distinct (map routeKey cbs) \<and> set (map routeKey cbs) \<inter> set routes = {}"
proof (induction cbs arbitrary: ids toks routes)
  case (Cons cb cbs)
  have tok: "map_of toks (cb_Token cb) = None \<longleftrightarrow> cb_Token cb \<notin> fst ` set toks"
    by (rule map_of_eq_None_iff)
  have len: "length (cb_Token cb) < 32 \<or> cb_Token cb \<noteq> ''''" by auto
  show ?case
    using tok len by (auto simp: Cons.IH binding_ok_def split: option.splits)
qed simp

lemma conflicting_pair_nth:
  "conflicting_pair es (i, j) \<longleftrightarrow>
     i \<noteq> j \<and> snd (es ! i) \<noteq> snd (es ! j)
     \<and> (under_path (fst (es ! i)) (fst (es ! j)) \<or> under_path (fst (es ! j)) (fst (es ! i)))"
  by (auto simp: conflicting_pair_def under_path_def Let_def split: prod.splits)

lemma no_conflicting_pair:
  "find (conflicting_pair es) (List.product [0..<length es] [0..<length es]) = None \<longleftrightarrow>
   (\<forall>e\<in>set es. \<forall>e'\<in>set es. snd e \<noteq> snd e' \<longrightarrow> \<not> under_path (fst e) (fst e'))"
  (is "?L \<longleftrightarrow> ?R")
proof -
  have "?L \<longleftrightarrow> (\<forall>i<length es. \<forall>j<length es. \<not> conflicting_pair es (i, j))"
    by (auto simp: find_None_iff)
  also have "\<dots> \<longleftrightarrow> ?R"
    unfolding conflicting_pair_nth by (simp add: all_set_conv_all_nth) metis
  finally show ?thesis .
qed

lemma first_conflict_iff:
  "first_conflict cbs hosts = Inr () \<longleftrightarrow>
   (\<forall>h\<in>set hosts. \<forall>e\<in>set (prefix_entries h cbs). \<forall>e'\<in>set (prefix_entries h cbs).
      snd e \<noteq> snd e' \<longrightarrow> \<not> under_path (fst e) (fst e'))"
proof (induction hosts)
  case (Cons h hosts)
  then show ?case
    using no_conflicting_pair [of "prefix_entries h cbs"]
    by (auto simp: Let_def split: option.splits)
qed simp

lemma validatePathPrefixConflicts_iff:
  "validatePathPrefixConflicts cbs = Inr () \<longleftrightarrow> prefixes_disjoint cbs"
  unfolding validatePathPrefixConflicts_def first_conflict_iff prefixes_disjoint_def
    prefix_entries_def
  by (auto simp: image_iff)

lemma validate_unit_iff:
  "bind_result (r :: config_error + unit) (\<lambda>_. Inr x) = Inr y \<longleftrightarrow> r = Inr () \<and> x = y"
  by (simp add: bind_result_def split: sum.splits)

lemma ValidateServer_Inr:
  "ValidateServer pm cfg = Inr cfg' \<longleftrightarrow>
   server_ok pm cfg \<and> cfg' = cfg\<lparr>sc_ControlPath := control_path (sc_ControlPath cfg)\<rparr>"
  by (auto simp: ValidateServer_def server_ok_def bind_result_Inr bindings_ok_def validateControlPath_eq
      validateControlPathNotConflicting_iff validate_tunnel_iff validate_bindings_iff
      validatePathPrefixConflicts_iff split: if_splits)

section \<open>Loaders\<close>

definition client_ok :: "pollmux_consts \<Rightarrow> ClientConfig \<Rightarrow> bool" where
  "client_ok pm cfg \<longleftrightarrow>
     cc_ClientID cfg \<noteq> '''' \<and> sr_URL (cc_Server cfg) \<noteq> ''''
     \<and> 32 \<le> length (sr_Token (cc_Server cfg)) \<and> lc_Target (cc_Local cfg) \<noteq> ''''
     \<and> (hc_Enabled (cc_Health cfg) \<longrightarrow> hc_Mode (cc_Health cfg) \<in> {''tcp'', ''http''})
     \<and> 0 < tr_MaxReplayBytes (cc_Transport cfg)
     \<and> tr_UploadStreamPreference (cc_Transport cfg) \<in> {'''', PollModeBatch pm, PollModeStream pm}"

lemma ValidateClient_iff: "ValidateClient pm cfg = Inr () \<longleftrightarrow> client_ok pm cfg"
  by (auto simp: ValidateClient_def client_ok_def Let_def)

lemma readTokenFile_Inr:
  "readTokenFile rf p = Inr tok \<longleftrightarrow> (\<exists>data. rf p = Inr data \<and> tok = TrimSpace data \<and> tok \<noteq> '''')"
  by (auto simp: readTokenFile_def Let_def split: sum.splits)

lemma resolve_bindings_Inr:
  "resolve_bindings rf base cbs = Inr cbs' \<Longrightarrow>
   list_all2 (\<lambda>cb cb'. \<exists>data. rf (token_path base (cb_TokenFile cb)) = Inr data
      \<and> cb' = cb\<lparr>cb_Token := TrimSpace data\<rparr> \<and> 32 \<le> length (cb_Token cb')) cbs cbs'"
  by (induction cbs arbitrary: cbs')
     (auto simp: bind_result_Inr readTokenFile_Inr split: if_splits sum.splits)

lemma resolve_bindings_from:
  assumes "resolve_bindings rf base (sc_Clients (applyServerDefaults pm cfg)) = Inr cbs'"
    and "cb \<in> set cbs'"
  shows "cb_MaxClients cb \<noteq> 0
    \<and> (\<exists>data. rf (token_path base (cb_TokenFile cb)) = Inr data \<and> cb_Token cb = TrimSpace data)"
proof -
  have max: "cb_MaxClients c \<noteq> 0" if "c \<in> set (sc_Clients (applyServerDefaults pm cfg))" for c
    using that by (auto simp: applyServerDefaults_def Let_def or_default_def split: if_splits)
  obtain c data where "c \<in> set (sc_Clients (applyServerDefaults pm cfg))"
    and "rf (token_path base (cb_TokenFile c)) = Inr data" "cb = c\<lparr>cb_Token := TrimSpace data\<rparr>"
    using resolve_bindings_Inr [OF assms(1)] assms(2)
    unfolding list_all2_conv_all_nth in_set_conv_nth by metis
  with max show ?thesis by auto
qed

lemma service_config_ClientID [simp]: "cc_ClientID (service_config pm multi svc) = se_ClientID svc"
  by (simp add: service_config_def applyClientDefaults_def Let_def)

lemma load_services_iff:
  "load_services pm multi seen svcs = Inr cfgs \<longleftrightarrow>
     cfgs = map (service_config pm multi) svcs
     \<and> list_all (client_ok pm) cfgs
     \<and> distinct (map se_ClientID svcs) \<and> set (map se_ClientID svcs) \<inter> set seen = {}"
proof (induction svcs arbitrary: seen cfgs)
  case (Cons svc svcs)
  have id: "client_ok pm (service_config pm multi svc) \<Longrightarrow> se_ClientID svc \<noteq> ''''"
    by (simp add: client_ok_def)
  show ?case
    using ValidateClient_iff [of pm "service_config pm multi svc"] id
    by (cases "ValidateClient pm (service_config pm multi svc)")
       (auto simp: Cons.IH bind_result_Inr)
qed auto

lemma client_defaults_nonzero:
  "hc_Interval (cc_Health (applyClientDefaults pm cfg)) \<noteq> 0"
  "hc_Timeout (cc_Health (applyClientDefaults pm cfg)) \<noteq> 0"
  "tr_SendTimeout (cc_Transport (applyClientDefaults pm cfg)) \<noteq> 0"
  "tr_DialTimeout (cc_Transport (applyClientDefaults pm cfg)) \<noteq> 0"
  "tr_MaxSendChunk (cc_Transport (applyClientDefaults pm cfg)) \<noteq> 0"
  by (simp_all add: applyClientDefaults_def DefaultClient_def or_default_def Let_def)

lemma service_nonzero:
  "hc_Interval (cc_Health (service_config pm multi svc)) \<noteq> 0"
  "hc_Timeout (cc_Health (service_config pm multi svc)) \<noteq> 0"
  "tr_SendTimeout (cc_Transport (service_config pm multi svc)) \<noteq> 0"
  "tr_DialTimeout (cc_Transport (service_config pm multi svc)) \<noteq> 0"
  "tr_MaxSendChunk (cc_Transport (service_config pm multi svc)) \<noteq> 0"
  unfolding service_config_def by (rule client_defaults_nonzero)+

lemma resolveClientAuthToken_frame:
  assumes "resolveClientAuthToken rf cfg path = Inr cfg'"
  shows "cc_Health cfg' = cc_Health cfg \<and> cc_Transport cfg' = cc_Transport cfg"
  using assms by (auto simp: resolveClientAuthToken_def Let_def bind_result_Inr split: if_splits)

lemma resolve_services_nonempty: "resolve_services rf base svcs = Inr svcs' \<Longrightarrow> svcs \<noteq> [] \<Longrightarrow> svcs' \<noteq> []"
  by (cases svcs) (auto simp: bind_result_Inr split: if_splits sum.splits)

lemma loadSingleClient_Inr:
  assumes "loadSingleClient pm vp rf v path = Inr cfgs"
  shows "\<exists>cfg cfg'. cfgs = [cfg] \<and> resolveClientAuthToken rf (applyClientDefaults pm cfg') path = Inr cfg \<and>
    client_ok pm cfg"
  using assms unfolding loadSingleClient_def bind_result_Inr by (auto simp: ValidateClient_iff)

lemma loadMultiClient_Inr:
  assumes "loadMultiClient pm vp rf v path = Inr cfgs"
  shows "\<exists>multi svcs. svcs \<noteq> [] \<and> load_services pm multi [] svcs = Inr cfgs"
  using assms resolve_services_nonempty unfolding loadMultiClient_def bind_result_Inr resolveServiceTokens_def
  by (auto simp: check_def split: if_splits) blast

lemma LoadClient_cases:
  assumes "LoadClient pm vp rf path = Inr cfgs"
  shows "(\<exists>cfg cfg'. cfgs = [cfg] \<and> resolveClientAuthToken rf (applyClientDefaults pm cfg') path = Inr cfg \<and>
            client_ok pm cfg) \<or>
         (\<exists>multi svcs. svcs \<noteq> [] \<and> load_services pm multi [] svcs = Inr cfgs)"
proof -
  have "(\<exists>v. loadSingleClient pm vp rf v path = Inr cfgs) \<or> (\<exists>v. loadMultiClient pm vp rf v path = Inr cfgs)"
    using assms by (auto simp: LoadClient_def Let_def split: option.splits if_splits)
  then show ?thesis
    using loadSingleClient_Inr loadMultiClient_Inr by (elim disjE exE) simp_all
qed

text \<open>
  C13: \<^verbatim>\<open>ValidateServer\<close> accepts exactly the configurations that satisfy the contract \<open>server_ok\<close>: a nonempty
  root domain; a control path (the default \<^verbatim>\<open>/tunnel\<close> where none is given, otherwise the cleaned path with a
  leading slash) that is not \<^verbatim>\<open>/\<close>, and that neither equals a nonempty client prefix, nor is such a prefix followed by
  a slash and more, nor the other way round; the bounds on timeouts, poll mode and resumption; at least one
  binding; pairwise distinct client IDs, tokens and routes; tokens of at least 32 bytes; prefixes that are empty
  or start with a slash; and no nonempty prefix of one client of a subdomain equal to, or a slash and more
  longer than, that of another. A client prefix \<^verbatim>\<open>/\<close> passes these tests beside any other prefix or control path,
  because no clean path starts with two slashes. The only effect of an accepted validation is to replace the
  control path by that normal form.
\<close>

theorem ValidateServer_contract:
  "ValidateServer pm cfg = Inr cfg' \<longleftrightarrow>
   server_ok pm cfg \<and> cfg' = cfg\<lparr>sc_ControlPath := control_path (sc_ControlPath cfg)\<rparr>"
  by (rule ValidateServer_Inr)

text \<open>
  C39: where the doubled intervals are representable in 64 bits, an accepted configuration has a session
  timeout of at least twice the poll timeout, so that a client that polls once per poll timeout is not
  swept, and in stream mode a stream duration of at least two heartbeats.
\<close>

theorem session_timeout_bound:
  assumes "ValidateServer pm cfg = Inr cfg'"
    and "in_int64 (2 * tun_PollTimeout (sc_Tunnel cfg))" "in_int64 (2 * tun_HeartbeatInterval (sc_Tunnel cfg))"
  shows "2 * tun_PollTimeout (sc_Tunnel cfg') \<le> tun_SessionTimeout (sc_Tunnel cfg') \<and>
    (tun_PollMode (sc_Tunnel cfg') = PollModeStream pm \<and> PollModeStream pm \<noteq> '''' \<longrightarrow>
       2 * tun_HeartbeatInterval (sc_Tunnel cfg') \<le> tun_StreamMaxDuration (sc_Tunnel cfg'))"
  using assms by (auto simp: ValidateServer_Inr server_ok_def tunnel_ok_def poll_mode_def)

text \<open>Without the bound on the doubled timeout the comparison is made with a wrapped value.\<close>

lemma session_timeout_overflow:
  "validate_tunnel example_consts ((sc_Tunnel (Defaults example_consts))\<lparr>tun_PollTimeout := 2 ^ 62\<rparr>) = Inr ()"
  by (simp add: validate_tunnel_iff tunnel_ok_def poll_mode_def Defaults_def example_consts_def wrap64_def)

text \<open>
  A second validation changes nothing if the normalised control path is clean. It is not clean for a
  relative path that climbs: the first validation puts a slash before it and the second one rejects it.
\<close>

lemma ValidateServer_again:
  assumes "ValidateServer pm cfg = Inr cfg'" "clean_abs (sc_ControlPath cfg')" "sc_ControlPath cfg' \<noteq> ''/''"
  shows "ValidateServer pm cfg' = Inr cfg'"
proof -
  have "sc_ControlPath cfg' \<noteq> ''''"
    using clean_absD(2) [OF assms(2)] by auto
  then have "control_path (sc_ControlPath cfg') = sc_ControlPath cfg'"
    using clean_absD [OF assms(2)] by (simp add: control_path_def)
  with assms(1,3) show ?thesis
    by (auto simp: ValidateServer_Inr server_ok_def)
qed

lemma control_path_climbs:
  "validateControlPath ''..'' = Inr ''/..'' \<and> validateControlPath ''/..'' = Inl ControlPathIsRoot"
  by (simp add: validateControlPath_def Clean_def clean_elems_def clean_step_def rooted_def TrimSuffix_def
      HasSuffix_def HasPrefix_def Let_def del: rooted_HasPrefix)

lemma LoadClient_contract:
  assumes "LoadClient pm vp rf path = Inr cfgs"
  shows "cfgs \<noteq> [] \<and> list_all (client_ok pm) cfgs \<and> distinct (map cc_ClientID cfgs) \<and>
    list_all (\<lambda>cfg. hc_Interval (cc_Health cfg) \<noteq> 0 \<and> hc_Timeout (cc_Health cfg) \<noteq> 0 \<and>
      tr_SendTimeout (cc_Transport cfg) \<noteq> 0 \<and> tr_DialTimeout (cc_Transport cfg) \<noteq> 0 \<and>
      tr_MaxSendChunk (cc_Transport cfg) \<noteq> 0) cfgs"
  using LoadClient_cases [OF assms]
proof (elim disjE exE conjE)
  fix cfg cfg' assume "cfgs = [cfg]" "resolveClientAuthToken rf (applyClientDefaults pm cfg') path = Inr cfg" "client_ok pm cfg"
  then show ?thesis
    using resolveClientAuthToken_frame client_defaults_nonzero [of pm cfg'] by fastforce
next
  fix multi svcs assume "svcs \<noteq> []" "load_services pm multi [] svcs = Inr cfgs"
  then show ?thesis
    by (auto simp: load_services_iff o_def list_all_iff service_nonzero)
qed

text \<open>
  C26: what \<^verbatim>\<open>LoadClient\<close> returns, in the single-service and the multi-service format: at least one
  configuration, so that indexing the first one is safe; each satisfies the contract \<open>client_ok\<close> (client
  id, server URL and local target present, a token of at least 32 bytes, a known health mode, replay buffer
  and upload preference in range) and no interval, timeout or size that has a default is zero; and the
  client ids are pairwise distinct.
\<close>

theorem LoadClient_sound:
  assumes "LoadClient pm vp rf path = Inr cfgs"
  shows "cfgs \<noteq> [] \<and> list_all (client_ok pm) cfgs \<and> distinct (map cc_ClientID cfgs) \<and>
    list_all (\<lambda>cfg. hc_Interval (cc_Health cfg) \<noteq> 0 \<and> hc_Timeout (cc_Health cfg) \<noteq> 0 \<and>
      tr_SendTimeout (cc_Transport cfg) \<noteq> 0 \<and> tr_DialTimeout (cc_Transport cfg) \<noteq> 0 \<and>
      tr_MaxSendChunk (cc_Transport cfg) \<noteq> 0) cfgs"
  using assms by (rule LoadClient_contract)

text \<open>
  C25: a configuration that \<^verbatim>\<open>LoadServer\<close> returns satisfies every clause of the contract
  that speaks of bindings and timeouts, each binding's token is the trimmed content of its token
  file (resolved against the directory of the configuration file) and at least one client per
  binding is admitted unless the file sets a negative number.
\<close>

theorem LoadServer_sound:
  assumes "LoadServer pm vp rf path = Inr cfg"
  shows "tunnel_ok pm (sc_Tunnel cfg) \<and> sc_Clients cfg \<noteq> [] \<and> bindings_ok (sc_Clients cfg)
    \<and> prefixes_disjoint (sc_Clients cfg)
    \<and> list_all (control_disjoint (sc_ControlPath cfg)) (sc_Clients cfg)
    \<and> list_all (\<lambda>cb. cb_MaxClients cb \<noteq> 0 \<and>
        (\<exists>data. rf (token_path (Dir path) (cb_TokenFile cb)) = Inr data
                \<and> cb_Token cb = TrimSpace data)) (sc_Clients cfg)"
proof -
  obtain base cbs' where
    res: "resolve_bindings rf (Dir path) (sc_Clients (applyServerDefaults pm base)) = Inr cbs'"
    and val: "ValidateServer pm ((applyServerDefaults pm base)\<lparr>sc_Clients := cbs'\<rparr>) = Inr cfg"
    using assms
    by (auto simp: LoadServer_def Let_def bind_result_Inr resolveClientBindingTokens_def
        split: option.splits)
  have cl: "sc_Clients cfg = cbs'" using val by (auto simp: ValidateServer_Inr)
  have "list_all (\<lambda>cb. cb_MaxClients cb \<noteq> 0 \<and>
        (\<exists>data. rf (token_path (Dir path) (cb_TokenFile cb)) = Inr data
                \<and> cb_Token cb = TrimSpace data)) cbs'"
    using resolve_bindings_from [OF res] by (fastforce simp: list_all_iff)
  moreover have "tunnel_ok pm (sc_Tunnel cfg) \<and> sc_Clients cfg \<noteq> [] \<and> bindings_ok (sc_Clients cfg)
    \<and> prefixes_disjoint (sc_Clients cfg)
    \<and> list_all (control_disjoint (sc_ControlPath cfg)) (sc_Clients cfg)"
    using val by (auto simp: ValidateServer_Inr server_ok_def)
  ultimately show ?thesis using cl by simp
qed

definition example_viper :: "ServiceEntry list \<Rightarrow> viper" where
  "example_viper svcs = \<lparr>
     ReadInConfig = (\<lambda>_. None),
     IsSet = (\<lambda>_ k. svcs \<noteq> []),
     UnmarshalServer = (\<lambda>_ base. Inr (base\<lparr>sc_RootDomain := ''ex.com'',
                                           sc_Clients := [example_binding]\<rparr>)),
     UnmarshalClient = (\<lambda>_ base. Inr base),
     UnmarshalMulti = (\<lambda>_. Inr \<lparr>
        mc_Server = (cc_Server (DefaultClient example_consts))\<lparr>sr_URL := ''https://ex.com''\<rparr>,
        mc_Transport = cc_Transport (DefaultClient example_consts),
        mc_Health = cc_Health (DefaultClient example_consts),
        mc_Logging = cc_Logging (DefaultClient example_consts),
        mc_Services = svcs\<rparr>)\<rparr>"

lemmas load_server_exec =
  LoadServer_def Let_def example_viper_def parse_result_def resolveClientBindingTokens_def
  readTokenFile_def token_path_def IsAbs_def applyServerDefaults_def or_default_def
  ValidateServer_def validateControlPathNotConflicting.simps validate_tunnel_def
  validate_bindings.simps validatePathPrefixConflicts_def prefix_entries_def
  example_binding_def example_consts_def example_token_def Defaults_def
  wrap64_def check_def TrimSpace_def is_space_def

lemma example_LoadServer:
  "\<exists>cfg. LoadServer example_consts (example_viper []) (\<lambda>_. Inr (example_token @ ''\<newline>'')) ''/etc/s.yaml'' = Inr cfg"
  by (simp add: load_server_exec validateControlPath_rooted clean_absD [OF clean_abs_tunnel])

theorem LoadServer_sound_witness:
  "\<exists>cfg. LoadServer example_consts (example_viper []) (\<lambda>_. Inr (example_token @ ''\<newline>''))
          ''/etc/s.yaml'' = Inr cfg \<and> bindings_ok (sc_Clients cfg)"
  using example_LoadServer LoadServer_sound by blast

theorem session_timeout_bound_witness:
  "\<exists>cfg. LoadServer example_consts (example_viper []) (\<lambda>_. Inr (example_token @ ''\<newline>'')) ''/etc/s.yaml'' = Inr cfg \<and>
     2 * tun_PollTimeout (sc_Tunnel cfg) \<le> tun_SessionTimeout (sc_Tunnel cfg)"
proof -
  let ?cfg = "(Defaults example_consts)\<lparr>sc_RootDomain := ''ex.com'', sc_Clients := [example_binding]\<rparr>"
  have load: "LoadServer example_consts (example_viper []) (\<lambda>_. Inr (example_token @ ''\<newline>'')) ''/etc/s.yaml'' = Inr ?cfg"
    by (simp add: load_server_exec validateControlPath_rooted clean_absD [OF clean_abs_tunnel])
  have valid: "ValidateServer example_consts ?cfg = Inr ?cfg"
    by (simp add: load_server_exec validateControlPath_rooted clean_absD [OF clean_abs_tunnel])
  have "2 * tun_PollTimeout (sc_Tunnel ?cfg) \<le> tun_SessionTimeout (sc_Tunnel ?cfg)"
    using session_timeout_bound [OF valid] by (simp add: Defaults_def example_consts_def in_int64_def)
  with load show ?thesis
    by blast
qed

definition example_service :: "string \<Rightarrow> ServiceEntry" where
  "example_service cid = \<lparr>
     se_ClientID = cid, se_TokenFile = ''t'', se_Token = '''',
     se_Local = \<lparr>lc_Target = ''127.0.0.1:8080'', lc_HostRewrite = ''''\<rparr>, se_Server = None, se_Health = None\<rparr>"

lemma example_LoadClient:
  "\<exists>cfgs. LoadClient example_consts (example_viper [example_service ''a'', example_service ''b''])
     (\<lambda>_. Inr example_token) ''/etc/c.yaml'' = Inr cfgs \<and> length cfgs = 2"
  by (simp add: LoadClient_def loadMultiClient_def resolveServiceTokens_def load_services_iff example_viper_def
      example_service_def example_token_def parse_result_def check_def readTokenFile_def token_path_def IsAbs_def
      TrimSpace_def is_space_def service_config_def service_server_def service_health_def client_ok_def
      applyClientDefaults_def or_default_def DefaultClient_def example_consts_def ValidateClient_def Let_def)

theorem LoadClient_sound_witness:
  "\<exists>cfgs. LoadClient example_consts (example_viper [example_service ''a'', example_service ''b''])
     (\<lambda>_. Inr example_token) ''/etc/c.yaml'' = Inr cfgs \<and> length cfgs = 2 \<and> list_all (client_ok example_consts) cfgs"
  using example_LoadClient LoadClient_sound by blast

end
