(* ===== verification/Registry.thy ===== *)
theory Registry
  imports Config
begin

text \<open>
  The tunnel registry: \<^verbatim>\<open>internal/registry/registry.go\<close> and \<^verbatim>\<open>pool.go\<close>. Tunnels and pools are
  shared by pointer (a tunnel is a pool member, an entry of the session index and part of the
  context of requests in flight; a pool belongs to the registry and to the routes), so both live
  in a store indexed by addresses. A session or yamux pointer is the address of an object of the
  pollmux and yamux libraries; what those objects do is given by the record \<open>transport\<close>, whose
  state has type \<open>'x\<close>. Each method holds the lock of its object, so it is one function on the
  state; the goroutines that \<^verbatim>\<open>beginSupersedeDrain\<close> starts are recorded in \<open>rs_drains\<close> and their
  loop is \<open>drain_loop\<close>.
  The maps are association lists, so \<^verbatim>\<open>Subdomains\<close> and \<^verbatim>\<open>Snapshot\<close> list them in one of the orders in which Go may
  iterate; no result depends on it.
\<close>

section \<open>The transport libraries\<close>

type_synonym session_ptr = nat
type_synonym yamux_ptr = nat
type_synonym tunnel_ptr = nat
type_synonym pool_ptr = nat

record 'x transport =
  yamux_IsClosed :: "'x \<Rightarrow> yamux_ptr \<Rightarrow> bool"
  yamux_Close :: "'x \<Rightarrow> yamux_ptr \<Rightarrow> 'x \<times> string option"
  yamux_Open :: "'x \<Rightarrow> yamux_ptr \<Rightarrow> 'x \<times> (string + nat)"
  session_IsClosed :: "'x \<Rightarrow> session_ptr \<Rightarrow> bool"
  session_Close :: "'x \<Rightarrow> session_ptr \<Rightarrow> 'x \<times> string option"
  session_ID :: "session_ptr \<Rightarrow> string"
  session_Meta :: "session_ptr \<Rightarrow> string \<rightharpoonup> string"
  session_LastActive :: "'x \<Rightarrow> session_ptr \<Rightarrow> int"
  session_PollInFlight :: "'x \<Rightarrow> session_ptr \<Rightarrow> int"
  session_HiWater :: "'x \<Rightarrow> session_ptr \<Rightarrow> int \<times> int"
  session_Resumable :: "'x \<Rightarrow> session_ptr \<Rightarrow> bool"
  session_ResumeDeadline :: "'x \<Rightarrow> session_ptr \<Rightarrow> int option"
  ClientSession :: "'x \<Rightarrow> session_ptr \<Rightarrow> 'x \<times> (string + yamux_ptr)"

section \<open>Tunnels, pools and the registry\<close>

record ClientTunnel =
  ct_ID :: string
  ct_Subdomain :: string
  ct_Session :: "session_ptr option"
  ct_Yamux :: "yamux_ptr option"
  ct_ConnectedAt :: int
  ct_RemoteAddr :: string
  ct_LocalHealthy :: bool
  ct_Draining :: bool
  ct_Closed :: bool
  ct_ActiveStreams :: int

datatype balancer_impl = FirstAvailable

record TunnelPool =
  tp_members :: "tunnel_ptr list"
  tp_bal :: "balancer_impl option"

datatype registry_error = ErrPoolFull

record 'x reg_state =
  rs_tunnels :: "tunnel_ptr \<Rightarrow> ClientTunnel"
  rs_pools :: "pool_ptr \<Rightarrow> TunnelPool"
  rs_nextPool :: pool_ptr
  rs_byName :: "(string \<times> pool_ptr) list"
  rs_bySess :: "(string \<times> tunnel_ptr) list"
  rs_supersedeDrainTimeout :: duration
  rs_drains :: "(tunnel_ptr \<times> duration) list"
  rs_ext :: 'x

definition defaultSupersedeDrainTimeout :: duration where
  "defaultSupersedeDrainTimeout = 10 * minute"

text \<open>Field updates of one tunnel and of one pool in the store.\<close>

definition upd_tunnel :: "tunnel_ptr \<Rightarrow> (ClientTunnel \<Rightarrow> ClientTunnel) \<Rightarrow> 'x reg_state \<Rightarrow> 'x reg_state" where
  "upd_tunnel t f st = st\<lparr>rs_tunnels := (rs_tunnels st)(t := f (rs_tunnels st t))\<rparr>"

definition set_members :: "pool_ptr \<Rightarrow> tunnel_ptr list \<Rightarrow> 'x reg_state \<Rightarrow> 'x reg_state" where
  "set_members p ms st = st\<lparr>rs_pools := (rs_pools st)(p := (rs_pools st p)\<lparr>tp_members := ms\<rparr>)\<rparr>"

abbreviation members :: "'x reg_state \<Rightarrow> pool_ptr \<Rightarrow> tunnel_ptr list" where
  "members st p \<equiv> tp_members (rs_pools st p)"

abbreviation tunnel_ID :: "'x reg_state \<Rightarrow> tunnel_ptr \<Rightarrow> string" where
  "tunnel_ID st t \<equiv> ct_ID (rs_tunnels st t)"

section \<open>ClientTunnel\<close>

definition Alive :: "'x transport \<Rightarrow> 'x reg_state \<Rightarrow> tunnel_ptr \<Rightarrow> bool" where
  "Alive A st t =
     (case ct_Yamux (rs_tunnels st t) of
        None \<Rightarrow> False
      | Some y \<Rightarrow>
          if yamux_IsClosed A (rs_ext st) y then False
          else (case ct_Session (rs_tunnels st t) of
                  None \<Rightarrow> False
                | Some s \<Rightarrow> \<not> session_IsClosed A (rs_ext st) s))"

definition Close_tunnel ::
  "'x transport \<Rightarrow> tunnel_ptr \<Rightarrow> 'x reg_state \<Rightarrow> 'x reg_state \<times> string option" where
  "Close_tunnel A t st =
     (let st = upd_tunnel t (\<lambda>c. c\<lparr>ct_Closed := True\<rparr>) st;
          (x, err) = (case ct_Yamux (rs_tunnels st t) of
                        None \<Rightarrow> (rs_ext st, None)
                      | Some y \<Rightarrow> yamux_Close A (rs_ext st) y);
          x = (case ct_Session (rs_tunnels st t) of
                 None \<Rightarrow> x
               | Some s \<Rightarrow> fst (session_Close A x s))
      in (st\<lparr>rs_ext := x\<rparr>, err))"

section \<open>pool.go\<close>

definition available :: "'x transport \<Rightarrow> 'x reg_state \<Rightarrow> tunnel_ptr \<Rightarrow> bool" where
  "available A st m \<longleftrightarrow>
     Alive A st m \<and> ct_LocalHealthy (rs_tunnels st m) \<and> \<not> ct_Draining (rs_tunnels st m)"

fun firstAvailable_Pick ::
  "'x transport \<Rightarrow> 'x reg_state \<Rightarrow> tunnel_ptr list \<Rightarrow> tunnel_ptr option" where
  "firstAvailable_Pick A st [] = None"
| "firstAvailable_Pick A st (m # ms) =
     (if available A st m then Some m else firstAvailable_Pick A st ms)"

definition beginSupersedeDrain :: "tunnel_ptr \<Rightarrow> duration \<Rightarrow> 'x reg_state \<Rightarrow> 'x reg_state" where
  "beginSupersedeDrain old drainTimeout st =
     (let drainTimeout =
            (if drainTimeout \<le> 0 then defaultSupersedeDrainTimeout else drainTimeout);
          st = upd_tunnel old (\<lambda>c. c\<lparr>ct_Draining := True\<rparr>) st
      in st\<lparr>rs_drains := rs_drains st @ [(old, drainTimeout)]\<rparr>)"

text \<open>
  The goroutine of \<^verbatim>\<open>beginSupersedeDrain\<close>. The environment gives, for the \<open>k\<close>-th iteration, the number of
  active streams that is loaded and the time \<open>late k\<close> that the iteration takes beyond its sleep of 100 ms; \<open>now\<close> is
  the time that the loop condition reads. \<open>drain_loop\<close> returns the number of the iteration in which the loop is
  left and the time then, and \<^const>\<open>None\<close> if the fuel does not suffice.
\<close>

fun drain_loop ::
  "(nat \<Rightarrow> duration) \<Rightarrow> (nat \<Rightarrow> int) \<Rightarrow> int \<Rightarrow> int \<Rightarrow> nat \<Rightarrow> nat \<Rightarrow> (nat \<times> int) option" where
  "drain_loop late streams deadline now k 0 = None"
| "drain_loop late streams deadline now k (Suc fuel) =
     (if now < deadline then
        (if streams k = 0 then Some (k, now)
         else drain_loop late streams deadline (now + 100 * millisecond + late k) (Suc k) fuel)
      else Some (k, now))"

text \<open>\<open>start\<close> is the time at which the deadline is computed, \<open>now\<close> that of the first loop condition.\<close>

definition drain_goroutine ::
  "'x transport \<Rightarrow> tunnel_ptr \<Rightarrow> int \<Rightarrow> duration \<Rightarrow> int \<Rightarrow> (nat \<Rightarrow> duration) \<Rightarrow> (nat \<Rightarrow> int) \<Rightarrow> nat
     \<Rightarrow> 'x reg_state \<Rightarrow> 'x reg_state option" where
  "drain_goroutine A old start drainTimeout now late streams fuel st =
     (let deadline = start + drainTimeout
      in case drain_loop late streams deadline now 0 fuel of
           None \<Rightarrow> None
         | Some _ \<Rightarrow> Some (fst (Close_tunnel A old st)))"

text \<open>The loop of \<^verbatim>\<open>Add\<close>: the replaced member and the new list, if an ID matches.\<close>

fun replace_member ::
  "(tunnel_ptr \<Rightarrow> string) \<Rightarrow> tunnel_ptr \<Rightarrow> tunnel_ptr list \<Rightarrow> (tunnel_ptr \<times> tunnel_ptr list) option"
where
  "replace_member tid t [] = None"
| "replace_member tid t (m # ms) =
     (if tid m = tid t then Some (m, t # ms)
      else case replace_member tid t ms of
             None \<Rightarrow> None
           | Some (old, ms') \<Rightarrow> Some (old, m # ms'))"

definition Pool_Add ::
  "pool_ptr \<Rightarrow> tunnel_ptr \<Rightarrow> int \<Rightarrow> duration \<Rightarrow> 'x reg_state \<Rightarrow> registry_error option \<times> 'x reg_state"
where
  "Pool_Add p t mx drainTimeout st =
     (case replace_member (tunnel_ID st) t (members st p) of
        Some (old, ms) \<Rightarrow> (None, beginSupersedeDrain old drainTimeout (set_members p ms st))
      | None \<Rightarrow>
          if int (length (members st p)) \<ge> mx then (Some ErrPoolFull, st)
          else (None, set_members p (members st p @ [t]) st))"

fun remove_id :: "(tunnel_ptr \<Rightarrow> string) \<Rightarrow> string \<Rightarrow> tunnel_ptr list \<Rightarrow> tunnel_ptr list" where
  "remove_id tid i [] = []"
| "remove_id tid i (m # ms) = (if tid m = i then ms else m # remove_id tid i ms)"

definition Pool_Remove :: "pool_ptr \<Rightarrow> string \<Rightarrow> 'x reg_state \<Rightarrow> 'x reg_state" where
  "Pool_Remove p i st = set_members p (remove_id (tunnel_ID st) i (members st p)) st"

definition Pool_Pick ::
  "'x transport \<Rightarrow> pool_ptr \<Rightarrow> 'x reg_state \<Rightarrow> tunnel_ptr option \<times> 'x reg_state" where
  "Pool_Pick A p st =
     (let st = (if tp_bal (rs_pools st p) = None
                then st\<lparr>rs_pools := (rs_pools st)
                          (p := (rs_pools st p)\<lparr>tp_bal := Some FirstAvailable\<rparr>)\<rparr>
                else st)
      in (firstAvailable_Pick A st (members st p), st))"

definition Pool_ByID :: "'x reg_state \<Rightarrow> pool_ptr \<Rightarrow> string \<Rightarrow> tunnel_ptr option" where
  "Pool_ByID st p i = find (\<lambda>m. tunnel_ID st m = i) (members st p)"

definition Pool_Len :: "'x reg_state \<Rightarrow> pool_ptr \<Rightarrow> int" where
  "Pool_Len st p = int (length (members st p))"

definition Pool_Members :: "'x reg_state \<Rightarrow> pool_ptr \<Rightarrow> tunnel_ptr list" where
  "Pool_Members st p = members st p"

definition Pool_CountAlive :: "'x transport \<Rightarrow> 'x reg_state \<Rightarrow> pool_ptr \<Rightarrow> int" where
  "Pool_CountAlive A st p = fold (\<lambda>m n. if Alive A st m then n + 1 else n) (members st p) 0"

section \<open>registry.go\<close>

definition NewRegistry ::
  "duration \<Rightarrow> (tunnel_ptr \<Rightarrow> ClientTunnel) \<Rightarrow> 'x \<Rightarrow> 'x reg_state" where
  "NewRegistry supersedeDrainTimeout heap x = \<lparr>
     rs_tunnels = heap,
     rs_pools = (\<lambda>_. \<lparr>tp_members = [], tp_bal = None\<rparr>),
     rs_nextPool = 0,
     rs_byName = [],
     rs_bySess = [],
     rs_supersedeDrainTimeout =
       (if supersedeDrainTimeout \<le> 0 then defaultSupersedeDrainTimeout else supersedeDrainTimeout),
     rs_drains = [],
     rs_ext = x\<rparr>"

definition new_pool :: "string \<Rightarrow> 'x reg_state \<Rightarrow> pool_ptr \<times> 'x reg_state" where
  "new_pool sub st =
     (let p = rs_nextPool st
      in (p, st\<lparr>rs_pools := (rs_pools st)(p := \<lparr>tp_members = [], tp_bal = Some FirstAvailable\<rparr>),
              rs_nextPool := Suc p,
              rs_byName := AList.update sub p (rs_byName st)\<rparr>))"

definition EnsurePool :: "string \<Rightarrow> 'x reg_state \<Rightarrow> pool_ptr \<times> 'x reg_state" where
  "EnsurePool sub st =
     (case map_of (rs_byName st) sub of
        Some p \<Rightarrow> (p, st)
      | None \<Rightarrow> new_pool sub st)"

definition drop_session :: "'x transport \<Rightarrow> tunnel_ptr option \<Rightarrow> 'x reg_state \<Rightarrow> 'x reg_state" where
  "drop_session A old st =
     (case old of
        None \<Rightarrow> st
      | Some o' \<Rightarrow>
          (case ct_Session (rs_tunnels st o') of
             None \<Rightarrow> st
           | Some s \<Rightarrow> st\<lparr>rs_bySess := AList.delete (session_ID A s) (rs_bySess st)\<rparr>))"

definition register_in ::
  "'x transport \<Rightarrow> pool_ptr \<Rightarrow> tunnel_ptr \<Rightarrow> int \<Rightarrow> 'x reg_state
     \<Rightarrow> registry_error option \<times> 'x reg_state" where
  "register_in A pool t maxPerSubdomain st =
     (let st = drop_session A (Pool_ByID st pool (tunnel_ID st t)) st;
          (err, st) = Pool_Add pool t maxPerSubdomain (rs_supersedeDrainTimeout st) st
      in if err \<noteq> None then (err, st)
         else let st = upd_tunnel t (\<lambda>c. c\<lparr>ct_LocalHealthy := True\<rparr>) st
              in (None,
                  case ct_Session (rs_tunnels st t) of
                    None \<Rightarrow> st
                  | Some s \<Rightarrow> st\<lparr>rs_bySess := AList.update (session_ID A s) t (rs_bySess st)\<rparr>))"

definition Register ::
  "'x transport \<Rightarrow> tunnel_ptr \<Rightarrow> int \<Rightarrow> 'x reg_state \<Rightarrow> registry_error option \<times> 'x reg_state" where
  "Register A t maxPerSubdomain st =
     (let (pool, st) = EnsurePool (ct_Subdomain (rs_tunnels st t)) st
      in register_in A pool t maxPerSubdomain st)"

definition GetBySessionID :: "'x reg_state \<Rightarrow> string \<Rightarrow> tunnel_ptr option" where
  "GetBySessionID st i = map_of (rs_bySess st) i"

definition Pool :: "'x reg_state \<Rightarrow> string \<Rightarrow> pool_ptr option" where
  "Pool st sub = map_of (rs_byName st) sub"

definition Subdomains :: "'x reg_state \<Rightarrow> string list" where
  "Subdomains st = map fst (rs_byName st)"

definition SetLocalHealth :: "string \<Rightarrow> string \<Rightarrow> bool \<Rightarrow> 'x reg_state \<Rightarrow> 'x reg_state" where
  "SetLocalHealth sub clientID ok st =
     (case map_of (rs_byName st) sub of
        None \<Rightarrow> st
      | Some p \<Rightarrow>
          (case Pool_ByID st p clientID of
             None \<Rightarrow> st
           | Some t \<Rightarrow> upd_tunnel t (\<lambda>c. c\<lparr>ct_LocalHealthy := ok\<rparr>) st))"

definition RemoveBySessionID :: "string \<Rightarrow> 'x reg_state \<Rightarrow> 'x reg_state" where
  "RemoveBySessionID sessionID st =
     (case map_of (rs_bySess st) sessionID of
        None \<Rightarrow> st
      | Some t \<Rightarrow>
          (let st = st\<lparr>rs_bySess := AList.delete sessionID (rs_bySess st)\<rparr>
           in case map_of (rs_byName st) (ct_Subdomain (rs_tunnels st t)) of
                None \<Rightarrow> st
              | Some p \<Rightarrow> Pool_Remove p (tunnel_ID st t) st))"

section \<open>Snapshot\<close>

datatype go_panic = NilDereference

record ClientStatus =
  cs_ClientID :: string
  cs_SessionID :: string
  cs_RemoteAddr :: string
  cs_ConnectedAt :: int
  cs_LastPollAt :: int
  cs_PollInFlight :: int
  cs_ActiveStreams :: int
  cs_LocalHealth :: string
  cs_BufferedToServer :: int
  cs_BufferedFromServer :: int
  cs_Resumable :: bool
  cs_ResumeDeadline :: "int option"

record TunnelStatus =
  ts_Subdomain :: string
  ts_Clients :: "ClientStatus list"

text \<open>
  The session's figures are read only where the session is not nil; its \<^verbatim>\<open>ID\<close> is read in any case,
  which panics on nil.
\<close>

definition client_status ::
  "'x transport \<Rightarrow> 'x reg_state \<Rightarrow> tunnel_ptr \<Rightarrow> go_panic + ClientStatus" where
  "client_status A st t =
     (let c = rs_tunnels st t; x = rs_ext st;
          health = (if ct_LocalHealthy c then ''ok'' else ''down'')
      in case ct_Session c of
           None \<Rightarrow> Inl NilDereference
         | Some s \<Rightarrow> Inr \<lparr>
             cs_ClientID = ct_ID c,
             cs_SessionID = session_ID A s,
             cs_RemoteAddr = ct_RemoteAddr c,
             cs_ConnectedAt = ct_ConnectedAt c,
             cs_LastPollAt = session_LastActive A x s,
             cs_PollInFlight = session_PollInFlight A x s,
             cs_ActiveStreams = ct_ActiveStreams c,
             cs_LocalHealth = health,
             cs_BufferedToServer = fst (session_HiWater A x s),
             cs_BufferedFromServer = snd (session_HiWater A x s),
             cs_Resumable = session_Resumable A x s,
             cs_ResumeDeadline = session_ResumeDeadline A x s\<rparr>)"

fun collect :: "('a \<Rightarrow> 'e + 'b) \<Rightarrow> 'a list \<Rightarrow> 'e + 'b list" where
  "collect f [] = Inr []"
| "collect f (a # as) =
     bind_result (f a) (\<lambda>b. bind_result (collect f as) (\<lambda>bs. Inr (b # bs)))"

definition Snapshot :: "'x transport \<Rightarrow> 'x reg_state \<Rightarrow> go_panic + TunnelStatus list" where
  "Snapshot A st =
     collect (\<lambda>(sub, p).
         bind_result (collect (client_status A st) (Pool_Members st p))
           (\<lambda>cs. Inr \<lparr>ts_Subdomain = sub, ts_Clients = cs\<rparr>))
       (rs_byName st)"

section \<open>Store updates\<close>

lemma upd_tunnel_simps [simp]:
  "rs_tunnels (upd_tunnel t f st) = (rs_tunnels st)(t := f (rs_tunnels st t))"
  "rs_pools (upd_tunnel t f st) = rs_pools st"
  "rs_nextPool (upd_tunnel t f st) = rs_nextPool st"
  "rs_byName (upd_tunnel t f st) = rs_byName st"
  "rs_bySess (upd_tunnel t f st) = rs_bySess st"
  "rs_supersedeDrainTimeout (upd_tunnel t f st) = rs_supersedeDrainTimeout st"
  "rs_drains (upd_tunnel t f st) = rs_drains st"
  "rs_ext (upd_tunnel t f st) = rs_ext st"
  by (simp_all add: upd_tunnel_def)

lemma set_members_simps [simp]:
  "rs_tunnels (set_members p ms st) = rs_tunnels st"
  "rs_pools (set_members p ms st) = (rs_pools st)(p := (rs_pools st p)\<lparr>tp_members := ms\<rparr>)"
  "rs_nextPool (set_members p ms st) = rs_nextPool st"
  "rs_byName (set_members p ms st) = rs_byName st"
  "rs_bySess (set_members p ms st) = rs_bySess st"
  "rs_supersedeDrainTimeout (set_members p ms st) = rs_supersedeDrainTimeout st"
  "rs_drains (set_members p ms st) = rs_drains st"
  "rs_ext (set_members p ms st) = rs_ext st"
  by (simp_all add: set_members_def)

lemma beginSupersedeDrain_simps [simp]:
  "rs_tunnels (beginSupersedeDrain o' d st) =
     (rs_tunnels st)(o' := (rs_tunnels st o')\<lparr>ct_Draining := True\<rparr>)"
  "rs_pools (beginSupersedeDrain o' d st) = rs_pools st"
  "rs_nextPool (beginSupersedeDrain o' d st) = rs_nextPool st"
  "rs_byName (beginSupersedeDrain o' d st) = rs_byName st"
  "rs_bySess (beginSupersedeDrain o' d st) = rs_bySess st"
  "rs_ext (beginSupersedeDrain o' d st) = rs_ext st"
  by (simp_all add: beginSupersedeDrain_def Let_def)

section \<open>Lists of members\<close>

lemma replace_member_None:
  "replace_member tid t ms = None \<longleftrightarrow> tid t \<notin> tid ` set ms"
  by (induction ms) (auto split: option.splits)

lemma replace_member_Some:
  assumes "replace_member tid t ms = Some (old, ms')"
  shows "\<exists>us vs. ms = us @ old # vs \<and> ms' = us @ t # vs \<and> tid old = tid t \<and> tid t \<notin> tid ` set us"
  using assms
proof (induction ms arbitrary: ms')
  case (Cons m ms)
  show ?case
  proof (cases "tid m = tid t")
    case True
    with Cons.prems have "old = m" "ms' = t # ms" by auto
    with True show ?thesis by (intro exI [of _ "[]"] exI [of _ ms]) auto
  next
    case False
    with Cons.prems obtain ms'' where
      "replace_member tid t ms = Some (old, ms'')" "ms' = m # ms''"
      by (auto split: option.splits)
    with Cons.IH obtain us vs where
      "ms = us @ old # vs" "ms'' = us @ t # vs" "tid old = tid t" "tid t \<notin> tid ` set us"
      by blast
    with False \<open>ms' = m # ms''\<close> show ?thesis by (intro exI [of _ "m # us"] exI [of _ vs]) auto
  qed
qed simp

lemma replace_member_IDs:
  "replace_member tid t ms = Some (old, ms') \<Longrightarrow> map tid ms' = map tid ms"
  by (drule replace_member_Some) auto

lemma remove_id_filter:
  "distinct (map tid ms) \<Longrightarrow> remove_id tid i ms = filter (\<lambda>m. tid m \<noteq> i) ms"
  by (induction ms) (auto simp: image_iff intro!: filter_True [symmetric])

lemma find_distinct:
  "distinct (map tid ms) \<Longrightarrow> find (\<lambda>m. tid m = i) ms = Some t \<longleftrightarrow> t \<in> set ms \<and> tid t = i"
  by (induction ms) auto

lemma find_None_ID: "find (\<lambda>m. tid m = i) ms = None \<longleftrightarrow> i \<notin> tid ` set ms"
  by (auto simp: find_None_iff)

section \<open>The balancer interface\<close>

text \<open>
  What the server relies on when it asks a pool for a tunnel, whatever the strategy: the answer
  is an available member, and there is an answer whenever a member is available.
\<close>

locale balancer =
  fixes avail :: "'t \<Rightarrow> bool"
    and pick :: "'t list \<Rightarrow> 't option"
  assumes pick_sound: "pick ms = Some t \<Longrightarrow> t \<in> set ms \<and> avail t"
    and pick_complete: "pick ms = None \<Longrightarrow> t \<in> set ms \<Longrightarrow> \<not> avail t"
begin

lemma pick_iff: "(\<exists>t. pick ms = Some t) \<longleftrightarrow> (\<exists>t\<in>set ms. avail t)"
  using pick_sound pick_complete by (cases "pick ms") auto

lemma pick_none_iff: "pick ms = None \<longleftrightarrow> (\<forall>t\<in>set ms. \<not> avail t)"
  using pick_iff [of ms] by (cases "pick ms") auto

lemma pick_empty: "pick [] = None"
  using pick_sound [of "[]"] by (cases "pick []") auto

lemma pick_unique: "t \<in> set ms \<Longrightarrow> avail t \<Longrightarrow> (\<And>u. u \<in> set ms \<Longrightarrow> avail u \<Longrightarrow> u = t) \<Longrightarrow> pick ms = Some t"
proof (cases "pick ms")
  case None
  assume "t \<in> set ms" "avail t"
  with None show ?thesis using pick_complete by blast
next
  case (Some u)
  assume "\<And>u. u \<in> set ms \<Longrightarrow> avail u \<Longrightarrow> u = t"
  with Some show ?thesis using pick_sound by blast
qed

end

lemma firstAvailable_find: "firstAvailable_Pick A st ms = find (available A st) ms"
  by (induction ms) auto

interpretation fa: balancer "available A st" "firstAvailable_Pick A st" for A st
proof unfold_locales
  fix ms t
  show "firstAvailable_Pick A st ms = Some t \<Longrightarrow> t \<in> set ms \<and> available A st t"
    by (induction ms) (auto split: if_splits)
  show "firstAvailable_Pick A st ms = None \<Longrightarrow> t \<in> set ms \<Longrightarrow> \<not> available A st t"
    by (induction ms) (auto split: if_splits)
qed

lemma Alive_iff:
  "Alive A st t \<longleftrightarrow>
   (\<exists>y s. ct_Yamux (rs_tunnels st t) = Some y \<and> ct_Session (rs_tunnels st t) = Some s
      \<and> \<not> yamux_IsClosed A (rs_ext st) y \<and> \<not> session_IsClosed A (rs_ext st) s)"
  by (auto simp: Alive_def split: option.splits)

lemma available_cong:
  "rs_tunnels st' = rs_tunnels st \<Longrightarrow> rs_ext st' = rs_ext st \<Longrightarrow> available A st' = available A st"
  by (rule ext) (simp add: available_def Alive_iff)

lemma Pool_Pick_result: "fst (Pool_Pick A p st) = firstAvailable_Pick A st (members st p)"
proof -
  have "firstAvailable_Pick A (st\<lparr>rs_pools := q\<rparr>) ms = firstAvailable_Pick A st ms" for q ms
    unfolding firstAvailable_find by (simp add: available_cong [of "st\<lparr>rs_pools := q\<rparr>" st])
  then show ?thesis by (simp add: Pool_Pick_def Let_def)
qed

section \<open>The invariant\<close>

definition named :: "'x reg_state \<Rightarrow> string \<Rightarrow> pool_ptr \<Rightarrow> bool" where
  "named st sub p \<longleftrightarrow> map_of (rs_byName st) sub = Some p"

definition member_of :: "'x reg_state \<Rightarrow> string \<Rightarrow> tunnel_ptr \<Rightarrow> bool" where
  "member_of st sub t \<longleftrightarrow> (\<exists>p. named st sub p \<and> t \<in> set (members st p))"

definition has_sid :: "'x transport \<Rightarrow> 'x reg_state \<Rightarrow> tunnel_ptr \<Rightarrow> string \<Rightarrow> bool" where
  "has_sid A st t i \<longleftrightarrow> (\<exists>s. ct_Session (rs_tunnels st t) = Some s \<and> session_ID A s = i)"

text \<open>
  Pool pointers are allocated and belong to one subdomain; a pool holds tunnels of its subdomain
  with pairwise different client IDs, none of them draining; the session index maps a session ID to
  a tunnel exactly when that tunnel is a member of a pool and has that session.
\<close>

definition reg_inv :: "'x transport \<Rightarrow> 'x reg_state \<Rightarrow> bool" where
  "reg_inv A st \<longleftrightarrow>
     distinct (map fst (rs_byName st)) \<and> distinct (map fst (rs_bySess st))
     \<and> (\<forall>sub p. named st sub p \<longrightarrow> p < rs_nextPool st)
     \<and> (\<forall>sub sub' p. named st sub p \<longrightarrow> named st sub' p \<longrightarrow> sub = sub')
     \<and> (\<forall>sub p. named st sub p \<longrightarrow> distinct (map (tunnel_ID st) (members st p)))
     \<and> (\<forall>sub t. member_of st sub t \<longrightarrow>
           ct_Subdomain (rs_tunnels st t) = sub \<and> \<not> ct_Draining (rs_tunnels st t))
     \<and> (\<forall>i t. map_of (rs_bySess st) i = Some t \<longleftrightarrow> (\<exists>sub. member_of st sub t) \<and> has_sid A st t i)"

text \<open>A tunnel that \<^verbatim>\<open>onConnect\<close> has just built, with a session ID not in use.\<close>

definition fresh_tunnel :: "'x transport \<Rightarrow> 'x reg_state \<Rightarrow> tunnel_ptr \<Rightarrow> bool" where
  "fresh_tunnel A st t \<longleftrightarrow>
     (\<forall>sub. \<not> member_of st sub t) \<and> \<not> ct_Draining (rs_tunnels st t)
     \<and> (\<forall>i. has_sid A st t i \<longrightarrow> map_of (rs_bySess st) i = None)"

lemma reg_inv_new: "reg_inv A (NewRegistry d h x)"
  by (simp add: reg_inv_def NewRegistry_def named_def member_of_def)

lemmas reg_inv_defs = reg_inv_def named_def member_of_def has_sid_def

section \<open>Every operation keeps the invariant\<close>

lemma reg_invI:
  assumes "distinct (map fst (rs_byName st))" "distinct (map fst (rs_bySess st))"
    and "\<And>sub p. named st sub p \<Longrightarrow> p < rs_nextPool st"
    and "\<And>sub sub' p. named st sub p \<Longrightarrow> named st sub' p \<Longrightarrow> sub = sub'"
    and "\<And>sub p. named st sub p \<Longrightarrow> distinct (map (tunnel_ID st) (members st p))"
    and "\<And>sub t. member_of st sub t \<Longrightarrow>
           ct_Subdomain (rs_tunnels st t) = sub \<and> \<not> ct_Draining (rs_tunnels st t)"
    and "\<And>i t. map_of (rs_bySess st) i = Some t \<longleftrightarrow>
           (\<exists>sub. member_of st sub t) \<and> has_sid A st t i"
  shows "reg_inv A st"
  using assms unfolding reg_inv_def by blast

lemma reg_inv_pool_bound: "reg_inv A st \<Longrightarrow> named st sub p \<Longrightarrow> p < rs_nextPool st"
  by (simp add: reg_inv_def)

lemma reg_inv_pool_inj: "reg_inv A st \<Longrightarrow> named st sub p \<Longrightarrow> named st sub' p \<Longrightarrow> sub = sub'"
  unfolding reg_inv_def by blast

lemma reg_inv_distinct: "reg_inv A st \<Longrightarrow> named st sub p \<Longrightarrow> distinct (map (tunnel_ID st) (members st p))"
  by (simp add: reg_inv_def)

lemma reg_inv_member:
  "reg_inv A st \<Longrightarrow> member_of st sub t \<Longrightarrow>
   ct_Subdomain (rs_tunnels st t) = sub \<and> \<not> ct_Draining (rs_tunnels st t)"
  by (simp add: reg_inv_def)

lemma reg_inv_bySess:
  "reg_inv A st \<Longrightarrow>
   map_of (rs_bySess st) i = Some t \<longleftrightarrow> (\<exists>sub. member_of st sub t) \<and> has_sid A st t i"
  by (simp add: reg_inv_def)

lemma member_ofI: "named st sub p \<Longrightarrow> t \<in> set (members st p) \<Longrightarrow> member_of st sub t"
  by (auto simp: member_of_def)

text \<open>Membership determines the subdomain; the ID determines the member.\<close>

lemma member_of_unique:
  "reg_inv A st \<Longrightarrow> member_of st sub t \<Longrightarrow> member_of st sub' t \<Longrightarrow> sub = sub'"
  using reg_inv_member by metis

lemma member_ID_unique:
  assumes "reg_inv A st" "member_of st sub t" "member_of st sub u" "tunnel_ID st t = tunnel_ID st u"
  shows "t = u"
proof -
  from assms(2,3) obtain p where "named st sub p" "t \<in> set (members st p)" "u \<in> set (members st p)"
    by (auto simp: member_of_def named_def)
  with reg_inv_distinct [OF assms(1)] assms(4) show ?thesis
    by (metis distinct_map inj_onD)
qed

lemma EnsurePool_named: "named (snd (EnsurePool sub st)) sub (fst (EnsurePool sub st))"
  by (simp add: EnsurePool_def new_pool_def named_def Let_def split: option.splits)

lemma EnsurePool_named_iff:
  "named (snd (EnsurePool sub st)) s p \<longleftrightarrow>
     (if s = sub \<and> map_of (rs_byName st) sub = None then p = rs_nextPool st else named st s p)"
  by (auto simp: EnsurePool_def new_pool_def named_def Let_def split: option.splits)

lemma EnsurePool_simps [simp]:
  "rs_tunnels (snd (EnsurePool sub st)) = rs_tunnels st"
  "rs_bySess (snd (EnsurePool sub st)) = rs_bySess st"
  "rs_ext (snd (EnsurePool sub st)) = rs_ext st"
  "rs_drains (snd (EnsurePool sub st)) = rs_drains st"
  "rs_supersedeDrainTimeout (snd (EnsurePool sub st)) = rs_supersedeDrainTimeout st"
  by (simp_all add: EnsurePool_def new_pool_def Let_def split: option.splits)

lemma EnsurePool_member_of:
  assumes "reg_inv A st"
  shows "member_of (snd (EnsurePool sub st)) = member_of st"
proof (cases "map_of (rs_byName st) sub")
  case None
  let ?st = "snd (EnsurePool sub st)"
  have m: "members ?st p = members st p" if "p < rs_nextPool st" for p
    using None that by (simp add: EnsurePool_def new_pool_def Let_def)
  have e: "members ?st (rs_nextPool st) = []"
    using None by (simp add: EnsurePool_def new_pool_def Let_def)
  have b: "named st s p \<Longrightarrow> members ?st p = members st p" for s p
    using m reg_inv_pool_bound [OF assms] by blast
  have "\<not> named st sub p" for p using None by (simp add: named_def)
  then show ?thesis
    using None e b by (auto simp: member_of_def EnsurePool_named_iff fun_eq_iff split: if_splits)
qed (simp add: EnsurePool_def)

lemma EnsurePool_inv:
  assumes "reg_inv A st"
  shows "reg_inv A (snd (EnsurePool sub st))"
proof (cases "map_of (rs_byName st) sub")
  case None
  let ?st = "snd (EnsurePool sub st)"
  have n: "named ?st s p \<longleftrightarrow> (if s = sub then p = rs_nextPool st else named st s p)" for s p
    using None by (simp add: EnsurePool_named_iff)
  have m: "members ?st p = members st p" if "p < rs_nextPool st" for p
    using None that by (simp add: EnsurePool_def new_pool_def Let_def)
  have e: "members ?st (rs_nextPool st) = []"
    using None by (simp add: EnsurePool_def new_pool_def Let_def)
  have mem: "member_of ?st s t \<longleftrightarrow> member_of st s t" for s t
    by (simp add: EnsurePool_member_of [OF assms])
  have rest: "rs_tunnels ?st = rs_tunnels st" "rs_bySess ?st = rs_bySess st"
    "rs_nextPool ?st = Suc (rs_nextPool st)" "distinct (map fst (rs_byName ?st))"
    using None assms by (simp_all add: EnsurePool_def new_pool_def Let_def reg_inv_def)
  have sid: "has_sid A ?st = has_sid A st" by (simp add: has_sid_def fun_eq_iff rest)
  have b: "named st s p \<Longrightarrow> p < rs_nextPool st" for s p by (rule reg_inv_pool_bound [OF assms])
  show ?thesis
  proof (rule reg_invI)
    show "distinct (map (tunnel_ID ?st) (members ?st p))" if "named ?st s p" for s p
      using that e m b reg_inv_distinct [OF assms] by (auto simp: n rest split: if_splits)
    show "p < rs_nextPool ?st" if "named ?st s p" for s p
      using that b by (auto simp: n rest less_Suc_eq split: if_splits)
    show "s = s'" if "named ?st s p" "named ?st s' p" for s s' p
      using that b reg_inv_pool_inj [OF assms] by (auto simp: n split: if_splits)
    show "distinct (map fst (rs_byName ?st))" by (rule rest)
    show "distinct (map fst (rs_bySess ?st))" using assms by (simp add: rest reg_inv_def)
    show "ct_Subdomain (rs_tunnels ?st t) = s \<and> \<not> ct_Draining (rs_tunnels ?st t)"
      if "member_of ?st s t" for s t
      using reg_inv_member [OF assms] that unfolding mem rest(1) .
    show "map_of (rs_bySess ?st) i = Some t \<longleftrightarrow> (\<exists>sub. member_of ?st sub t) \<and> has_sid A ?st t i" for i t
      unfolding mem sid rest(2) by (rule reg_inv_bySess [OF assms])
  qed
qed (simp add: EnsurePool_def assms)

text \<open>Writes to other fields of a tunnel do not touch the invariant.\<close>

lemma reg_inv_frame:
  assumes "reg_inv A st"
    and "rs_byName st' = rs_byName st" "rs_bySess st' = rs_bySess st"
    and "rs_nextPool st' = rs_nextPool st" "\<And>p. members st' p = members st p"
    and "\<And>t. ct_ID (rs_tunnels st' t) = ct_ID (rs_tunnels st t)"
    and "\<And>t. ct_Subdomain (rs_tunnels st' t) = ct_Subdomain (rs_tunnels st t)"
    and "\<And>t. ct_Session (rs_tunnels st' t) = ct_Session (rs_tunnels st t)"
    and "\<And>t. ct_Draining (rs_tunnels st' t) = ct_Draining (rs_tunnels st t)"
  shows "reg_inv A st'"
proof -
  have "named st' = named st" by (simp add: named_def fun_eq_iff assms(2))
  moreover from this have "member_of st' = member_of st"
    by (simp add: member_of_def fun_eq_iff assms(5))
  moreover have "has_sid A st' = has_sid A st" by (simp add: has_sid_def fun_eq_iff assms(8))
  ultimately have "reg_inv A st' = reg_inv A st"
    unfolding reg_inv_def assms(2-9) by (simp only:)
  with assms(1) show ?thesis by simp
qed

lemma upd_tunnel_inv:
  assumes "reg_inv A st"
    and "\<And>c. ct_ID (f c) = ct_ID c" "\<And>c. ct_Subdomain (f c) = ct_Subdomain c"
    and "\<And>c. ct_Session (f c) = ct_Session c" "\<And>c. ct_Draining (f c) = ct_Draining c"
  shows "reg_inv A (upd_tunnel t f st)"
  by (rule reg_inv_frame [OF assms(1)]) (simp_all add: assms)

text \<open>A tunnel that is in no pool may be written at will.\<close>

lemma upd_nonmember_inv:
  assumes inv: "reg_inv A st" and t: "\<And>sub. \<not> member_of st sub t"
  shows "reg_inv A (upd_tunnel t f st)"
proof (rule reg_invI)
  let ?st = "upd_tunnel t f st"
  have nm: "named ?st = named st" "member_of ?st = member_of st"
    by (simp_all add: named_def member_of_def fun_eq_iff)
  show "distinct (map fst (rs_byName ?st))" "distinct (map fst (rs_bySess ?st))"
    using inv by (simp_all add: reg_inv_def)
  show "named ?st sub p \<Longrightarrow> p < rs_nextPool ?st" for sub p
    using reg_inv_pool_bound [OF inv] by (simp add: nm)
  show "named ?st sub p \<Longrightarrow> named ?st sub' p \<Longrightarrow> sub = sub'" for sub sub' p
    using reg_inv_pool_inj [OF inv] by (simp add: nm)
  show "distinct (map (tunnel_ID ?st) (members ?st p))" if "named ?st sub p" for sub p
  proof -
    have "map (tunnel_ID ?st) (members st p) = map (tunnel_ID st) (members st p)"
      using t [of sub] that by (auto simp: nm member_of_def)
    then show ?thesis using reg_inv_distinct [OF inv] that unfolding nm upd_tunnel_simps(2) by metis
  qed
  show "ct_Subdomain (rs_tunnels ?st u) = sub \<and> \<not> ct_Draining (rs_tunnels ?st u)"
    if "member_of ?st sub u" for sub u
    using reg_inv_member [OF inv] t [of sub] that by (cases "u = t") (simp_all add: nm)
  show "map_of (rs_bySess ?st) i = Some u \<longleftrightarrow> (\<exists>sub. member_of ?st sub u) \<and> has_sid A ?st u i" for i u
    using reg_inv_bySess [OF inv, of i u] t by (cases "u = t") (simp_all add: nm has_sid_def)
qed

lemma SetLocalHealth_inv: "reg_inv A st \<Longrightarrow> reg_inv A (SetLocalHealth sub cid ok st)"
  by (auto simp: SetLocalHealth_def intro!: upd_tunnel_inv split: option.splits)

lemma Close_tunnel_simps [simp]:
  "rs_tunnels (fst (Close_tunnel A t st)) =
     (rs_tunnels st)(t := (rs_tunnels st t)\<lparr>ct_Closed := True\<rparr>)"
  "rs_pools (fst (Close_tunnel A t st)) = rs_pools st"
  "rs_nextPool (fst (Close_tunnel A t st)) = rs_nextPool st"
  "rs_byName (fst (Close_tunnel A t st)) = rs_byName st"
  "rs_bySess (fst (Close_tunnel A t st)) = rs_bySess st"
  "rs_drains (fst (Close_tunnel A t st)) = rs_drains st"
  by (simp_all add: Close_tunnel_def Let_def case_prod_beta)

lemma Close_tunnel_inv: "reg_inv A st \<Longrightarrow> reg_inv A (fst (Close_tunnel A t st))"
  by (erule reg_inv_frame) simp_all

lemma Pool_Pick_inv: "reg_inv A st \<Longrightarrow> reg_inv A (snd (Pool_Pick A p st))"
  by (erule reg_inv_frame) (auto simp: Pool_Pick_def Let_def)

text \<open>Removal by session: exactly the tunnel of that session leaves its pool.\<close>

lemma RemoveBySessionID_unknown: "map_of (rs_bySess st) i = None \<Longrightarrow> RemoveBySessionID i st = st"
  by (simp add: RemoveBySessionID_def)

lemma RemoveBySessionID_known:
  assumes inv: "reg_inv A st" and t: "map_of (rs_bySess st) i = Some t"
  obtains sub p where "named st sub p" "t \<in> set (members st p)"
    "RemoveBySessionID i st =
       set_members p (filter (\<lambda>m. m \<noteq> t) (members st p))
         (st\<lparr>rs_bySess := AList.delete i (rs_bySess st)\<rparr>)"
proof -
  obtain sub p where p: "named st sub p" "t \<in> set (members st p)"
    using reg_inv_bySess [OF inv] t by (auto simp: member_of_def)
  then have sub: "ct_Subdomain (rs_tunnels st t) = sub"
    using reg_inv_member [OF inv] by (auto simp: member_of_def)
  have d: "distinct (map (tunnel_ID st) (members st p))" by (rule reg_inv_distinct [OF inv p(1)])
  have "remove_id (tunnel_ID st) (tunnel_ID st t) (members st p) = filter (\<lambda>m. m \<noteq> t) (members st p)"
    unfolding remove_id_filter [OF d]
    using d p(2) by (intro filter_cong) (auto simp: distinct_map dest: inj_onD)
  then have "RemoveBySessionID i st =
       set_members p (filter (\<lambda>m. m \<noteq> t) (members st p))
         (st\<lparr>rs_bySess := AList.delete i (rs_bySess st)\<rparr>)"
    using p t sub by (simp add: RemoveBySessionID_def Pool_Remove_def named_def Let_def)
  with p show ?thesis by (rule that)
qed

lemma RemoveBySessionID_member:
  assumes inv: "reg_inv A st" and t: "map_of (rs_bySess st) i = Some t"
  shows "member_of (RemoveBySessionID i st) sub u \<longleftrightarrow> member_of st sub u \<and> u \<noteq> t"
proof -
  obtain s p where p: "named st s p" "t \<in> set (members st p)"
    "RemoveBySessionID i st =
       set_members p (filter (\<lambda>m. m \<noteq> t) (members st p))
         (st\<lparr>rs_bySess := AList.delete i (rs_bySess st)\<rparr>)"
    using RemoveBySessionID_known [OF assms] by metis
  have "t \<notin> set (members st q)" if "named st sub q" "q \<noteq> p" for q
    using that p(1,2) member_of_unique [OF inv, of sub t s]
    by (auto simp: member_of_def named_def)
  then show ?thesis
    unfolding p(3) by (auto simp: member_of_def named_def)
qed

lemma RemoveBySessionID_inv:
  assumes inv: "reg_inv A st"
  shows "reg_inv A (RemoveBySessionID i st)"
proof (cases "map_of (rs_bySess st) i")
  case (Some t)
  let ?st = "RemoveBySessionID i st"
  obtain s p where p: "named st s p" "t \<in> set (members st p)"
    and eq: "?st = set_members p (filter (\<lambda>m. m \<noteq> t) (members st p))
               (st\<lparr>rs_bySess := AList.delete i (rs_bySess st)\<rparr>)"
    using RemoveBySessionID_known [OF inv Some] by metis
  have named: "named ?st = named st" by (simp add: eq named_def fun_eq_iff)
  have sid: "has_sid A ?st = has_sid A st" by (simp add: eq has_sid_def fun_eq_iff)
  have mem: "member_of ?st sub u \<longleftrightarrow> member_of st sub u \<and> u \<noteq> t" for sub u
    by (rule RemoveBySessionID_member [OF inv Some])
  have tun: "rs_tunnels ?st = rs_tunnels st" by (simp add: eq)
  have ti: "has_sid A st t j \<longleftrightarrow> j = i" for j
    using reg_inv_bySess [OF inv, of i t] Some by (auto simp: has_sid_def)
  show ?thesis
  proof (rule reg_invI)
    show "distinct (map (tunnel_ID ?st) (members ?st q))" if "named ?st sub q" for sub q
      using reg_inv_distinct [OF inv] that unfolding named
      by (auto simp: eq distinct_map inj_on_def)
    show "map_of (rs_bySess ?st) j = Some u \<longleftrightarrow> (\<exists>sub. member_of ?st sub u) \<and> has_sid A ?st u j"
      for j u
    proof -
      have "u \<noteq> t" if "map_of (rs_bySess st) j = Some u" "j \<noteq> i"
        using reg_inv_bySess [OF inv, of j u] that ti by auto
      moreover have "j \<noteq> i" if "has_sid A st u j" "\<exists>sub. member_of st sub u" "u \<noteq> t"
        using reg_inv_bySess [OF inv, of j u] that Some by auto
      ultimately show ?thesis
        unfolding mem sid using reg_inv_bySess [OF inv, of j u] by (auto simp: eq)
    qed
    show "distinct (map fst (rs_bySess ?st))"
      using inv by (simp add: eq reg_inv_def distinct_delete)
    show "ct_Subdomain (rs_tunnels ?st u) = sub \<and> \<not> ct_Draining (rs_tunnels ?st u)"
      if "member_of ?st sub u" for sub u
      using that reg_inv_member [OF inv] unfolding mem tun by blast
  qed (use inv in \<open>simp_all add: named, simp_all add: eq reg_inv_def\<close>)
qed (simp add: RemoveBySessionID_unknown inv)

text \<open>Registration in a pool: full, appended, or in place of the member with the same ID.\<close>

lemma find_replace_member:
  "replace_member tid t ms = Some (old, ms') \<Longrightarrow> find (\<lambda>m. tid m = tid t) ms = Some old"
  by (induction ms arbitrary: ms') (auto split: if_splits option.splits)

definition after_success :: "'x transport \<Rightarrow> tunnel_ptr \<Rightarrow> 'x reg_state \<Rightarrow> 'x reg_state" where
  "after_success A t st =
     (let st = upd_tunnel t (\<lambda>c. c\<lparr>ct_LocalHealthy := True\<rparr>) st
      in case ct_Session (rs_tunnels st t) of
           None \<Rightarrow> st
         | Some s \<Rightarrow> st\<lparr>rs_bySess := AList.update (session_ID A s) t (rs_bySess st)\<rparr>)"

lemma register_in_replace:
  assumes "replace_member (tunnel_ID st) t (members st p) = Some (old, ms)"
  shows "register_in A p t mx st =
    (None, after_success A t
       (beginSupersedeDrain old (rs_supersedeDrainTimeout st)
          (set_members p ms (drop_session A (Some old) st))))"
proof -
  have "rs_tunnels (drop_session A x st) = rs_tunnels st"
    "rs_pools (drop_session A x st) = rs_pools st"
    "rs_supersedeDrainTimeout (drop_session A x st) = rs_supersedeDrainTimeout st" for x
    by (simp_all add: drop_session_def split: option.splits)
  with assms find_replace_member [OF assms] show ?thesis
    by (simp add: register_in_def Pool_ByID_def Pool_Add_def after_success_def Let_def)
qed

lemma register_in_new:
  assumes "replace_member (tunnel_ID st) t (members st p) = None"
  shows "register_in A p t mx st =
    (if mx \<le> int (length (members st p)) then (Some ErrPoolFull, st)
     else (None, after_success A t (set_members p (members st p @ [t]) st)))"
proof -
  have "Pool_ByID st p (tunnel_ID st t) = None"
    using assms unfolding replace_member_None Pool_ByID_def find_None_ID .
  with assms show ?thesis
    by (simp add: register_in_def drop_session_def Pool_Add_def after_success_def Let_def)
qed

lemma after_success_simps [simp]:
  "rs_tunnels (after_success A t st) =
     (rs_tunnels st)(t := (rs_tunnels st t)\<lparr>ct_LocalHealthy := True\<rparr>)"
  "rs_pools (after_success A t st) = rs_pools st"
  "rs_nextPool (after_success A t st) = rs_nextPool st"
  "rs_byName (after_success A t st) = rs_byName st"
  "rs_ext (after_success A t st) = rs_ext st"
  "rs_drains (after_success A t st) = rs_drains st"
  by (simp_all add: after_success_def Let_def split: option.splits)

lemma after_success_bySess:
  "map_of (rs_bySess (after_success A t st)) i =
     (if has_sid A st t i then Some t else map_of (rs_bySess st) i)"
  by (auto simp: after_success_def has_sid_def Let_def split: option.splits)

lemma drop_session_bySess:
  "map_of (rs_bySess (drop_session A (Some old) st)) i =
     (if has_sid A st old i then None else map_of (rs_bySess st) i)"
  by (auto simp: drop_session_def has_sid_def split: option.splits)

lemma drop_session_simps [simp]:
  "rs_tunnels (drop_session A x st) = rs_tunnels st"
  "rs_pools (drop_session A x st) = rs_pools st"
  "rs_nextPool (drop_session A x st) = rs_nextPool st"
  "rs_byName (drop_session A x st) = rs_byName st"
  "rs_ext (drop_session A x st) = rs_ext st"
  by (simp_all add: drop_session_def split: option.splits)

lemma distinct_bySess_steps:
  assumes "distinct (map fst (rs_bySess st))"
  shows "distinct (map fst (rs_bySess (after_success A t st)))"
    and "distinct (map fst (rs_bySess (drop_session A x st)))"
  using assms by (simp_all add: after_success_def drop_session_def Let_def distinct_update
      distinct_delete split: option.splits)

text \<open>
  The effect of a successful registration of \<open>t\<close>, in one statement for both ways: in the pool of
  its subdomain, \<open>t\<close> takes the place of whatever member had its ID.
\<close>

definition registered ::
  "'x transport \<Rightarrow> 'x reg_state \<Rightarrow> tunnel_ptr \<Rightarrow> 'x reg_state \<Rightarrow> bool" where
  "registered A st t st' \<longleftrightarrow>
     rs_byName st' = rs_byName st \<and> rs_nextPool st' = rs_nextPool st \<and> rs_ext st' = rs_ext st
     \<and> distinct (map fst (rs_bySess st'))
     \<and> (\<forall>sub u. member_of st' sub u \<longleftrightarrow>
          (if sub = ct_Subdomain (rs_tunnels st t) \<and> tunnel_ID st u = tunnel_ID st t
           then u = t else member_of st sub u))
     \<and> (\<forall>sub p. named st sub p \<longrightarrow> distinct (map (tunnel_ID st) (members st' p)))
     \<and> (\<forall>u. (rs_tunnels st' u)\<lparr>ct_Draining := ct_Draining (rs_tunnels st u),
                ct_LocalHealthy := ct_LocalHealthy (rs_tunnels st u)\<rparr> = rs_tunnels st u)
     \<and> (\<forall>u. ct_LocalHealthy (rs_tunnels st' u) \<longleftrightarrow> u = t \<or> ct_LocalHealthy (rs_tunnels st u))
     \<and> (\<forall>u. ct_Draining (rs_tunnels st' u) \<longleftrightarrow> ct_Draining (rs_tunnels st u)
           \<or> member_of st (ct_Subdomain (rs_tunnels st t)) u \<and> tunnel_ID st u = tunnel_ID st t)
     \<and> (\<forall>i. map_of (rs_bySess st') i =
          (if has_sid A st t i then Some t
           else if \<exists>u. member_of st (ct_Subdomain (rs_tunnels st t)) u
                       \<and> tunnel_ID st u = tunnel_ID st t \<and> has_sid A st u i then None
           else map_of (rs_bySess st) i))"

lemma member_of_one_pool:
  assumes "reg_inv A st" "named st sub p" "rs_byName st' = rs_byName st"
    and "members st' p = ms" "\<And>q. q \<noteq> p \<Longrightarrow> members st' q = members st q"
  shows "member_of st' s u \<longleftrightarrow> (if s = sub then u \<in> set ms else member_of st s u)"
proof -
  have n: "named st' = named st" by (simp add: named_def fun_eq_iff assms(3))
  show ?thesis
  proof (cases "s = sub")
    case True
    then show ?thesis using assms(2,4) by (auto simp: member_of_def n named_def)
  next
    case False
    then have "q \<noteq> p" if "named st s q" for q
      using that reg_inv_pool_inj [OF assms(1) assms(2)] by blast
    then have "named st s q \<Longrightarrow> members st' q = members st q" for q using assms(5) by blast
    then show ?thesis using False unfolding member_of_def n by auto
  qed
qed

lemma member_of_named: "named st sub p \<Longrightarrow> member_of st sub u \<longleftrightarrow> u \<in> set (members st p)"
  by (auto simp: member_of_def named_def)

lemma registered_new:
  assumes inv: "reg_inv A st" and fr: "fresh_tunnel A st t"
    and p: "named st (ct_Subdomain (rs_tunnels st t)) p"
    and new: "replace_member (tunnel_ID st) t (members st p) = None"
  shows "registered A st t (after_success A t (set_members p (members st p @ [t]) st))"
    (is "registered A st t ?st")
proof -
  have id: "tunnel_ID st t \<notin> tunnel_ID st ` set (members st p)"
    using new by (simp add: replace_member_None)
  have noid: "\<not> (member_of st (ct_Subdomain (rs_tunnels st t)) u \<and> tunnel_ID st u = tunnel_ID st t)" for u
    using id unfolding member_of_named [OF p] by (metis image_eqI)
  have mem: "member_of ?st sub u \<longleftrightarrow>
      (if sub = ct_Subdomain (rs_tunnels st t) then u \<in> set (members st p @ [t])
       else member_of st sub u)" for sub u
    by (rule member_of_one_pool [OF inv p]) simp_all
  have sid: "has_sid A (set_members p ms st) = has_sid A st" for ms
    by (simp add: has_sid_def fun_eq_iff)
  have "distinct (map fst (rs_bySess st))" using inv by (simp add: reg_inv_def)
  then have 1: "distinct (map fst (rs_bySess ?st))"
    by (intro distinct_bySess_steps(1)) simp
  have 2: "distinct (map (tunnel_ID st) (members ?st q))" if "named st sub q" for sub q
    using reg_inv_distinct [OF inv that] reg_inv_distinct [OF inv p] id by auto
  have 3: "member_of ?st sub u \<longleftrightarrow>
      (if sub = ct_Subdomain (rs_tunnels st t) \<and> tunnel_ID st u = tunnel_ID st t
       then u = t else member_of st sub u)" for sub u
    using noid [of u] unfolding mem member_of_named [OF p] by (auto simp: member_of_named [OF p])
  have 4: "map_of (rs_bySess ?st) i = (if has_sid A st t i then Some t else map_of (rs_bySess st) i)" for i
    by (simp add: after_success_bySess sid)
  show ?thesis
    unfolding registered_def 3 4 using 1 2 noid by (intro conjI allI impI) auto
qed

lemma registered_replace:
  assumes inv: "reg_inv A st" and fr: "fresh_tunnel A st t"
    and p: "named st (ct_Subdomain (rs_tunnels st t)) p"
    and rep: "replace_member (tunnel_ID st) t (members st p) = Some (old, ms)"
  shows "registered A st t (after_success A t (beginSupersedeDrain old d
           (set_members p ms (drop_session A (Some old) st))))"
    (is "registered A st t ?st")
proof -
  let ?sub = "ct_Subdomain (rs_tunnels st t)"
  obtain us vs where ms: "members st p = us @ old # vs" "ms = us @ t # vs"
    "tunnel_ID st old = tunnel_ID st t"
    using replace_member_Some [OF rep] by blast
  have mo: "member_of st ?sub old" using p ms by (auto simp: member_of_def)
  have same: "member_of st ?sub u \<and> tunnel_ID st u = tunnel_ID st t \<longleftrightarrow> u = old" for u
    using member_ID_unique [OF inv mo, of u] mo ms(3) by metis
  have ne: "old \<noteq> t" using fr mo by (auto simp: fresh_tunnel_def)
  have dp: "distinct (map (tunnel_ID st) (us @ old # vs))"
    using reg_inv_distinct [OF inv p] ms(1) by simp
  have oth: "tunnel_ID st u \<noteq> tunnel_ID st t" if "u \<in> set us \<union> set vs" for u
  proof -
    have "tunnel_ID st old \<notin> tunnel_ID st ` (set us \<union> set vs)" using dp by auto
    with that ms(3) show ?thesis by (metis image_eqI)
  qed
  have mem: "member_of ?st sub u \<longleftrightarrow>
      (if sub = ?sub \<and> tunnel_ID st u = tunnel_ID st t then u = t else member_of st sub u)" for sub u
  proof -
    have "member_of ?st sub u \<longleftrightarrow> (if sub = ?sub then u \<in> set ms else member_of st sub u)"
      by (rule member_of_one_pool [OF inv p]) simp_all
    moreover have "u \<in> set ms \<longleftrightarrow> (if tunnel_ID st u = tunnel_ID st t then u = t else u \<in> set (members st p))"
      using oth ms by auto
    ultimately show ?thesis by (simp add: member_of_named [OF p])
  qed
  have sid: "has_sid A (beginSupersedeDrain old d (set_members p ms (drop_session A (Some old) st)))
      = has_sid A st"
    by (simp add: has_sid_def fun_eq_iff)
  have "distinct (map fst (rs_bySess st))" using inv by (simp add: reg_inv_def)
  then have 1: "distinct (map fst (rs_bySess ?st))"
    using distinct_bySess_steps(2) [of st A "Some old"] by (intro distinct_bySess_steps(1)) simp
  have 2: "distinct (map (tunnel_ID st) (members ?st q))" if "named st sub q" for sub q
    using reg_inv_distinct [OF inv that] dp ms(2,3) by auto
  have 4: "map_of (rs_bySess ?st) i = (if has_sid A st t i then Some t
      else if has_sid A st old i then None else map_of (rs_bySess st) i)" for i
    by (simp add: after_success_bySess sid drop_session_bySess)
  have 5: "(\<exists>u. member_of st ?sub u \<and> tunnel_ID st u = tunnel_ID st t \<and> Q u) \<longleftrightarrow> Q old" for Q
    using same by metis
  show ?thesis
    unfolding registered_def mem 4 5 same using 1 2 ne by (intro conjI allI impI) auto
qed

lemma registered_fields:
  assumes "registered A st t st'"
  shows "ct_ID (rs_tunnels st' u) = ct_ID (rs_tunnels st u)"
    and "ct_Subdomain (rs_tunnels st' u) = ct_Subdomain (rs_tunnels st u)"
    and "ct_Session (rs_tunnels st' u) = ct_Session (rs_tunnels st u)"
    and "ct_Yamux (rs_tunnels st' u) = ct_Yamux (rs_tunnels st u)"
    and "ct_ActiveStreams (rs_tunnels st' u) = ct_ActiveStreams (rs_tunnels st u)"
proof -
  have "(rs_tunnels st' u)\<lparr>ct_Draining := ct_Draining (rs_tunnels st u),
          ct_LocalHealthy := ct_LocalHealthy (rs_tunnels st u)\<rparr> = rs_tunnels st u"
    using assms unfolding registered_def by blast
  then show "ct_ID (rs_tunnels st' u) = ct_ID (rs_tunnels st u)"
    "ct_Subdomain (rs_tunnels st' u) = ct_Subdomain (rs_tunnels st u)"
    "ct_Session (rs_tunnels st' u) = ct_Session (rs_tunnels st u)"
    "ct_Yamux (rs_tunnels st' u) = ct_Yamux (rs_tunnels st u)"
    "ct_ActiveStreams (rs_tunnels st' u) = ct_ActiveStreams (rs_tunnels st u)"
    by (metis ClientTunnel.select_convs ClientTunnel.surjective ClientTunnel.update_convs(7,8))+
qed

lemma registered_member:
  "registered A st t st' \<Longrightarrow> member_of st' sub u \<longleftrightarrow>
     (if sub = ct_Subdomain (rs_tunnels st t) \<and> tunnel_ID st u = tunnel_ID st t
      then u = t else member_of st sub u)"
  unfolding registered_def by blast

lemma registered_bySess:
  "registered A st t st' \<Longrightarrow> map_of (rs_bySess st') i =
     (if has_sid A st t i then Some t
      else if \<exists>u. member_of st (ct_Subdomain (rs_tunnels st t)) u
                  \<and> tunnel_ID st u = tunnel_ID st t \<and> has_sid A st u i then None
      else map_of (rs_bySess st) i)"
  unfolding registered_def by blast

lemma registered_draining:
  "registered A st t st' \<Longrightarrow> ct_Draining (rs_tunnels st' u) \<longleftrightarrow> ct_Draining (rs_tunnels st u)
     \<or> member_of st (ct_Subdomain (rs_tunnels st t)) u \<and> tunnel_ID st u = tunnel_ID st t"
  unfolding registered_def by blast

lemma registered_index:
  assumes inv: "reg_inv A st" and fr: "fresh_tunnel A st t" and r: "registered A st t st'"
  shows "map_of (rs_bySess st') i = Some u \<longleftrightarrow> (\<exists>sub. member_of st' sub u) \<and> has_sid A st' u i"
proof -
  let ?sub = "ct_Subdomain (rs_tunnels st t)"
  have sid: "has_sid A st' = has_sid A st"
    by (simp add: has_sid_def fun_eq_iff registered_fields(3) [OF r])
  have free: "map_of (rs_bySess st) i = None" if "has_sid A st t i"
    using fr that by (simp add: fresh_tunnel_def)
  show ?thesis
  proof (cases "has_sid A st t i")
    case True
    have "\<not> has_sid A st u i" if "member_of st sub u" for sub
      using reg_inv_bySess [OF inv, of i u] free [OF True] that by auto
    then show ?thesis
      unfolding registered_bySess [OF r] sid registered_member [OF r] using True by auto
  next
    case False
    then have tf: "u = t \<Longrightarrow> \<not> has_sid A st u i" by simp
    have key: "member_of st sub u \<Longrightarrow> sub = ct_Subdomain (rs_tunnels st u)" for sub
      using reg_inv_member [OF inv] by metis
    show ?thesis
    proof (cases "\<exists>v. member_of st ?sub v \<and> tunnel_ID st v = tunnel_ID st t \<and> has_sid A st v i")
      case True
      then obtain v where v: "member_of st ?sub v" "tunnel_ID st v = tunnel_ID st t" "has_sid A st v i"
        by blast
      then have "map_of (rs_bySess st) i = Some v" using reg_inv_bySess [OF inv, of i v] by auto
      then have "u = v" if "member_of st sub u" "has_sid A st u i" for sub
        using that reg_inv_bySess [OF inv, of i u] by auto
      then show ?thesis
        unfolding registered_bySess [OF r] sid registered_member [OF r] using False True v tf
        by (auto dest: member_of_unique [OF inv])
    next
      case nov: False
      then have "(\<exists>sub. member_of st' sub u) \<and> has_sid A st u i \<longleftrightarrow>
          (\<exists>sub. member_of st sub u) \<and> has_sid A st u i"
        unfolding registered_member [OF r] using tf by metis
      with nov False show ?thesis
        using reg_inv_bySess [OF inv, of i u] registered_bySess [OF r, of i] unfolding sid by auto
    qed
  qed
qed

lemma registered_inv:
  assumes inv: "reg_inv A st" and fr: "fresh_tunnel A st t" and r: "registered A st t st'"
  shows "reg_inv A st'"
proof (rule reg_invI)
  have same: "rs_byName st' = rs_byName st" "rs_nextPool st' = rs_nextPool st"
    "distinct (map fst (rs_bySess st'))"
    "\<And>sub p. named st sub p \<Longrightarrow> distinct (map (tunnel_ID st) (members st' p))"
    using r unfolding registered_def by blast+
  have n: "named st' = named st" by (simp add: named_def fun_eq_iff same(1))
  show "distinct (map fst (rs_byName st'))" using inv by (simp add: same reg_inv_def)
  show "distinct (map fst (rs_bySess st'))" by (rule same)
  show "p < rs_nextPool st'" if "named st' sub p" for sub p
    using that reg_inv_pool_bound [OF inv] unfolding n same by blast
  show "sub = sub'" if "named st' sub p" "named st' sub' p" for sub sub' p
    using that reg_inv_pool_inj [OF inv] unfolding n by blast
  show "distinct (map (tunnel_ID st') (members st' p))" if "named st' sub p" for sub p
    using that same(4) unfolding n registered_fields(1) [OF r] by blast
  show "ct_Subdomain (rs_tunnels st' u) = sub \<and> \<not> ct_Draining (rs_tunnels st' u)"
    if "member_of st' sub u" for sub u
  proof -
    have t: "\<not> ct_Draining (rs_tunnels st t)" "\<not> member_of st s t" for s
      using fr by (auto simp: fresh_tunnel_def)
    show ?thesis
      using that reg_inv_member [OF inv, of sub u] t
      unfolding registered_member [OF r] registered_draining [OF r] registered_fields(2) [OF r]
      by (auto split: if_splits dest: member_of_unique [OF inv])
  qed
  show "map_of (rs_bySess st') i = Some u \<longleftrightarrow> (\<exists>sub. member_of st' sub u) \<and> has_sid A st' u i" for i u
    by (rule registered_index [OF inv fr r])
qed

section \<open>Register as a whole\<close>

abbreviation ensured :: "'x reg_state \<Rightarrow> tunnel_ptr \<Rightarrow> 'x reg_state" where
  "ensured st t \<equiv> snd (EnsurePool (ct_Subdomain (rs_tunnels st t)) st)"

lemma fresh_ensured:
  "reg_inv A st \<Longrightarrow> fresh_tunnel A (ensured st t) t \<longleftrightarrow> fresh_tunnel A st t"
  by (simp add: fresh_tunnel_def EnsurePool_member_of has_sid_def)

lemma Register_cases:
  assumes inv: "reg_inv A st" and fr: "fresh_tunnel A st t"
  obtains (ok) st' where "Register A t mx st = (None, st')" "registered A (ensured st t) t st'"
  | (full) "Register A t mx st = (Some ErrPoolFull, ensured st t)"
      "\<And>u. member_of st (ct_Subdomain (rs_tunnels st t)) u \<Longrightarrow> tunnel_ID st u \<noteq> tunnel_ID st t"
      "mx \<le> int (card {u. member_of st (ct_Subdomain (rs_tunnels st t)) u})"
proof -
  let ?sub = "ct_Subdomain (rs_tunnels st t)" and ?st = "ensured st t"
  define p where "p = fst (EnsurePool ?sub st)"
  have R: "Register A t mx st = register_in A p t mx ?st"
    by (simp add: Register_def p_def case_prod_beta Let_def)
  have inv': "reg_inv A ?st" by (rule EnsurePool_inv [OF inv])
  have fr': "fresh_tunnel A ?st t" using fr fresh_ensured [OF inv] by blast
  have p: "named ?st (ct_Subdomain (rs_tunnels ?st t)) p"
    using EnsurePool_named [of ?sub st] by (simp add: p_def)
  show ?thesis
  proof (cases "replace_member (tunnel_ID ?st) t (members ?st p)")
    case (Some om)
    then show ?thesis
      using registered_replace [OF inv' fr' p] register_in_replace [of ?st t p] R
      by (cases om) (metis ok)
  next
    case None
    show ?thesis
    proof (cases "mx \<le> int (length (members ?st p))")
      case True
      have mem: "member_of st ?sub u \<longleftrightarrow> u \<in> set (members ?st p)" for u
        using member_of_named [OF p] by (simp add: EnsurePool_member_of [OF inv])
      have "distinct (members ?st p)" using reg_inv_distinct [OF inv' p] by (simp add: distinct_map)
      then have "card {u. member_of st ?sub u} = length (members ?st p)"
        unfolding mem by (simp add: distinct_card)
      moreover have "tunnel_ID st u \<noteq> tunnel_ID st t" if "member_of st ?sub u" for u
        using None that unfolding replace_member_None mem by (metis EnsurePool_simps(1) image_eqI)
      ultimately show ?thesis
        using True None by (intro full) (simp_all add: R register_in_new)
    next
      case False
      then show ?thesis
        using registered_new [OF inv' fr' p None] None
        by (intro ok [of "after_success A t (set_members p (members ?st p @ [t]) ?st)"])
           (simp_all add: R register_in_new)
    qed
  qed
qed

lemma pool_card:
  assumes "reg_inv A st" "named st sub p"
  shows "card {u. member_of st sub u} = length (members st p)"
proof -
  have "{u. member_of st sub u} = set (members st p)" using member_of_named [OF assms(2)] by auto
  moreover have "distinct (members st p)" using reg_inv_distinct [OF assms] by (simp add: distinct_map)
  ultimately show ?thesis by (simp add: distinct_card)
qed

text \<open>Registration succeeds exactly when there is a member to replace or room for one more.\<close>

lemma Register_room:
  fixes st :: "'x reg_state" and t :: tunnel_ptr
  assumes inv: "reg_inv A st"
  defines "sub \<equiv> ct_Subdomain (rs_tunnels st t)"
  shows "fst (Register A t mx st) = None \<longleftrightarrow>
    (\<exists>u. member_of st sub u \<and> tunnel_ID st u = tunnel_ID st t) \<or> int (card {u. member_of st sub u}) < mx"
proof -
  define p where "p = fst (EnsurePool sub st)"
  have R: "Register A t mx st = register_in A p t mx (ensured st t)"
    by (simp add: Register_def p_def sub_def case_prod_beta Let_def)
  have inv': "reg_inv A (ensured st t)" by (rule EnsurePool_inv [OF inv])
  have p: "named (ensured st t) sub p"
    using EnsurePool_named [of sub st] by (simp add: p_def sub_def)
  have mem: "member_of st sub u \<longleftrightarrow> u \<in> set (members (ensured st t) p)" for u
    using member_of_named [OF p] by (simp add: EnsurePool_member_of [OF inv])
  have card: "card {u. member_of st sub u} = length (members (ensured st t) p)"
    using pool_card [OF inv' p] by (simp add: EnsurePool_member_of [OF inv])
  have ex: "(\<exists>u. member_of st sub u \<and> tunnel_ID st u = tunnel_ID st t) \<longleftrightarrow>
      replace_member (tunnel_ID (ensured st t)) t (members (ensured st t) p) \<noteq> None"
    unfolding replace_member_None mem EnsurePool_simps(1) image_iff by metis
  show ?thesis
  proof (cases "replace_member (tunnel_ID (ensured st t)) t (members (ensured st t) p)")
    case None
    with ex card show ?thesis by (auto simp: R register_in_new [OF None])
  next
    case (Some om)
    then have "replace_member (tunnel_ID (ensured st t)) t (members (ensured st t) p) = Some (fst om, snd om)"
      by simp
    from register_in_replace [OF this] ex Some show ?thesis by (auto simp: R)
  qed
qed

lemma Register_inv:
  assumes inv: "reg_inv A st" and fr: "fresh_tunnel A st t"
  shows "reg_inv A (snd (Register A t mx st))"
proof -
  have e: "reg_inv A (ensured st t)" "fresh_tunnel A (ensured st t) t"
    using EnsurePool_inv [OF inv] fr fresh_ensured [OF inv] by auto
  show ?thesis
    by (rule Register_cases [OF inv fr, of mx]) (auto intro: registered_inv [OF e] e(1))
qed

section \<open>The directory of tunnels\<close>

text \<open>The abstract view: which tunnel serves a client ID of a subdomain.\<close>

definition lookup_tunnel :: "'x reg_state \<Rightarrow> string \<times> string \<Rightarrow> tunnel_ptr option" where
  "lookup_tunnel st k =
     (case Pool st (fst k) of None \<Rightarrow> None | Some p \<Rightarrow> Pool_ByID st p (snd k))"

definition tunnel_key :: "'x reg_state \<Rightarrow> tunnel_ptr \<Rightarrow> string \<times> string" where
  "tunnel_key st t = (ct_Subdomain (rs_tunnels st t), tunnel_ID st t)"

lemma lookup_tunnel_iff:
  assumes "reg_inv A st"
  shows "lookup_tunnel st (sub, i) = Some t \<longleftrightarrow> member_of st sub t \<and> tunnel_ID st t = i"
proof (cases "map_of (rs_byName st) sub")
  case (Some p)
  then have "named st sub p" by (simp add: named_def)
  with find_distinct [OF reg_inv_distinct [OF assms]] show ?thesis
    by (simp add: lookup_tunnel_def Pool_def Pool_ByID_def named_def member_of_def)
qed (simp add: lookup_tunnel_def Pool_def member_of_def named_def)

lemma lookup_tunnel_ext:
  assumes "reg_inv A st" "reg_inv A st'"
    and "\<And>sub i t. member_of st' sub t \<and> tunnel_ID st' t = i \<longleftrightarrow> m (sub, i) = Some t"
  shows "lookup_tunnel st' = m"
proof
  fix k
  show "lookup_tunnel st' k = m k"
    using lookup_tunnel_iff [OF assms(2)] assms(3)
    by (cases k; cases "m k"; cases "lookup_tunnel st' k") (auto, metis option.distinct(1))
qed

text \<open>
  The contract of the registry towards the server's hooks, over its abstract view: the current
  tunnel of each key (subdomain and client ID) and the tunnel of each session. Registration
  replaces the entry of the tunnel's key; removal by a session clears the entry of that session's
  tunnel only. The lemmas are what the hooks rely on for reconnects.
\<close>

locale tunnel_directory =
  fixes inv :: "'s \<Rightarrow> bool"
    and cur :: "'s \<Rightarrow> 'k \<Rightarrow> 't option"
    and sess :: "'s \<Rightarrow> string \<Rightarrow> 't option"
    and key :: "'s \<Rightarrow> 't \<Rightarrow> 'k"
    and sid :: "'s \<Rightarrow> 't \<Rightarrow> string \<Rightarrow> bool"
    and fresh :: "'s \<Rightarrow> 't \<Rightarrow> bool"
    and register :: "'t \<Rightarrow> int \<Rightarrow> 's \<Rightarrow> 'e option \<times> 's"
    and remove :: "string \<Rightarrow> 's \<Rightarrow> 's"
  assumes register_inv: "inv s \<Longrightarrow> fresh s t \<Longrightarrow> inv (snd (register t n s))"
    and register_ok: "inv s \<Longrightarrow> fresh s t \<Longrightarrow> register t n s = (None, s') \<Longrightarrow>
          cur s' = (cur s)(key s t \<mapsto> t) \<and> key s' = key s \<and> sid s' = sid s"
    and register_full: "inv s \<Longrightarrow> fresh s t \<Longrightarrow> register t n s = (Some e, s') \<Longrightarrow>
          cur s' = cur s \<and> sess s' = sess s \<and> cur s (key s t) = None"
    and remove_inv: "inv s \<Longrightarrow> inv (remove i s)"
    and remove_unknown: "sess s i = None \<Longrightarrow> remove i s = s"
    and remove_known: "inv s \<Longrightarrow> sess s i = Some t \<Longrightarrow>
          cur (remove i s) = (cur s)(key s t := None) \<and> sess (remove i s) = (sess s)(i := None)"
    and sess_iff: "inv s \<Longrightarrow> sess s i = Some t \<longleftrightarrow> cur s (key s t) = Some t \<and> sid s t i"
    and fresh_sid: "fresh s t \<Longrightarrow> sid s t i \<Longrightarrow> sess s i = None"
    and cur_key: "inv s \<Longrightarrow> cur s k = Some t \<Longrightarrow> key s t = k"
begin

lemma register_current:
  "inv s \<Longrightarrow> fresh s t \<Longrightarrow> register t n s = (None, s') \<Longrightarrow> cur s' (key s t) = Some t"
  using register_ok by fastforce

lemma register_session:
  assumes "inv s" "fresh s t" "register t n s = (None, s')" "sid s t i"
  shows "sess s' i = Some t"
proof -
  have "inv s'" using register_inv [OF assms(1,2), of n] assms(3) by simp
  then show ?thesis using sess_iff register_ok [OF assms(1-3)] assms(4) by auto
qed

text \<open>A tunnel that is replaced loses its session entry, so its late disconnect changes nothing.\<close>

lemma superseded_session:
  assumes s: "inv s" "fresh s t" "register t n s = (None, s')"
    and old: "sess s i = Some old" "key s old = key s t" "old \<noteq> t"
  shows "remove i s' = s'"
proof (rule remove_unknown)
  have i': "inv s'" using register_inv [OF s(1,2), of n] s(3) by simp
  have o: "sid s old i" "cur s (key s old) = Some old" using sess_iff [OF s(1)] old(1) by auto
  show "sess s' i = None"
  proof (rule ccontr)
    assume "sess s' i \<noteq> None"
    then obtain u where u: "sess s' i = Some u" by auto
    then have cu: "cur s' (key s' u) = Some u" "sid s' u i" using sess_iff [OF i'] by auto
    have e: "cur s' = (cur s)(key s t \<mapsto> t)" "key s' = key s" "sid s' = sid s"
      using register_ok [OF s] by auto
    have "u \<noteq> t" using fresh_sid [OF s(2)] old(1) cu(2) e(3) by auto
    then have "key s u \<noteq> key s t" "cur s (key s u) = Some u" using cu e by (auto split: if_splits)
    then have "sess s i = Some u" using sess_iff [OF s(1), of i u] cu(2) e(3) by auto
    with old \<open>key s u \<noteq> key s t\<close> show False by auto
  qed
qed

lemma disconnect_current:
  assumes "inv s" "fresh s t" "register t n s = (None, s')" "sid s t i"
  shows "cur (remove i s') = (cur s)(key s t := None)"
proof -
  have "inv s'" using register_inv [OF assms(1,2), of n] assms(3) by simp
  then show ?thesis
    using remove_known [of s' i t] register_session [OF assms] register_ok [OF assms(1-3)] by simp
qed

end

lemma Register_ok_view:
  assumes inv: "reg_inv A st" and fr: "fresh_tunnel A st t" and r: "Register A t n st = (None, st')"
  shows "lookup_tunnel st' = (lookup_tunnel st)(tunnel_key st t \<mapsto> t)
    \<and> tunnel_key st' = tunnel_key st \<and> has_sid A st' = has_sid A st"
proof -
  have reg: "registered A (ensured st t) t st'"
    by (rule Register_cases [OF inv fr, of n]) (use r in auto)
  note f = registered_fields [OF reg, unfolded EnsurePool_simps]
  have mem: "member_of st' sub u \<longleftrightarrow>
     (if sub = ct_Subdomain (rs_tunnels st t) \<and> tunnel_ID st u = tunnel_ID st t
      then u = t else member_of st sub u)" for sub u
    using registered_member [OF reg] by (simp add: EnsurePool_member_of [OF inv])
  have inv': "reg_inv A st'" using Register_inv [OF inv fr, of n] r by simp
  have "lookup_tunnel st' = (lookup_tunnel st)(tunnel_key st t \<mapsto> t)"
    by (rule lookup_tunnel_ext [OF inv inv'])
       (auto simp: mem f tunnel_key_def lookup_tunnel_iff [OF inv])
  then show ?thesis by (simp add: tunnel_key_def has_sid_def fun_eq_iff f)
qed

lemma lookup_tunnel_cong:
  assumes "reg_inv A st" "reg_inv A st'" "member_of st' = member_of st" "rs_tunnels st' = rs_tunnels st"
  shows "lookup_tunnel st' = lookup_tunnel st"
  by (rule lookup_tunnel_ext [OF assms(1,2)]) (auto simp: assms(3,4) lookup_tunnel_iff [OF assms(1)])

lemma lookup_tunnel_None:
  assumes "reg_inv A st"
  shows "lookup_tunnel st (sub, i) = None \<longleftrightarrow> (\<forall>t. member_of st sub t \<longrightarrow> tunnel_ID st t \<noteq> i)"
  using lookup_tunnel_iff [OF assms, of sub i] by (cases "lookup_tunnel st (sub, i)") auto

lemma RemoveBySessionID_simps:
  assumes "reg_inv A st" "map_of (rs_bySess st) i = Some t"
  shows "rs_tunnels (RemoveBySessionID i st) = rs_tunnels st"
    and "map_of (rs_bySess (RemoveBySessionID i st)) = (map_of (rs_bySess st))(i := None)"
    and "rs_byName (RemoveBySessionID i st) = rs_byName st"
    and "rs_ext (RemoveBySessionID i st) = rs_ext st"
  using RemoveBySessionID_known [OF assms] by (metis (no_types, lifting) set_members_simps(1,4,5,8)
      map_of_delete reg_state.select_convs reg_state.surjective reg_state.update_convs(5))+

lemma Register_full_view:
  assumes inv: "reg_inv A st" and fr: "fresh_tunnel A st t" and r: "Register A t n st = (Some e, st')"
  shows "lookup_tunnel st' = lookup_tunnel st \<and> GetBySessionID st' = GetBySessionID st
    \<and> lookup_tunnel st (tunnel_key st t) = None"
proof -
  have f: "st' = ensured st t"
    "\<And>u. member_of st (ct_Subdomain (rs_tunnels st t)) u \<Longrightarrow> tunnel_ID st u \<noteq> tunnel_ID st t"
    by (rule Register_cases [OF inv fr, of n]; use r in auto)+
  have "lookup_tunnel st' = lookup_tunnel st"
    unfolding f(1)
    by (rule lookup_tunnel_cong [OF inv EnsurePool_inv [OF inv] EnsurePool_member_of [OF inv]]) simp
  with f show ?thesis
    by (auto simp: GetBySessionID_def fun_eq_iff tunnel_key_def lookup_tunnel_None [OF inv])
qed

lemma RemoveBySessionID_view:
  assumes inv: "reg_inv A st" and s: "GetBySessionID st i = Some t"
  shows "lookup_tunnel (RemoveBySessionID i st) = (lookup_tunnel st)(tunnel_key st t := None)
    \<and> GetBySessionID (RemoveBySessionID i st) = (GetBySessionID st)(i := None)"
proof -
  have s': "map_of (rs_bySess st) i = Some t" using s by (simp add: GetBySessionID_def)
  obtain sub where sub: "member_of st sub t" using reg_inv_bySess [OF inv] s' by auto
  then have key: "tunnel_key st t = (sub, tunnel_ID st t)"
    using reg_inv_member [OF inv] by (simp add: tunnel_key_def)
  have "u = t" if "member_of st sub u" "tunnel_ID st u = tunnel_ID st t" for u
    using member_ID_unique [OF inv that(1) sub that(2)] .
  then have "lookup_tunnel (RemoveBySessionID i st) = (lookup_tunnel st)(tunnel_key st t := None)"
    using member_of_unique [OF inv sub]
    by (intro lookup_tunnel_ext [OF inv RemoveBySessionID_inv [OF inv]])
       (auto simp: RemoveBySessionID_member [OF inv s'] RemoveBySessionID_simps [OF inv s'] key lookup_tunnel_iff [OF inv])
  then show ?thesis
    by (simp add: GetBySessionID_def [abs_def] RemoveBySessionID_simps [OF inv s'])
qed

lemma GetBySessionID_iff:
  assumes "reg_inv A st"
  shows "GetBySessionID st i = Some t \<longleftrightarrow> lookup_tunnel st (tunnel_key st t) = Some t \<and> has_sid A st t i"
proof -
  have "(\<exists>sub. member_of st sub t) \<longleftrightarrow> member_of st (ct_Subdomain (rs_tunnels st t)) t"
    using reg_inv_member [OF assms] by blast
  then show ?thesis
    by (simp add: GetBySessionID_def reg_inv_bySess [OF assms] tunnel_key_def lookup_tunnel_iff [OF assms])
qed

interpretation dir: tunnel_directory "reg_inv A" lookup_tunnel GetBySessionID tunnel_key "has_sid A"
  "fresh_tunnel A" "Register A" RemoveBySessionID for A
proof (unfold_locales, rule Register_inv, assumption+, rule Register_ok_view, assumption+,
    rule Register_full_view, assumption+, rule RemoveBySessionID_inv, assumption)
  fix s :: "'a reg_state" and t i k
  show "RemoveBySessionID i s = s" if "GetBySessionID s i = None"
    using that by (simp add: GetBySessionID_def RemoveBySessionID_unknown)
  show "lookup_tunnel (RemoveBySessionID i s) = (lookup_tunnel s)(tunnel_key s t := None)
      \<and> GetBySessionID (RemoveBySessionID i s) = (GetBySessionID s)(i := None)"
    if "reg_inv A s" "GetBySessionID s i = Some t"
    using that by (rule RemoveBySessionID_view)
  show "GetBySessionID s i = Some t \<longleftrightarrow> lookup_tunnel s (tunnel_key s t) = Some t \<and> has_sid A s t i"
    if "reg_inv A s"
    using that by (rule GetBySessionID_iff)
  show "GetBySessionID s i = None" if "fresh_tunnel A s t" "has_sid A s t i"
    using that by (simp add: fresh_tunnel_def GetBySessionID_def)
  show "tunnel_key s t = k" if "reg_inv A s" "lookup_tunnel s k = Some t"
    using that reg_inv_member by (cases k) (auto simp: lookup_tunnel_iff tunnel_key_def)
qed

lemma EnsurePool_known: "sub \<in> set (Subdomains st) \<Longrightarrow> snd (EnsurePool sub st) = st"
  by (auto simp: EnsurePool_def Subdomains_def split: option.splits)
     (metis map_of_eq_None_iff image_eqI fst_conv)

section \<open>The drain loop\<close>

text \<open>The time of the \<open>k\<close>-th loop condition.\<close>

primrec drain_clock :: "(nat \<Rightarrow> duration) \<Rightarrow> int \<Rightarrow> nat \<Rightarrow> int" where
  "drain_clock late now 0 = now"
| "drain_clock late now (Suc k) = drain_clock late now k + 100 * millisecond + late k"

lemma drain_loop_Some:
  "drain_loop late streams deadline (drain_clock late now k) k fuel = Some (r, t) \<Longrightarrow>
   t = drain_clock late now r \<and> k \<le> r \<and> (deadline \<le> t \<or> streams r = 0)
   \<and> (\<forall>j. k \<le> j \<longrightarrow> j < r \<longrightarrow> drain_clock late now j < deadline \<and> streams j \<noteq> 0)"
proof (induction fuel arbitrary: k)
  case (Suc fuel)
  show ?case
    using Suc.prems Suc.IH [of "Suc k"]
    by (auto split: if_splits dest: le_neq_implies_less simp: Suc_le_eq)
qed simp

lemma drain_loop_enough:
  "deadline \<le> drain_clock late now (k + n) \<Longrightarrow> n < fuel \<Longrightarrow>
   \<exists>r t. drain_loop late streams deadline (drain_clock late now k) k fuel = Some (r, t)"
proof (induction fuel arbitrary: k n)
  case (Suc fuel)
  show ?case
  proof (cases n)
    case 0
    with Suc.prems show ?thesis by simp
  next
    case (Suc m)
    with Suc.prems Suc.IH [of "Suc k" m] show ?thesis by simp
  qed
qed simp

lemma clock_progress:
  assumes "\<And>k. 0 \<le> late k"
  shows "now + int n * (100 * millisecond) \<le> drain_clock late now n"
proof (induction n)
  case (Suc n)
  with assms [of n] show ?case by (simp add: algebra_simps)
qed simp

lemma find_append_first: "list_all (\<lambda>u. \<not> P u) us \<Longrightarrow> P t \<Longrightarrow> find P (us @ t # vs) = Some t"
  by (induction us) auto

lemma find_Some_split:
  "find P ms = Some t \<longleftrightarrow> (\<exists>us vs. ms = us @ t # vs \<and> P t \<and> list_all (\<lambda>u. \<not> P u) us)"
proof
  show "find P ms = Some t \<Longrightarrow> \<exists>us vs. ms = us @ t # vs \<and> P t \<and> list_all (\<lambda>u. \<not> P u) us"
  proof (induction ms)
    case (Cons m ms)
    show ?case
    proof (cases "P m")
      case True
      with Cons.prems show ?thesis by (intro exI [of _ "[]"] exI [of _ ms]) simp
    next
      case False
      with Cons obtain us vs where "ms = us @ t # vs \<and> P t \<and> list_all (\<lambda>u. \<not> P u) us" by auto
      with False show ?thesis by (intro exI [of _ "m # us"] exI [of _ vs]) simp
    qed
  qed simp
qed (auto simp: find_append_first)

section \<open>Properties of the registry\<close>

text \<open>
  C4: registering a tunnel in a state that satisfies the registry invariant, with a session ID
  not in use. Either the tunnel becomes the current tunnel of its subdomain and client ID, is
  marked healthy, and every tunnel it replaces is set draining, while no other entry changes; or
  the pool has no member with that client ID and is at its limit, and then neither the directory
  nor the session index changes. The invariant holds again in both cases.
\<close>

theorem Register_contract:
  assumes inv: "reg_inv A st" and fr: "fresh_tunnel A st t"
  shows "reg_inv A (snd (Register A t n st)) \<and>
    (case Register A t n st of
       (None, st') \<Rightarrow>
         lookup_tunnel st' = (lookup_tunnel st)(tunnel_key st t \<mapsto> t)
         \<and> ct_LocalHealthy (rs_tunnels st' t)
         \<and> (\<forall>old. lookup_tunnel st (tunnel_key st t) = Some old \<longrightarrow> ct_Draining (rs_tunnels st' old))
     | (Some _, st') \<Rightarrow>
         lookup_tunnel st' = lookup_tunnel st \<and> rs_bySess st' = rs_bySess st
         \<and> lookup_tunnel st (tunnel_key st t) = None
         \<and> n \<le> int (card {u. member_of st (ct_Subdomain (rs_tunnels st t)) u}))"
proof (rule Register_cases [OF inv fr, of n])
  fix st' assume r: "Register A t n st = (None, st')" and reg: "registered A (ensured st t) t st'"
  have "ct_LocalHealthy (rs_tunnels st' t)" using reg unfolding registered_def by blast
  moreover have "ct_Draining (rs_tunnels st' old)"
    if "lookup_tunnel st (tunnel_key st t) = Some old" for old
    using that registered_draining [OF reg]
    by (simp add: tunnel_key_def lookup_tunnel_iff [OF inv] EnsurePool_member_of [OF inv])
  ultimately show ?thesis
    using dir.register_ok [OF inv fr r] dir.register_inv [OF inv fr, of n] r by simp
next
  assume r: "Register A t n st = (Some ErrPoolFull, ensured st t)"
    and c: "n \<le> int (card {u. member_of st (ct_Subdomain (rs_tunnels st t)) u})"
  show ?thesis
    using dir.register_full [OF inv fr r] dir.register_inv [OF inv fr, of n] r c by simp
qed

text \<open>
  C22: a client that reconnects before its old session is closed keeps its tunnel. Once a new
  tunnel with the same subdomain and client ID is registered, the disconnect of the superseded
  session leaves the registry unchanged.
\<close>

theorem superseded_disconnect_harmless:
  assumes "reg_inv A st" "fresh_tunnel A st t" "Register A t n st = (None, st')"
    and "GetBySessionID st i = Some old" "tunnel_key st old = tunnel_key st t" "old \<noteq> t"
  shows "RemoveBySessionID i st' = st'"
  using assms by (rule dir.superseded_session)

text \<open>
  \<^verbatim>\<open>TunnelPool.Pick\<close> returns the first member in registration order that is alive, locally
  healthy and not draining, and reports no tunnel exactly when no member is.
\<close>

lemma Pool_Pick_first_available:
  "(fst (Pool_Pick A p st) = Some t \<longleftrightarrow>
      (\<exists>us vs. members st p = us @ t # vs \<and> available A st t \<and> list_all (\<lambda>u. \<not> available A st u) us))
   \<and> (fst (Pool_Pick A p st) = None \<longleftrightarrow> list_all (\<lambda>u. \<not> available A st u) (members st p))"
  unfolding Pool_Pick_result firstAvailable_find find_Some_split
  by (auto simp: find_None_iff list_all_iff)

text \<open>
  C23: the goroutine that drains a superseded tunnel ends. If no sleep ends early, that is, each iteration
  takes its 100 ms and possibly more, the loop leaves within one iteration per 100 ms of the timeout, at the
  first check where no stream is active or the deadline has passed, and the tunnel is marked closed then.
\<close>

theorem drain_goroutine_ends:
  assumes "\<And>k. 0 \<le> late k" and "start \<le> now" and "0 < timeout"
  defines "fuel \<equiv> nat (timeout div (100 * millisecond)) + 2"
  shows "\<exists>r t st'. drain_loop late streams (start + timeout) now 0 fuel = Some (r, t)
    \<and> t = drain_clock late now r \<and> (start + timeout \<le> t \<or> streams r = 0)
    \<and> list_all (\<lambda>j. drain_clock late now j < start + timeout \<and> streams j \<noteq> 0) [0..<r]
    \<and> drain_goroutine A old start timeout now late streams fuel st = Some st'
    \<and> ct_Closed (rs_tunnels st' old)"
proof -
  let ?q = "100 * millisecond" and ?n = "nat (timeout div (100 * millisecond)) + 1"
  have "timeout < (timeout div ?q + 1) * ?q" by simp
  also have "timeout div ?q + 1 = int ?n" using assms(3) by simp
  finally have "start + timeout \<le> drain_clock late now ?n"
    using clock_progress [of late now ?n] assms(1,2) by simp
  then obtain r t where r: "drain_loop late streams (start + timeout) (drain_clock late now 0) 0 fuel = Some (r, t)"
    using drain_loop_enough [of "start + timeout" late now 0 ?n fuel streams] unfolding fuel_def by fastforce
  then show ?thesis
    using drain_loop_Some [OF r] by (auto simp: drain_goroutine_def list_all_iff)
qed

lemma collect_Inl: "(\<exists>e. collect f xs = Inl e) \<longleftrightarrow> (\<exists>x\<in>set xs. \<exists>e. f x = Inl e)"
proof (induction xs)
  case (Cons x xs)
  then show ?case by (cases "f x"; cases "collect f xs") auto
qed simp

text \<open>
  The status snapshot panics exactly when some pool member has no session: the session ID is
  read outside the nil check that guards the other session figures.
\<close>

lemma Snapshot_panics_iff:
  "Snapshot A st = Inl NilDereference \<longleftrightarrow>
   (\<exists>(sub, p) \<in> set (rs_byName st). \<exists>t \<in> set (members st p). ct_Session (rs_tunnels st t) = None)"
proof -
  have c: "(\<exists>e. client_status A st t = Inl e) \<longleftrightarrow> ct_Session (rs_tunnels st t) = None" for t
    by (simp add: client_status_def Let_def split: option.splits)
  have b: "bind_result r (\<lambda>x. Inr (g x)) = Inl e \<longleftrightarrow> r = Inl e" for r :: "go_panic + 'y" and g :: "'y \<Rightarrow> 'z" and e
    by (cases r) auto
  have ex: "(\<exists>e. case q of (sub, p) \<Rightarrow> bind_result (collect (client_status A st) (Pool_Members st p))
      (\<lambda>cs. Inr \<lparr>ts_Subdomain = sub, ts_Clients = cs\<rparr>) = Inl e) \<longleftrightarrow>
      (case q of (sub, p) \<Rightarrow> \<exists>t\<in>set (members st p). ct_Session (rs_tunnels st t) = None)" for q
    by (cases q) (simp add: b collect_Inl c Pool_Members_def)
  have n: "r = Inl NilDereference \<longleftrightarrow> (\<exists>e. r = Inl e)" for r :: "go_panic + 'z"
    by (metis go_panic.exhaust)
  show ?thesis
    unfolding n Snapshot_def collect_Inl using ex by (simp add: case_prod_beta)
qed

section \<open>Example values\<close>

text \<open>
  A transport whose state is the sets of closed yamux sessions and closed pollmux sessions, and
  tunnels of one client whose \<open>n\<close>-th connection has session \<open>n\<close>.
\<close>

type_synonym example_ext = "nat set \<times> nat set"

definition example_transport :: "example_ext transport" where
  "example_transport = \<lparr>
     yamux_IsClosed = (\<lambda>x y. y \<in> fst x),
     yamux_Close = (\<lambda>x y. ((insert y (fst x), snd x), None)),
     yamux_Open = (\<lambda>x y. if y \<in> fst x then (x, Inl ''session shutdown'') else (x, Inr 0)),
     session_IsClosed = (\<lambda>x s. s \<in> snd x),
     session_Close = (\<lambda>x s. ((fst x, insert s (snd x)), None)),
     session_ID = (\<lambda>s. ''s'' @ replicate s CHR ''i''),
     session_Meta = (\<lambda>s. [''client_id'' \<mapsto> ''home'', ''subdomain'' \<mapsto> ''app'']),
     session_LastActive = (\<lambda>x s. 0),
     session_PollInFlight = (\<lambda>x s. 1),
     session_HiWater = (\<lambda>x s. (0, 0)),
     session_Resumable = (\<lambda>x s. True),
     session_ResumeDeadline = (\<lambda>x s. None),
     ClientSession = (\<lambda>x s. (x, Inr s))\<rparr>"

definition example_heap :: "tunnel_ptr \<Rightarrow> ClientTunnel" where
  "example_heap t = \<lparr>
     ct_ID = ''home'', ct_Subdomain = ''app'', ct_Session = Some t, ct_Yamux = Some t,
     ct_ConnectedAt = 0, ct_RemoteAddr = '''', ct_LocalHealthy = False, ct_Draining = False,
     ct_Closed = False, ct_ActiveStreams = 0\<rparr>"

definition example_reg :: "example_ext reg_state" where
  "example_reg = NewRegistry 0 example_heap ({}, {})"

definition example_reg1 :: "example_ext reg_state" where
  "example_reg1 = snd (Register example_transport 0 1 example_reg)"

lemmas reg_exec =
  Register_def EnsurePool_def new_pool_def register_in_def drop_session_def Pool_ByID_def Pool_Add_def
  upd_tunnel_def set_members_def beginSupersedeDrain_def NewRegistry_def Let_def
  example_transport_def example_heap_def example_reg_def

lemma example_reg_ok: "reg_inv example_transport example_reg" "fresh_tunnel example_transport example_reg t"
  unfolding example_reg_def
  by (rule reg_inv_new) (simp add: fresh_tunnel_def member_of_def named_def NewRegistry_def example_heap_def)

lemma example_reg1_ok:
  "reg_inv example_transport example_reg1" "fresh_tunnel example_transport example_reg1 1"
  "GetBySessionID example_reg1 ''s'' = Some 0" "tunnel_key example_reg1 0 = tunnel_key example_reg1 1"
proof -
  show "reg_inv example_transport example_reg1"
    unfolding example_reg1_def by (rule Register_inv [OF example_reg_ok])
qed (simp_all add: example_reg1_def fresh_tunnel_def member_of_def named_def has_sid_def
      GetBySessionID_def tunnel_key_def reg_exec)

lemma example_Register1: "fst (Register example_transport 1 1 example_reg1) = None"
  by (simp add: example_reg1_def reg_exec)

theorem Register_contract_witness:
  "reg_inv example_transport (snd (Register example_transport 1 1 example_reg1))"
  using Register_contract [OF example_reg1_ok(1,2), of 1] by simp

theorem superseded_disconnect_harmless_witness:
  "RemoveBySessionID ''s'' (snd (Register example_transport 1 1 example_reg1)) =
   snd (Register example_transport 1 1 example_reg1)"
  by (rule superseded_disconnect_harmless [where n = 1, OF example_reg1_ok(1,2) _ example_reg1_ok(3,4)])
     (simp_all add: example_Register1 [unfolded One_nat_def] prod_eq_iff)

theorem drain_goroutine_ends_witness:
  "\<exists>r. drain_loop (\<lambda>k. 7) (\<lambda>k. 3) (0 + 250 * millisecond) 5 0
        (nat (250 * millisecond div (100 * millisecond)) + 2) = Some r"
  using drain_goroutine_ends [of "\<lambda>k. 7" 0 5 "250 * millisecond" "\<lambda>k. 3" example_transport 0 example_reg]
  by fastforce

end
