(* ===== verification/Router.thy ===== *)
theory Router
  imports Config_Load Registry "HOL-Library.Multiset"
begin

text \<open>
  Routing of public requests: \<^verbatim>\<open>internal/router/host.go\<close> (from the Host header to a host key, and
  the certificate policy) and \<^verbatim>\<open>route.go\<close> (the table of path prefixes of each host). The table is
  sorted with \<^verbatim>\<open>sort.Slice\<close>, which is documented to sort by the given comparison and not to be
  stable: it is the parameter \<open>srt\<close>, and the locale \<open>route_sorter\<close> states what is documented. The main
  results: host keys are lower-case single labels and round-trip through \<^verbatim>\<open>FQDN\<close>; \<^verbatim>\<open>Match\<close> returns
  the longest matching prefix among the bindings of the host; for a validated configuration the
  answer does not depend on how ties are sorted.
\<close>

section \<open>host.go\<close>

datatype router_error = ErrRootMismatch | ErrNestedSubdomain | ErrNoRoute

definition stripPort :: "string \<Rightarrow> string" where
  "stripPort host = (case SplitHostPort host of None \<Rightarrow> host | Some h \<Rightarrow> h)"

definition HostKey :: "string \<Rightarrow> string \<Rightarrow> router_error + string" where
  "HostKey host rootDomain =
     (let host = stripPort host;
          rootDomain = ToLower (TrimSpace rootDomain);
          host = ToLower host
      in if host = rootDomain then Inr ''@''
         else let suffix = ''.'' @ rootDomain
         in if \<not> HasSuffix host suffix then Inl ErrRootMismatch
            else let sub = TrimSuffix host suffix
            in if sub = '''' then Inr ''@''
               else if Contains sub ''.'' then Inl ErrNestedSubdomain
               else Inr sub)"

fun allowed_loop :: "string \<Rightarrow> string \<Rightarrow> string \<Rightarrow> string list \<Rightarrow> bool" where
  "allowed_loop host root key [] = False"
| "allowed_loop host root key (sub # subs) =
     (if sub \<noteq> key then allowed_loop host root key subs
      else if key = ''@'' then host = root
      else host = sub @ ''.'' @ root)"

definition AllowedHosts :: "string list \<Rightarrow> string \<Rightarrow> string \<Rightarrow> bool" where
  "AllowedHosts subdomains root host =
     (let host = stripPort (ToLower host);
          root = ToLower root
      in case HostKey host root of
           Inl _ \<Rightarrow> False
         | Inr key \<Rightarrow> allowed_loop host root key subdomains)"

text \<open>The host policy returns nil or the error that names the host.\<close>

datatype policy_error = HostNotAllowed string

definition HostPolicyFunc :: "string list \<Rightarrow> string \<Rightarrow> string \<Rightarrow> policy_error option" where
  "HostPolicyFunc subdomains root host =
     (if AllowedHosts subdomains root host then None else Some (HostNotAllowed host))"

definition FQDN :: "string \<Rightarrow> string \<Rightarrow> string" where
  "FQDN hostKey rootDomain =
     (if hostKey = ''@'' then rootDomain else hostKey @ ''.'' @ rootDomain)"

section \<open>route.go\<close>

record Route =
  rt_HostKey :: string
  rt_PathPrefix :: string
  rt_Strip :: bool
  rt_Pool :: pool_ptr

type_synonym route_table = "(string \<times> Route list) list"

definition NormalizePathPrefix :: "string \<Rightarrow> string" where
  "NormalizePathPrefix p =
     (if p = '''' then ''''
      else let cleaned = Clean p
           in if cleaned = ''/'' then ''/'' else TrimSuffix cleaned ''/'')"

definition StripPathPrefix :: "string \<Rightarrow> string \<Rightarrow> string \<times> bool" where
  "StripPathPrefix pathStr pfx =
     (let pfx = NormalizePathPrefix pfx
      in if pfx = '''' then (pathStr, True)
         else if pfx = ''/'' then (pathStr, True)
         else if pathStr = pfx then (''/'', True)
         else if HasPrefix pathStr (pfx @ ''/'') then (drop (length pfx) pathStr, True)
         else (pathStr, False))"

fun build_routes ::
  "ClientBinding list \<Rightarrow> route_table \<Rightarrow> 'x reg_state \<Rightarrow> route_table \<times> 'x reg_state" where
  "build_routes [] byHost reg = (byHost, reg)"
| "build_routes (b # bs) byHost reg =
     (let (pool, reg) = EnsurePool (cb_Subdomain b) reg;
          routes = (case map_of byHost (cb_Subdomain b) of None \<Rightarrow> [] | Some hr \<Rightarrow> hr);
          route = \<lparr>rt_HostKey = cb_Subdomain b,
                   rt_PathPrefix = NormalizePathPrefix (cb_PathPrefix b),
                   rt_Strip = cb_StripPrefix b,
                   rt_Pool = pool\<rparr>
      in build_routes bs (AList.update (cb_Subdomain b) (routes @ [route]) byHost) reg)"

text \<open>
  \<^verbatim>\<open>sort.Slice\<close> with a comparison of elements, and the comparison that the routes of a host are sorted by: the longer
  prefix comes first.
\<close>

type_synonym sort_slice = "(Route \<Rightarrow> Route \<Rightarrow> bool) \<Rightarrow> Route list \<Rightarrow> Route list"

definition longer_prefix :: "Route \<Rightarrow> Route \<Rightarrow> bool" where
  "longer_prefix r s \<longleftrightarrow> length (rt_PathPrefix s) < length (rt_PathPrefix r)"

definition NewRouteTable ::
  "sort_slice \<Rightarrow> ClientBinding list \<Rightarrow> 'x reg_state \<Rightarrow> route_table \<times> 'x reg_state"
where
  "NewRouteTable srt bindings reg =
     (let (byHost, reg) = build_routes bindings [] reg
      in (map (\<lambda>(h, rs). (h, srt longer_prefix rs)) byHost, reg))"

fun match_loop :: "string \<Rightarrow> Route option \<Rightarrow> Route list \<Rightarrow> Route option" where
  "match_loop cleanPath fallback [] = fallback"
| "match_loop cleanPath fallback (r # rs) =
     (if rt_PathPrefix r = '''' then match_loop cleanPath (Some r) rs
      else if rt_PathPrefix r = ''/'' \<or> cleanPath = rt_PathPrefix r
              \<or> HasPrefix cleanPath (rt_PathPrefix r @ ''/'') then Some r
      else match_loop cleanPath fallback rs)"

definition Match :: "route_table \<Rightarrow> string \<Rightarrow> string \<Rightarrow> router_error + Route" where
  "Match t hostKey pathStr =
     (case map_of t hostKey of
        None \<Rightarrow> Inl ErrNoRoute
      | Some routes \<Rightarrow>
          (case match_loop (Clean pathStr) None routes of
             Some r \<Rightarrow> Inr r
           | None \<Rightarrow> Inl ErrNoRoute))"

definition HostKeys :: "route_table \<Rightarrow> string list" where
  "HostKeys t = map fst t"

fun binding_host_keys :: "string list \<Rightarrow> string list \<Rightarrow> ClientBinding list \<Rightarrow> string list" where
  "binding_host_keys seen out [] = out"
| "binding_host_keys seen out (b # bs) =
     (if cb_Subdomain b \<in> set seen then binding_host_keys seen out bs
      else binding_host_keys (cb_Subdomain b # seen) (out @ [cb_Subdomain b]) bs)"

definition BindingHostKeys :: "ClientBinding list \<Rightarrow> string list" where
  "BindingHostKeys bindings = binding_host_keys [] [] bindings"

definition PublicHost :: "string \<Rightarrow> string \<Rightarrow> string" where
  "PublicHost hostKey rootDomain = FQDN hostKey rootDomain"

definition error_text :: "router_error \<Rightarrow> string" where
  "error_text e = (case e of
      ErrRootMismatch \<Rightarrow> ''host does not belong to root domain''
    | ErrNestedSubdomain \<Rightarrow> ''nested subdomains are not supported''
    | ErrNoRoute \<Rightarrow> ''no route for host/path'')"

definition MatchError :: "router_error option \<Rightarrow> string" where
  "MatchError err = (case err of None \<Rightarrow> '''' | Some e \<Rightarrow> error_text e)"

section \<open>Host keys\<close>

text \<open>A host label as DNS has it: lower case, without dots, colons, brackets.\<close>

definition host_label :: "string \<Rightarrow> bool" where
  "host_label k \<longleftrightarrow> k \<noteq> '''' \<and> CHR ''.'' \<notin> set k \<and> plain_host k \<and> ToLower k = k"

definition root_name :: "string \<Rightarrow> bool" where
  "root_name r \<longleftrightarrow> r \<noteq> '''' \<and> plain_host r \<and> ToLower r = r \<and> TrimSpace r = r"

lemma stripPort_plain: "plain_host h \<Longrightarrow> stripPort h = h"
  by (simp add: stripPort_def SplitHostPort_none plain_host_def)

lemma stripPort_port: "plain_host h \<Longrightarrow> plain_host q \<Longrightarrow> stripPort (h @ '':'' @ q) = h"
  using SplitHostPort_port [of h q] by (simp add: stripPort_def)

lemma HostKey_cases:
  "HostKey host root =
     (let h = ToLower (stripPort host); r = ToLower (TrimSpace root)
      in if h = r \<or> h = ''.'' @ r then Inr ''@''
         else if \<exists>sub. h = sub @ ''.'' @ r
              then (let sub = take (length h - Suc (length r)) h
                    in if CHR ''.'' \<in> set sub then Inl ErrNestedSubdomain else Inr sub)
         else Inl ErrRootMismatch)"
proof -
  define h r where "h = ToLower (stripPort host)" and "r = ToLower (TrimSpace root)"
  have "HasSuffix h (''.'' @ r) \<longleftrightarrow> (\<exists>sub. h = sub @ ''.'' @ r)"
    by (simp add: go_string suffix_def)
  moreover have "TrimSuffix h (''.'' @ r) = take (length h - Suc (length r)) h"
    if "\<exists>sub. h = sub @ ''.'' @ r"
    using that by (auto simp: TrimSuffix_def)
  moreover have "take (length h - Suc (length r)) h = '''' \<longleftrightarrow> h = ''.'' @ r"
    if "\<exists>sub. h = sub @ ''.'' @ r"
    using that by auto
  ultimately show ?thesis
    unfolding HostKey_def Let_def h_def [symmetric] r_def [symmetric]
    by (auto simp: Contains_char)
qed

lemma HostKey_Inr:
  assumes "HostKey host root = Inr key"
  shows "key \<noteq> '''' \<and> CHR ''.'' \<notin> set key \<and> ToLower key = key
    \<and> (ToLower (stripPort host) = FQDN key (ToLower (TrimSpace root))
       \<or> key = ''@'' \<and> ToLower (stripPort host) \<in> {''.'' @ ToLower (TrimSpace root),
                                                 ''@.'' @ ToLower (TrimSpace root)})"
proof -
  define h r where "h = ToLower (stripPort host)" and "r = ToLower (TrimSpace root)"
  note k = assms [unfolded HostKey_cases Let_def, folded h_def r_def]
  have at: "ToLower ''@'' = ''@''" by (simp add: ToLower_def lower_char_def)
  show ?thesis
  proof (cases "h = r \<or> h = ''.'' @ r")
    case True
    with k have "key = ''@''" by simp
    with True show ?thesis unfolding h_def [symmetric] r_def [symmetric]
      by (auto simp: at FQDN_def)
  next
    case False
    with k obtain sub where sub: "h = sub @ ''.'' @ r"
      and key: "key = sub" "CHR ''.'' \<notin> set sub" "sub \<noteq> ''''"
      by (auto split: if_splits)
    have "ToLower h = h" by (simp add: h_def)
    then have "ToLower key = key" using sub key(1) by (simp add: ToLower_def)
    with sub key show ?thesis unfolding h_def [symmetric] r_def [symmetric] by (auto simp: FQDN_def)
  qed
qed

lemma lower_at [simp]: "ToLower ''@'' = ''@''" "ToLower ''.'' = ''.''"
  by (simp_all add: ToLower_def lower_char_def)

lemma HostKey_plain:
  assumes "root_name root" "host_label key \<or> key = ''@''" "stripPort host = FQDN key root"
  shows "HostKey host root = Inr key"
proof -
  have r: "ToLower (TrimSpace root) = root" using assms(1) by (simp add: root_name_def)
  show ?thesis
  proof (cases "key = ''@''")
    case True
    then show ?thesis
      using assms(1,3) r by (simp add: HostKey_cases FQDN_def root_name_def Let_def)
  next
    case False
    with assms have h: "ToLower (stripPort host) = key @ ''.'' @ root" and k: "host_label key"
      using ToLower_append [of key "''.'' @ root"] ToLower_append [of "''.''" root] r
      by (simp_all add: FQDN_def host_label_def root_name_def)
    have "key @ ''.'' @ root \<noteq> root" "key @ ''.'' @ root \<noteq> ''.'' @ root"
      using k by (auto simp: host_label_def)
    then show ?thesis
      using h k r unfolding HostKey_cases by (simp add: host_label_def Let_def)
  qed
qed

lemma plain_host_append [simp]: "plain_host (a @ b) \<longleftrightarrow> plain_host a \<and> plain_host b"
  by (auto simp: plain_host_def)

lemma plain_host_FQDN: "root_name root \<Longrightarrow> host_label key \<or> key = ''@'' \<Longrightarrow> plain_host (FQDN key root)"
  by (auto simp: FQDN_def root_name_def host_label_def plain_host_def)

lemma allowed_loop_iff:
  "allowed_loop host root key subs \<longleftrightarrow> key \<in> set subs \<and> host = FQDN key root"
  by (induction subs) (auto simp: FQDN_def)

lemma FQDN_lower:
  "root_name root \<Longrightarrow> host_label key \<or> key = ''@'' \<Longrightarrow> ToLower (FQDN key root) = FQDN key root"
  using ToLower_append [of key "''.'' @ root"] ToLower_append [of "''.''" root]
  by (auto simp: FQDN_def root_name_def host_label_def)

section \<open>Route tables\<close>

lemma NormalizePathPrefix_eq: "NormalizePathPrefix = normalizePathPrefix"
  by (rule ext) (simp add: NormalizePathPrefix_def normalizePathPrefix_def)

text \<open>
  What \<^verbatim>\<open>sort.Slice\<close> is documented to do: it permutes, and if the comparison is a strict weak order, no element is
  less than one before it.
\<close>

definition strict_weak :: "('a \<Rightarrow> 'a \<Rightarrow> bool) \<Rightarrow> bool" where
  "strict_weak lt \<longleftrightarrow> (\<forall>a b. lt a b \<longrightarrow> \<not> lt b a) \<and> (\<forall>a b c. lt a c \<longrightarrow> lt a b \<or> lt b c)"

locale route_sorter =
  fixes srt :: sort_slice
  assumes srt_mset: "mset (srt lt rs) = mset rs"
    and srt_sorted: "strict_weak lt \<Longrightarrow> sorted_wrt (\<lambda>a b. \<not> lt b a) (srt lt rs)"
begin

lemma srt_set [simp]: "set (srt lt rs) = set rs"
  by (metis set_mset_mset srt_mset)

lemma longest_first:
  "sorted_wrt (\<lambda>a b. length (rt_PathPrefix b) \<le> length (rt_PathPrefix a)) (srt longer_prefix rs)"
proof -
  have "strict_weak longer_prefix"
    by (auto simp: strict_weak_def longer_prefix_def)
  from srt_sorted [OF this, of rs] show ?thesis
    by (simp add: longer_prefix_def not_less)
qed

end

text \<open>
  For slices of at most twelve elements Go's implementation is an insertion sort, which is stable.
\<close>

fun insert_route :: "('a \<Rightarrow> 'a \<Rightarrow> bool) \<Rightarrow> 'a \<Rightarrow> 'a list \<Rightarrow> 'a list" where
  "insert_route lt r [] = [r]"
| "insert_route lt r (s # rs) = (if lt s r then s # insert_route lt r rs else r # s # rs)"

definition sort_routes :: sort_slice where
  "sort_routes lt rs = foldr (insert_route lt) rs []"

lemma mset_insert_route [simp]: "mset (insert_route lt r rs) = add_mset r (mset rs)"
  by (induction rs) auto

lemma set_insert_route [simp]: "set (insert_route lt r rs) = insert r (set rs)"
  by (metis mset_insert_route set_mset_add_mset_insert set_mset_mset)

lemma sorted_insert_route:
  assumes "strict_weak lt" "sorted_wrt (\<lambda>a b. \<not> lt b a) rs"
  shows "sorted_wrt (\<lambda>a b. \<not> lt b a) (insert_route lt r rs)"
  using assms(2)
proof (induction rs)
  case (Cons s rs)
  have order: "lt a b \<Longrightarrow> \<not> lt b a" "lt a c \<Longrightarrow> lt a b \<or> lt b c" for a b c
    using assms(1) unfolding strict_weak_def by blast+
  show ?case
    using Cons by (auto dest: order)
qed simp

interpretation ins: route_sorter sort_routes
proof unfold_locales
  fix lt and rs :: "Route list"
  show "mset (sort_routes lt rs) = mset rs"
    by (induction rs) (simp_all add: sort_routes_def)
  show "sorted_wrt (\<lambda>a b. \<not> lt b a) (sort_routes lt rs)" if "strict_weak lt"
    using sorted_insert_route [OF that] by (induction rs) (simp_all add: sort_routes_def)
qed

definition route_matches :: "string \<Rightarrow> Route \<Rightarrow> bool" where
  "route_matches cp r \<longleftrightarrow>
     rt_PathPrefix r = '''' \<or> rt_PathPrefix r = ''/'' \<or> under_path cp (rt_PathPrefix r)"

lemma match_loop_sound:
  "match_loop cp fb rs = Some r \<Longrightarrow> fb = Some r \<or> r \<in> set rs \<and> route_matches cp r"
  by (induction cp fb rs rule: match_loop.induct)
     (auto simp: route_matches_def under_path_def split: if_splits)

lemma match_loop_None: "match_loop cp fb rs = None \<longleftrightarrow> fb = None \<and> (\<forall>r\<in>set rs. \<not> route_matches cp r)"
  by (induction cp fb rs rule: match_loop.induct)
     (auto simp: route_matches_def under_path_def)

lemma match_loop_longest:
  assumes "sorted_wrt (\<lambda>a b. length (rt_PathPrefix b) \<le> length (rt_PathPrefix a)) rs"
    and "match_loop cp fb rs = Some r" and "fb = Some f \<Longrightarrow> rt_PathPrefix f = ''''"
    and "r' \<in> set rs" "route_matches cp r'"
  shows "length (rt_PathPrefix r') \<le> length (rt_PathPrefix r)"
  using assms
proof (induction cp fb rs rule: match_loop.induct)
  case (2 cp fb r0 rs)
  show ?case
  proof (cases "rt_PathPrefix r0 = ''''")
    case True
    then have "\<forall>r\<in>set (r0 # rs). rt_PathPrefix r = ''''" using "2.prems"(1) by auto
    with "2.prems"(4) show ?thesis by auto
  next
    case False
    then show ?thesis using 2 by (auto simp: route_matches_def under_path_def split: if_splits)
  qed
qed simp

text \<open>The pool of a subdomain, once made, keeps its address.\<close>

lemma EnsurePool_keeps:
  "map_of (rs_byName st) s = Some p \<Longrightarrow> map_of (rs_byName (snd (EnsurePool sub st))) s = Some p"
  by (auto simp: EnsurePool_def new_pool_def Let_def split: option.splits)

lemma build_routes_keeps:
  "map_of (rs_byName st) s = Some p \<Longrightarrow> map_of (rs_byName (snd (build_routes bs bh st))) s = Some p"
proof (induction bs arbitrary: bh st)
  case (Cons b bs)
  then show ?case by (simp add: case_prod_beta Let_def EnsurePool_keeps)
qed simp

lemma build_routes_has_pool:
  "b \<in> set bs \<Longrightarrow> map_of (rs_byName (snd (build_routes bs bh st))) (cb_Subdomain b) \<noteq> None"
proof (induction bs arbitrary: bh st)
  case (Cons c bs)
  show ?case
  proof (cases "b = c")
    case True
    have "map_of (rs_byName (snd (EnsurePool (cb_Subdomain c) st))) (cb_Subdomain c)
      = Some (fst (EnsurePool (cb_Subdomain c) st))"
      using EnsurePool_named [of "cb_Subdomain c" st] by (simp add: named_def)
    from build_routes_keeps [OF this] show ?thesis by (simp add: True case_prod_beta Let_def)
  next
    case False
    with Cons show ?thesis by (simp add: case_prod_beta Let_def)
  qed
qed simp

lemma build_routes_inv: "reg_inv A st \<Longrightarrow> reg_inv A (snd (build_routes bs bh st))"
proof (induction bs arbitrary: bh st)
  case (Cons b bs)
  then show ?case by (simp add: case_prod_beta Let_def EnsurePool_inv)
qed simp

definition route_of :: "'x reg_state \<Rightarrow> ClientBinding \<Rightarrow> Route" where
  "route_of st b = \<lparr>rt_HostKey = cb_Subdomain b,
     rt_PathPrefix = NormalizePathPrefix (cb_PathPrefix b),
     rt_Strip = cb_StripPrefix b,
     rt_Pool = the (map_of (rs_byName st) (cb_Subdomain b))\<rparr>"

definition host_bindings :: "string \<Rightarrow> ClientBinding list \<Rightarrow> ClientBinding list" where
  "host_bindings h bs = filter (\<lambda>b. cb_Subdomain b = h) bs"

lemma build_routes_table:
  "map_of (fst (build_routes bs bh st)) h =
     (let rs = map (route_of (snd (build_routes bs bh st))) (host_bindings h bs)
      in case map_of bh h of
           Some rs0 \<Rightarrow> Some (rs0 @ rs)
         | None \<Rightarrow> if rs = [] then None else Some rs)"
proof (induction bs arbitrary: bh st)
  case Nil
  then show ?case by (simp add: host_bindings_def split: option.splits)
next
  case (Cons b bs)
  define pr where "pr = EnsurePool (cb_Subdomain b) st"
  have n: "map_of (rs_byName (snd pr)) (cb_Subdomain b) = Some (fst pr)"
    using EnsurePool_named [of "cb_Subdomain b" st] by (simp add: named_def pr_def)
  define bh' where "bh' = AList.update (cb_Subdomain b)
     ((case map_of bh (cb_Subdomain b) of None \<Rightarrow> [] | Some hr \<Rightarrow> hr) @
      [\<lparr>rt_HostKey = cb_Subdomain b, rt_PathPrefix = NormalizePathPrefix (cb_PathPrefix b),
        rt_Strip = cb_StripPrefix b, rt_Pool = fst pr\<rparr>]) bh"
  have b: "build_routes (b # bs) bh st = build_routes bs bh' (snd pr)"
    by (simp add: pr_def bh'_def case_prod_beta Let_def)
  have "route_of (snd (build_routes bs bh' (snd pr))) b =
     \<lparr>rt_HostKey = cb_Subdomain b, rt_PathPrefix = NormalizePathPrefix (cb_PathPrefix b),
        rt_Strip = cb_StripPrefix b, rt_Pool = fst pr\<rparr>"
    by (simp add: route_of_def build_routes_keeps [OF n])
  then show ?case
    unfolding b Cons.IH [of bh' "snd pr"]
    by (auto simp: bh'_def host_bindings_def Let_def split: option.splits)
qed

lemma NewRouteTable_snd: "snd (NewRouteTable srt bs st) = snd (build_routes bs [] st)"
  by (simp add: NewRouteTable_def case_prod_beta)

lemma map_of_map_snd: "map_of (map (\<lambda>(h, rs). (h, f rs)) t) h = map_option f (map_of t h)"
  by (induction t) auto

lemma NewRouteTable_entry:
  "map_of (fst (NewRouteTable srt bs st)) h =
     (if host_bindings h bs = [] then None
      else Some (srt longer_prefix (map (route_of (snd (NewRouteTable srt bs st))) (host_bindings h bs))))"
  by (simp add: NewRouteTable_def case_prod_beta map_of_map_snd build_routes_table Let_def)

section \<open>Properties of the router\<close>

definition binding_matches :: "string \<Rightarrow> ClientBinding \<Rightarrow> bool" where
  "binding_matches cp b \<longleftrightarrow>
     (let pp = NormalizePathPrefix (cb_PathPrefix b)
      in pp = '''' \<or> pp = ''/'' \<or> under_path cp pp)"

lemma route_of_prefix [simp]: "rt_PathPrefix (route_of st b) = NormalizePathPrefix (cb_PathPrefix b)"
  by (simp add: route_of_def)

lemma route_matches_route_of [simp]: "route_matches cp (route_of st b) \<longleftrightarrow> binding_matches cp b"
  by (simp add: route_matches_def binding_matches_def Let_def)

text \<open>The specification of a routing decision: a matching binding of the host with the longest prefix.\<close>

definition best_binding :: "ClientBinding list \<Rightarrow> string \<Rightarrow> string \<Rightarrow> ClientBinding \<Rightarrow> bool" where
  "best_binding bs h cp b \<longleftrightarrow>
     b \<in> set (host_bindings h bs) \<and> binding_matches cp b
     \<and> list_all (\<lambda>b'. binding_matches cp b' \<longrightarrow>
          length (NormalizePathPrefix (cb_PathPrefix b'))
            \<le> length (NormalizePathPrefix (cb_PathPrefix b))) (host_bindings h bs)"

context route_sorter
begin

lemma match_best:
  "case Match (fst (NewRouteTable srt bs st)) h p of
     Inr r \<Rightarrow> \<exists>b. best_binding bs h (Clean p) b \<and> r = route_of (snd (NewRouteTable srt bs st)) b
   | Inl e \<Rightarrow> e = ErrNoRoute \<and> list_all (\<lambda>b. \<not> binding_matches (Clean p) b) (host_bindings h bs)"
proof -
  define rs where "rs = map (route_of (snd (NewRouteTable srt bs st))) (host_bindings h bs)"
  show ?thesis
  proof (cases "match_loop (Clean p) None (srt longer_prefix rs)")
    case None
    then have "\<forall>r\<in>set rs. \<not> route_matches (Clean p) r" by (simp add: match_loop_None)
    with None show ?thesis
      by (auto simp: Match_def NewRouteTable_entry rs_def list_all_iff)
  next
    case (Some r)
    then have "r \<in> set rs" "route_matches (Clean p) r"
      using match_loop_sound by fastforce+
    then obtain b where b: "b \<in> set (host_bindings h bs)"
      "r = route_of (snd (NewRouteTable srt bs st)) b" "binding_matches (Clean p) b"
      by (auto simp: rs_def)
    have "length (rt_PathPrefix r') \<le> length (rt_PathPrefix r)"
      if "r' \<in> set rs" "route_matches (Clean p) r'" for r'
      using match_loop_longest [OF longest_first Some] that by simp
    then have "best_binding bs h (Clean p) b"
      using b by (fastforce simp: best_binding_def list_all_iff rs_def)
    with Some b show ?thesis
      by (auto simp: Match_def NewRouteTable_entry rs_def)
  qed
qed

end

lemma NormalizePathPrefix_empty [simp]: "NormalizePathPrefix '''' = ''''"
  by (simp add: NormalizePathPrefix_def)

lemma normalized_length_1:
  "rooted p \<Longrightarrow> length (NormalizePathPrefix p) \<le> 1 \<Longrightarrow> NormalizePathPrefix p = ''/''"
  using rootedE [OF clean_absD(2) [OF normalizePathPrefix_clean_abs [of p]]]
  by (auto simp: NormalizePathPrefix_eq)

text \<open>The bindings of a validated configuration never tie.\<close>

lemma best_binding_unique:
  assumes ok: "bindings_ok bs" and b: "best_binding bs h cp b" and b': "best_binding bs h cp b'"
  shows "b = b'"
proof -
  let ?n = "\<lambda>b. NormalizePathPrefix (cb_PathPrefix b)"
  have in_bs: "b \<in> set bs" "b' \<in> set bs" "cb_Subdomain b = cb_Subdomain b'"
    and m: "binding_matches cp b" "binding_matches cp b'" and len: "length (?n b) = length (?n b')"
    using b b' by (fastforce simp: best_binding_def host_bindings_def list_all_iff)+
  have r: "cb_PathPrefix c = '''' \<or> rooted (cb_PathPrefix c)" if "c \<in> set bs" for c
    using ok that by (auto simp: bindings_ok_def list_all_iff binding_ok_def)
  have short: "?n c \<in> {'''', ''/''}" if "c \<in> set bs" "length (?n c) \<le> 1" for c
    using r [OF that(1)]
  proof
    assume "cb_PathPrefix c = ''''"
    then show ?thesis by simp
  next
    assume "rooted (cb_PathPrefix c)"
    then show ?thesis using normalized_length_1 that(2) by blast
  qed
  have "?n b = ?n b'"
  proof (cases "length (?n b) \<le> 1")
    case True
    then show ?thesis using short [OF in_bs(1)] short [OF in_bs(2)] len by auto
  next
    case False
    then have "under_path cp (?n b)" "under_path cp (?n b')"
      using m len by (auto simp: binding_matches_def Let_def)
    then show ?thesis
      using under_path_comparable under_path_antisym len by (metis order_refl)
  qed
  then have "routeKey b = routeKey b'"
    using in_bs(3) by (simp add: routeKey_def NormalizePathPrefix_eq)
  with ok in_bs show ?thesis by (auto simp: bindings_ok_def distinct_map dest: inj_onD)
qed

text \<open>
  C5: \<^verbatim>\<open>RouteTable.Match\<close> on a table built by \<^verbatim>\<open>NewRouteTable\<close>: the route returned is that of a
  binding of the host whose normalised prefix is empty, is \<^verbatim>\<open>/\<close>, or is the cleaned request path or
  an ancestor of it by whole elements, and no other such binding of the host has a longer prefix;
  \<^verbatim>\<open>ErrNoRoute\<close> is returned exactly when no binding of the host matches.
\<close>

theorem Match_longest_prefix:
  assumes "route_sorter srt"
  shows "case Match (fst (NewRouteTable srt bs st)) h p of
     Inr r \<Rightarrow> \<exists>b. best_binding bs h (Clean p) b \<and> r = route_of (snd (NewRouteTable srt bs st)) b
   | Inl e \<Rightarrow> e = ErrNoRoute \<and> list_all (\<lambda>b. \<not> binding_matches (Clean p) b) (host_bindings h bs)"
  using assms by (rule route_sorter.match_best)

text \<open>
  C35: for the bindings of a validated configuration the routing decision does not depend on how
  the unstable \<^verbatim>\<open>sort.Slice\<close> orders prefixes of equal length.
\<close>

theorem Match_sort_independent:
  assumes "route_sorter srt" "route_sorter srt'" "bindings_ok bs"
  shows "Match (fst (NewRouteTable srt bs st)) h p = Match (fst (NewRouteTable srt' bs st)) h p"
proof -
  have s: "snd (NewRouteTable srt bs st) = snd (NewRouteTable srt' bs st)"
    by (simp add: NewRouteTable_def case_prod_beta)
  show ?thesis
    using route_sorter.match_best [OF assms(1), where bs = bs and st = st and h = h and p = p]
      route_sorter.match_best [OF assms(2), where bs = bs and st = st and h = h and p = p] best_binding_unique [OF assms(3)] s
    by (cases "Match (fst (NewRouteTable srt bs st)) h p";
        cases "Match (fst (NewRouteTable srt' bs st)) h p")
       (auto simp: best_binding_def list_all_iff)
qed

text \<open>
  C36: a host key and \<^verbatim>\<open>FQDN\<close> are inverse: the public name of a lower-case label without dots (or of
  the apex \<^verbatim>\<open>@\<close>) under a root domain, with or without a port, has that label as its host key.
\<close>

theorem HostKey_FQDN:
  assumes "root_name root" "host_label key \<or> key = ''@''" "plain_host port"
  shows "HostKey (FQDN key root) root = Inr key \<and> HostKey (FQDN key root @ '':'' @ port) root = Inr key"
  using HostKey_plain [OF assms(1,2)] plain_host_FQDN [OF assms(1,2)] assms(3)
  by (simp add: stripPort_plain stripPort_port del: append_Cons append.simps)

text \<open>
  Every host key is a nonempty lower-case label without dots, and the host is its public name
  under the root domain, except that the apex key also stands for the malformed hosts that consist
  of a dot or of \<^verbatim>\<open>@.\<close> and the root domain. A nested subdomain or a foreign domain never yields a key.
\<close>

lemma HostKey_label:
  assumes "HostKey host root = Inr key"
  shows "key \<noteq> '''' \<and> CHR ''.'' \<notin> set key \<and> ToLower key = key
    \<and> (ToLower (stripPort host) = FQDN key (ToLower (TrimSpace root))
       \<or> key = ''@'' \<and> ToLower (stripPort host) \<in> {''.'' @ ToLower (TrimSpace root),
                                                 ''@.'' @ ToLower (TrimSpace root)})"
  using assms by (rule HostKey_Inr)

text \<open>
  The certificate policy admits only public names of registered keys, and it admits the public name of every
  registered key that is a label.
\<close>

lemma AllowedHosts_iff:
  "AllowedHosts subs root host \<longleftrightarrow>
     (\<exists>k\<in>set subs. HostKey (stripPort (ToLower host)) (ToLower root) = Inr k \<and>
        stripPort (ToLower host) = FQDN k (ToLower root))"
  by (auto simp: AllowedHosts_def allowed_loop_iff Let_def split: sum.splits)

lemma HostPolicy_sound:
  "HostPolicyFunc subs root host = None \<Longrightarrow> stripPort (ToLower host) \<in> (\<lambda>k. FQDN k (ToLower root)) ` set subs"
  by (auto simp: HostPolicyFunc_def AllowedHosts_iff split: if_splits)

lemma HostPolicy_complete:
  assumes "root_name root" "host_label k \<or> k = ''@''" "k \<in> set subs" "stripPort (ToLower host) = FQDN k root"
  shows "HostPolicyFunc subs root host = None"
proof -
  have root: "ToLower root = root"
    using assms(1) by (simp add: root_name_def)
  have "HostKey (FQDN k root) root = Inr k"
    using HostKey_plain [OF assms(1,2)] stripPort_plain [OF plain_host_FQDN [OF assms(1,2)]] by simp
  with assms(3,4) root show ?thesis
    by (auto simp: HostPolicyFunc_def AllowedHosts_iff)
qed

text \<open>
  \<^verbatim>\<open>StripPathPrefix\<close> with a rooted prefix other than \<^verbatim>\<open>/\<close> succeeds exactly on paths at or below the
  prefix; the result is a rooted path, and the prefix followed by the result is the given path (the
  prefix itself becomes \<^verbatim>\<open>/\<close>). On failure the path is returned unchanged.
\<close>

lemma StripPathPrefix_roundtrip:
  assumes "rooted pfx" "Clean pfx \<noteq> ''/''"
  shows "case StripPathPrefix p pfx of
     (q, True) \<Rightarrow> under_path p (Clean pfx) \<and> rooted q
        \<and> (p = Clean pfx @ q \<or> p = Clean pfx \<and> q = ''/'')
   | (q, False) \<Rightarrow> \<not> under_path p (Clean pfx) \<and> q = p"
proof -
  have n: "NormalizePathPrefix pfx = Clean pfx" "Clean pfx \<noteq> ''''"
    using assms normalizePathPrefix_rooted [of pfx] rootedE [of "Clean pfx"]
    by (auto simp: NormalizePathPrefix_eq)
  show ?thesis
  proof (cases "under_path p (Clean pfx)")
    case True
    then show ?thesis
      using assms n
      by (cases rule: under_path_cases) (auto simp: StripPathPrefix_def Let_def go_string)
  next
    case False
    then show ?thesis using assms n by (simp add: StripPathPrefix_def Let_def under_path_def)
  qed
qed

lemma Match_named:
  assumes "route_sorter srt" "NewRouteTable srt bs st = (tbl, st')" "Match tbl h p = Inr r"
  shows "Pool st' h = Some (rt_Pool r) \<and> rt_HostKey r = h"
proof -
  have st': "st' = snd (build_routes bs [] st)" using assms(2) NewRouteTable_snd by (metis snd_conv)
  obtain b where b: "b \<in> set (host_bindings h bs)" "r = route_of st' b"
    using route_sorter.match_best [OF assms(1), where bs = bs and st = st and h = h and p = p]
      assms(2,3) by (auto simp: best_binding_def)
  then have "Pool st' h \<noteq> None"
    using build_routes_has_pool [of b bs "[]" st] by (auto simp: st' Pool_def host_bindings_def)
  with b show ?thesis by (auto simp: route_of_def Pool_def host_bindings_def)
qed

text \<open>
  A matched route leads to the tunnel pool that the registry holds for the host key, whatever
  the path: all bindings of one subdomain, of different clients too, share one pool. Building the
  table keeps the registry invariant and every pool that already existed.
\<close>

lemma Match_pool_of_host:
  assumes "route_sorter srt" "reg_inv A st"
    and "NewRouteTable srt bs st = (tbl, st')" "Match tbl h p = Inr r"
  shows "Pool st' h = Some (rt_Pool r) \<and> rt_HostKey r = h \<and> reg_inv A st'
    \<and> (\<forall>s q. Pool st s = Some q \<longrightarrow> Pool st' s = Some q)"
proof -
  have st': "st' = snd (build_routes bs [] st)" using assms(3) NewRouteTable_snd by (metis snd_conv)
  then show ?thesis
    using Match_named [OF assms(1,3,4)] build_routes_inv [OF assms(2)] build_routes_keeps
    by (auto simp: Pool_def)
qed

section \<open>Witnesses\<close>

definition example_bindings :: "ClientBinding list" where
  "example_bindings =
     [example_binding,
      example_binding\<lparr>cb_ClientID := ''auth'', cb_PathPrefix := ''/service/auth'', cb_StripPrefix := True,
        cb_Token := ''fedcba9876543210fedcba9876543210''\<rparr>]"

definition example_table :: route_table where
  "example_table = fst (NewRouteTable sort_routes example_bindings example_reg)"

lemma example_bindings_ok: "bindings_ok example_bindings"
  by code_simp

theorem Match_longest_prefix_witness:
  "Match example_table ''app'' ''/service/auth/login'' =
     Inr \<lparr>rt_HostKey = ''app'', rt_PathPrefix = ''/service/auth'', rt_Strip = True, rt_Pool = 0\<rparr>
   \<and> (\<exists>b. best_binding example_bindings ''app'' (Clean ''/service/auth/login'') b)"
proof -
  have m: "Match example_table ''app'' ''/service/auth/login'' =
     Inr \<lparr>rt_HostKey = ''app'', rt_PathPrefix = ''/service/auth'', rt_Strip = True, rt_Pool = 0\<rparr>"
    by code_simp
  show ?thesis
    using Match_longest_prefix [OF ins.route_sorter_axioms, where bs = example_bindings and st = example_reg and h = "''app''"
        and p = "''/service/auth/login''"] m
    by (auto simp: example_table_def)
qed

text \<open>A sort that is not stable: ties come out in reverse order.\<close>

definition unstable_sort :: sort_slice where
  "unstable_sort lt rs = sort_routes lt (rev rs)"

interpretation uns: route_sorter unstable_sort
  by unfold_locales (simp_all add: unstable_sort_def ins.srt_mset ins.srt_sorted)

theorem Match_sort_independent_witness:
  "Match (fst (NewRouteTable sort_routes example_bindings example_reg)) ''app'' ''/x'' =
   Match (fst (NewRouteTable unstable_sort example_bindings example_reg)) ''app'' ''/x''
   \<and> bindings_ok example_bindings"
  using Match_sort_independent [OF ins.route_sorter_axioms uns.route_sorter_axioms example_bindings_ok]
    example_bindings_ok by blast

theorem HostKey_FQDN_witness:
  "HostKey ''app.example.com'' ''example.com'' = Inr ''app''
   \<and> HostKey ''app.example.com:8443'' ''example.com'' = Inr ''app''"
proof -
  have "root_name ''example.com''" "host_label ''app''" "plain_host ''8443''" by code_simp+
  then show ?thesis
    using HostKey_FQDN [of "''example.com''" "''app''" "''8443''"] by (simp add: FQDN_def)
qed

end
