(* ===== verification/Go_Url.thy ===== *)
theory Go_Url
  imports Go_Path
begin

text \<open>
  What HttpHop uses of the package \<^verbatim>\<open>net/url\<close> of the Go standard library (release 1.25): percent
  encoding, \<^verbatim>\<open>url.Parse\<close>, \<^verbatim>\<open>URL.String\<close>, \<^verbatim>\<open>URL.EscapedPath\<close> and \<^verbatim>\<open>URL.RequestURI\<close>. A string is a list of bytes
  (\<^typ>\<open>char\<close>); an error is \<^const>\<open>None\<close>, as the callers only ask whether there was one. The lemmas
  show that decoding inverts encoding and that parsing and printing a plain absolute URL are
  inverse.
\<close>

section \<open>Percent encoding\<close>

datatype encoding = encodePath | encodeHost | encodeZone | encodeUserPassword | encodeFragment

abbreviation byte :: "char \<Rightarrow> nat" where "byte c \<equiv> of_char c"

definition is_digit :: "char \<Rightarrow> bool" where
  "is_digit c \<longleftrightarrow> 48 \<le> byte c \<and> byte c \<le> 57"

definition is_letter :: "char \<Rightarrow> bool" where
  "is_letter c \<longleftrightarrow> 97 \<le> byte c \<and> byte c \<le> 122 \<or> 65 \<le> byte c \<and> byte c \<le> 90"

definition shouldEscape :: "char \<Rightarrow> encoding \<Rightarrow> bool" where
  "shouldEscape c mode =
     (if is_letter c \<or> is_digit c then False
      else if mode \<in> {encodeHost, encodeZone} \<and> c \<in> set ''!$&'' \<union> {CHR 0x27} \<union> set ''()*+,;=:[]<>'' \<union> {CHR 0x22}
           then False
      else if c \<in> set ''-_.~'' then False
      else if c \<in> set ''$&+,/:;=?@'' \<and> mode = encodePath then c = CHR ''?''
      else if c \<in> set ''$&+,/:;=?@'' \<and> mode = encodeUserPassword then c \<in> set ''@/?:''
      else if c \<in> set ''$&+,/:;=?@'' \<and> mode = encodeFragment then False
      else if mode = encodeFragment \<and> c \<in> set ''!()*'' then False
      else True)"

definition ishex :: "char \<Rightarrow> bool" where
  "ishex c \<longleftrightarrow> is_digit c \<or> 97 \<le> byte c \<and> byte c \<le> 102 \<or> 65 \<le> byte c \<and> byte c \<le> 70"

definition unhex :: "char \<Rightarrow> nat" where
  "unhex c =
     (if is_digit c then byte c - 48
      else if 97 \<le> byte c \<and> byte c \<le> 102 then byte c - 97 + 10
      else if 65 \<le> byte c \<and> byte c \<le> 70 then byte c - 65 + 10
      else 0)"

definition upperhex :: "nat \<Rightarrow> char" where
  "upperhex n = (if n < 10 then char_of (48 + n) else char_of (55 + n))"

definition escape :: "string \<Rightarrow> encoding \<Rightarrow> string" where
  "escape s mode =
     concat (map (\<lambda>c. if shouldEscape c mode
                       then [CHR ''%'', upperhex (byte c div 16), upperhex (byte c mod 16)]
                       else [c]) s)"

definition bad_triple :: "encoding \<Rightarrow> char \<Rightarrow> char \<Rightarrow> bool" where
  "bad_triple mode a b \<longleftrightarrow>
     \<not> ishex a \<or> \<not> ishex b
     \<or> mode = encodeHost \<and> unhex a < 8 \<and> [a, b] \<noteq> ''25''
     \<or> mode = encodeZone \<and> [a, b] \<noteq> ''25'' \<and> 16 * unhex a + unhex b \<noteq> 32
        \<and> shouldEscape (char_of (16 * unhex a + unhex b)) encodeHost"

fun unescape :: "encoding \<Rightarrow> string \<Rightarrow> string option" where
  "unescape mode [] = Some []"
| "unescape mode (c # s) =
     (if c = CHR ''%'' then
        (case s of
           a # b # r \<Rightarrow>
             if bad_triple mode a b then None
             else map_option ((#) (char_of (16 * unhex a + unhex b))) (unescape mode r)
         | _ \<Rightarrow> None)
      else if mode \<in> {encodeHost, encodeZone} \<and> byte c < 128 \<and> shouldEscape c mode then None
      else map_option ((#) c) (unescape mode s))"

definition validEncoded :: "string \<Rightarrow> encoding \<Rightarrow> bool" where
  "validEncoded s mode \<longleftrightarrow>
     list_all (\<lambda>c. c \<in> set ''!$&'' \<union> {CHR 0x27} \<union> set ''()*+,;=:@[]%'' \<or> \<not> shouldEscape c mode) s"

section \<open>URLs\<close>

record URL =
  url_Scheme :: string
  url_Opaque :: string
  url_User :: "(string \<times> string option) option"
  url_Host :: string
  url_Path :: string
  url_RawPath :: string
  url_OmitHost :: bool
  url_ForceQuery :: bool
  url_RawQuery :: string
  url_Fragment :: string
  url_RawFragment :: string

definition empty_URL :: URL where
  "empty_URL = \<lparr>url_Scheme = '''', url_Opaque = '''', url_User = None, url_Host = '''', url_Path = '''',
     url_RawPath = '''', url_OmitHost = False, url_ForceQuery = False, url_RawQuery = '''',
     url_Fragment = '''', url_RawFragment = ''''\<rparr>"

definition Cut :: "string \<Rightarrow> char \<Rightarrow> string \<times> string" where
  "Cut s c = (takeWhile (\<lambda>x. x \<noteq> c) s, drop 1 (dropWhile (\<lambda>x. x \<noteq> c) s))"

text \<open>The scheme and the rest; \<^const>\<open>None\<close> when the colon comes first.\<close>

fun scheme_loop :: "string \<Rightarrow> string \<Rightarrow> string \<Rightarrow> (string \<times> string) option" where
  "scheme_loop rawURL seen [] = Some ('''', rawURL)"
| "scheme_loop rawURL seen (c # s) =
     (if is_letter c then scheme_loop rawURL (seen @ [c]) s
      else if is_digit c \<or> c \<in> set ''+-.'' then
        (if seen = '''' then Some ('''', rawURL) else scheme_loop rawURL (seen @ [c]) s)
      else if c = CHR '':'' then (if seen = '''' then None else Some (seen, s))
      else Some ('''', rawURL))"

definition getScheme :: "string \<Rightarrow> (string \<times> string) option" where
  "getScheme rawURL = scheme_loop rawURL '''' rawURL"

definition validOptionalPort :: "string \<Rightarrow> bool" where
  "validOptionalPort port =
     (case port of [] \<Rightarrow> True | c # ds \<Rightarrow> c = CHR '':'' \<and> list_all is_digit ds)"

fun find_zone :: "string \<Rightarrow> string \<Rightarrow> (string \<times> string) option" where
  "find_zone seen [] = None"
| "find_zone seen (c # s) =
     (if HasPrefix (c # s) ''%25'' then Some (seen, c # s) else find_zone (seen @ [c]) s)"

definition parseHost :: "string \<Rightarrow> string option" where
  "parseHost host =
     (if HasPrefix host ''['' then
        (case before_last CHR '']'' host of
           None \<Rightarrow> None
         | Some inner \<Rightarrow>
             let rest = drop (length inner) host
             in if \<not> validOptionalPort (drop 1 rest) then None
                else (case find_zone '''' inner of
                        Some (h1, h2) \<Rightarrow>
                          (case (unescape encodeHost h1, unescape encodeZone h2, unescape encodeHost rest) of
                             (Some a, Some b, Some c) \<Rightarrow> Some (a @ b @ c)
                           | _ \<Rightarrow> None)
                      | None \<Rightarrow> unescape encodeHost host))
      else (case before_last CHR '':'' host of
              Some h \<Rightarrow> if \<not> validOptionalPort (drop (length h) host) then None
                         else unescape encodeHost host
            | None \<Rightarrow> unescape encodeHost host))"

definition validUserinfo :: "string \<Rightarrow> bool" where
  "validUserinfo s \<longleftrightarrow>
     list_all (\<lambda>c. is_letter c \<or> is_digit c \<or> c \<in> set ''-._:~!$&'' \<union> {CHR 0x27} \<union> set ''()*+,;=%@'') s"

definition parseAuthority :: "string \<Rightarrow> ((string \<times> string option) option \<times> string) option" where
  "parseAuthority authority =
     (case before_last CHR ''@'' authority of
        None \<Rightarrow> map_option (Pair None) (parseHost authority)
      | Some userinfo \<Rightarrow>
          (case parseHost (drop (Suc (length userinfo)) authority) of
             None \<Rightarrow> None
           | Some host \<Rightarrow>
               if \<not> validUserinfo userinfo then None
               else if CHR '':'' \<notin> set userinfo then
                 (case unescape encodeUserPassword userinfo of
                    None \<Rightarrow> None | Some u \<Rightarrow> Some (Some (u, None), host))
               else (case (unescape encodeUserPassword (fst (Cut userinfo CHR '':'')),
                           unescape encodeUserPassword (snd (Cut userinfo CHR '':''))) of
                       (Some u, Some p) \<Rightarrow> Some (Some (u, Some p), host)
                     | _ \<Rightarrow> None)))"

definition setPath :: "string \<Rightarrow> URL \<Rightarrow> URL option" where
  "setPath p u =
     (case unescape encodePath p of
        None \<Rightarrow> None
      | Some path \<Rightarrow>
          Some (u\<lparr>url_Path := path,
                  url_RawPath := (if p = escape path encodePath then '''' else p)\<rparr>))"

definition setFragment :: "string \<Rightarrow> URL \<Rightarrow> URL option" where
  "setFragment f u =
     (case unescape encodeFragment f of
        None \<Rightarrow> None
      | Some frag \<Rightarrow>
          Some (u\<lparr>url_Fragment := frag,
                  url_RawFragment := (if f = escape frag encodeFragment then '''' else f)\<rparr>))"

definition stringContainsCTLByte :: "string \<Rightarrow> bool" where
  "stringContainsCTLByte s \<longleftrightarrow> list_ex (\<lambda>c. byte c < 32 \<or> byte c = 127) s"

definition parse_rest :: "string \<Rightarrow> URL \<Rightarrow> URL option" where
  "parse_rest rest u =
     (if \<not> HasPrefix rest ''/'' \<and> url_Scheme u \<noteq> '''' then Some (u\<lparr>url_Opaque := rest\<rparr>)
      else if \<not> HasPrefix rest ''/'' \<and> CHR '':'' \<in> set (fst (Cut rest CHR ''/'')) then None
      else if (url_Scheme u \<noteq> '''' \<or> \<not> HasPrefix rest ''///'') \<and> HasPrefix rest ''//'' then
        (let authority = takeWhile (\<lambda>c. c \<noteq> CHR ''/'') (drop 2 rest);
             path = dropWhile (\<lambda>c. c \<noteq> CHR ''/'') (drop 2 rest)
         in case parseAuthority authority of
              None \<Rightarrow> None
            | Some (user, host) \<Rightarrow> setPath path (u\<lparr>url_User := user, url_Host := host\<rparr>))
      else if url_Scheme u \<noteq> '''' \<and> HasPrefix rest ''/'' then setPath rest (u\<lparr>url_OmitHost := True\<rparr>)
      else setPath rest u)"

definition parse_url :: "string \<Rightarrow> URL option" where
  "parse_url rawURL =
     (if stringContainsCTLByte rawURL then None
      else if rawURL = ''*'' then Some (empty_URL\<lparr>url_Path := ''*''\<rparr>)
      else case getScheme rawURL of
             None \<Rightarrow> None
           | Some (scheme, rest) \<Rightarrow>
               let u = empty_URL\<lparr>url_Scheme := ToLower scheme\<rparr>
               in if HasSuffix rest ''?'' \<and> count_list rest CHR ''?'' = 1
                  then parse_rest (butlast rest) (u\<lparr>url_ForceQuery := True\<rparr>)
                  else parse_rest (fst (Cut rest CHR ''?''))
                         (u\<lparr>url_RawQuery := snd (Cut rest CHR ''?'')\<rparr>))"

definition Parse :: "string \<Rightarrow> URL option" where
  "Parse rawURL =
     (let (u, frag) = Cut rawURL CHR ''#''
      in case parse_url u of
           None \<Rightarrow> None
         | Some url \<Rightarrow> if frag = '''' then Some url else setFragment frag url)"

definition EscapedPath :: "URL \<Rightarrow> string" where
  "EscapedPath u =
     (if url_RawPath u \<noteq> '''' \<and> validEncoded (url_RawPath u) encodePath
         \<and> unescape encodePath (url_RawPath u) = Some (url_Path u)
      then url_RawPath u
      else if url_Path u = ''*'' then ''*''
      else escape (url_Path u) encodePath)"

definition EscapedFragment :: "URL \<Rightarrow> string" where
  "EscapedFragment u =
     (if url_RawFragment u \<noteq> '''' \<and> validEncoded (url_RawFragment u) encodeFragment
         \<and> unescape encodeFragment (url_RawFragment u) = Some (url_Fragment u)
      then url_RawFragment u
      else escape (url_Fragment u) encodeFragment)"

definition Userinfo_String :: "string \<times> string option \<Rightarrow> string" where
  "Userinfo_String ui =
     escape (fst ui) encodeUserPassword
     @ (case snd ui of None \<Rightarrow> '''' | Some pw \<Rightarrow> '':'' @ escape pw encodeUserPassword)"

definition authority_String :: "URL \<Rightarrow> string" where
  "authority_String u =
     (if url_Scheme u \<noteq> '''' \<or> url_Host u \<noteq> '''' \<or> url_User u \<noteq> None then
        (if url_OmitHost u \<and> url_Host u = '''' \<and> url_User u = None then ''''
         else (if url_Host u \<noteq> '''' \<or> url_Path u \<noteq> '''' \<or> url_User u \<noteq> None then ''//'' else '''')
              @ (case url_User u of None \<Rightarrow> '''' | Some ui \<Rightarrow> Userinfo_String ui @ ''@'')
              @ escape (url_Host u) encodeHost)
      else '''')"

definition URL_String :: "URL \<Rightarrow> string" where
  "URL_String u =
     (let buf = (if url_Scheme u \<noteq> '''' then url_Scheme u @ '':'' else '''');
          buf = (if url_Opaque u \<noteq> '''' then buf @ url_Opaque u
                 else let buf = buf @ authority_String u;
                          path = EscapedPath u;
                          buf = (if path \<noteq> '''' \<and> \<not> HasPrefix path ''/'' \<and> url_Host u \<noteq> ''''
                                 then buf @ ''/'' else buf);
                          buf = (if buf = '''' \<and> CHR '':'' \<in> set (fst (Cut path CHR ''/''))
                                 then buf @ ''./'' else buf)
                      in buf @ path);
          buf = (if url_ForceQuery u \<or> url_RawQuery u \<noteq> '''' then buf @ ''?'' @ url_RawQuery u else buf)
      in if url_Fragment u \<noteq> '''' then buf @ ''#'' @ EscapedFragment u else buf)"

definition RequestURI :: "URL \<Rightarrow> string" where
  "RequestURI u =
     (let result =
            (if url_Opaque u = '''' then (if EscapedPath u = '''' then ''/'' else EscapedPath u)
             else if HasPrefix (url_Opaque u) ''//'' then url_Scheme u @ '':'' @ url_Opaque u
             else url_Opaque u)
      in if url_ForceQuery u \<or> url_RawQuery u \<noteq> '''' then result @ ''?'' @ url_RawQuery u else result)"

section \<open>Decoding inverts encoding\<close>

lemma byte_lt_256: "byte c < 256"
  by simp

lemma byte_eqI: "byte c = byte d \<Longrightarrow> c = d"
  by simp

lemma ishex_upperhex [simp]: "n < 16 \<Longrightarrow> ishex (upperhex n)"
  by (auto simp: ishex_def is_digit_def upperhex_def)

lemma unhex_upperhex [simp]: "n < 16 \<Longrightarrow> unhex (upperhex n) = n"
  by (auto simp: unhex_def is_digit_def upperhex_def)

lemma percent_escaped: "shouldEscape CHR ''%'' mode"
  by (cases mode) (simp_all add: shouldEscape_def is_letter_def is_digit_def)

lemma escape_Nil [simp]: "escape [] mode = []"
  by (simp add: escape_def)

lemma escape_Cons:
  "escape (c # s) mode =
     (if shouldEscape c mode then [CHR ''%'', upperhex (byte c div 16), upperhex (byte c mod 16)]
      else [c]) @ escape s mode"
  by (simp add: escape_def)

lemma escape_id: "list_all (\<lambda>c. \<not> shouldEscape c mode) s \<Longrightarrow> escape s mode = s"
  by (induction s) (auto simp: escape_Cons)

lemma unescape_escape:
  assumes "mode \<notin> {encodeHost, encodeZone}"
  shows "unescape mode (escape s mode) = Some s"
proof (induction s)
  case (Cons c s)
  have h: "byte c div 16 < 16" "byte c mod 16 < 16" using byte_lt_256 [of c] by linarith+
  then have t: "\<not> bad_triple mode (upperhex (byte c div 16)) (upperhex (byte c mod 16))"
    using assms by (auto simp: bad_triple_def)
  have v: "16 * (byte c div 16) + byte c mod 16 = byte c" by simp
  show ?case
  proof (cases "shouldEscape c mode")
    case True
    then show ?thesis using Cons t h v assms by (simp add: escape_Cons)
  next
    case False
    then have "c \<noteq> CHR ''%''" using percent_escaped by metis
    then show ?thesis using Cons False assms by (simp add: escape_Cons)
  qed
qed simp

lemma unescape_id:
  "list_all (\<lambda>c. \<not> shouldEscape c mode) s \<Longrightarrow> unescape mode s = Some s"
  by (induction s) (auto simp: percent_escaped)

section \<open>Plain absolute URLs\<close>

definition plain_path :: "string \<Rightarrow> bool" where
  "plain_path p \<longleftrightarrow> rooted p \<and> list_all (\<lambda>c. \<not> shouldEscape c encodePath) p"

definition plain_authority :: "string \<Rightarrow> bool" where
  "plain_authority h \<longleftrightarrow>
     h \<noteq> '''' \<and> list_all (\<lambda>c. \<not> shouldEscape c encodeHost) h \<and> parseHost h = Some h"

definition plain_scheme :: "string \<Rightarrow> bool" where
  "plain_scheme s \<longleftrightarrow> s \<noteq> '''' \<and> list_all is_letter s \<and> ToLower s = s"

definition plain_query :: "string \<Rightarrow> bool" where
  "plain_query q \<longleftrightarrow> list_all (\<lambda>c. 32 \<le> byte c \<and> byte c \<noteq> 127 \<and> c \<noteq> CHR ''#'') q"

definition query_suffix :: "string \<Rightarrow> string" where
  "query_suffix q = (if q = '''' then '''' else CHR ''?'' # q)"

text \<open>The bytes that a plain URL cannot have in a path or a host.\<close>

definition url_break :: "char \<Rightarrow> bool" where
  "url_break c \<longleftrightarrow> byte c \<le> 32 \<or> byte c = 127 \<or> c \<in> set ''?#''"

lemma break_not_alnum: "url_break c \<Longrightarrow> \<not> is_letter c \<and> \<not> is_digit c"
  by (auto simp: url_break_def is_letter_def is_digit_def)

lemma break_not_punct: "url_break c \<Longrightarrow> c \<notin> set ''-_.~$&+,/:;=@!()*[]<>'' \<union> {CHR 0x22, CHR 0x27}"
  by (auto simp: url_break_def)

lemma unescaped_path: "\<not> shouldEscape c encodePath \<Longrightarrow> \<not> url_break c"
proof -
  have "url_break c \<Longrightarrow> shouldEscape c encodePath"
    using break_not_alnum [of c] break_not_punct [of c] by (simp add: shouldEscape_def)
  then show "\<not> shouldEscape c encodePath \<Longrightarrow> \<not> url_break c" by blast
qed

lemma unescaped_host: "\<not> shouldEscape c encodeHost \<Longrightarrow> \<not> url_break c \<and> c \<noteq> CHR ''/'' \<and> c \<noteq> CHR ''@''"
proof -
  assume a: "\<not> shouldEscape c encodeHost"
  have "shouldEscape CHR ''/'' encodeHost" "shouldEscape CHR ''@'' encodeHost"
    by (simp_all add: shouldEscape_def is_letter_def is_digit_def)
  moreover have "url_break c \<Longrightarrow> shouldEscape c encodeHost"
    using break_not_alnum [of c] break_not_punct [of c] by (simp add: shouldEscape_def)
  ultimately show ?thesis using a by metis
qed

lemma Cut_append: "c \<notin> set a \<Longrightarrow> Cut (a @ c # b) c = (a, b)"
  by (induction a) (auto simp: Cut_def)

lemma Cut_none: "c \<notin> set a \<Longrightarrow> Cut a c = (a, '''')"
  by (induction a) (auto simp: Cut_def)

lemma getScheme_loop:
  "list_all is_letter s \<Longrightarrow> seen @ s \<noteq> '''' \<Longrightarrow>
   scheme_loop raw seen (s @ CHR '':'' # r) = Some (seen @ s, r)"
  by (induction s arbitrary: seen) (auto simp: is_letter_def is_digit_def)

lemma Cut_query_suffix: "CHR ''?'' \<notin> set a \<Longrightarrow> Cut (a @ query_suffix q) CHR ''?'' = (a, q)"
  by (simp add: query_suffix_def Cut_append Cut_none)

lemma query_not_forced:
  "CHR ''?'' \<notin> set a \<Longrightarrow>
   \<not> (HasSuffix (a @ query_suffix q) ''?'' \<and> count_list (a @ query_suffix q) CHR ''?'' = 1)"
proof (cases q rule: rev_cases)
  case Nil
  assume "CHR ''?'' \<notin> set a"
  with Nil show ?thesis by (simp add: query_suffix_def count_list_0_iff)
next
  case (snoc q' c)
  assume "CHR ''?'' \<notin> set a"
  with snoc show ?thesis by (auto simp: query_suffix_def go_string suffix_def)
qed

lemma plain_chars:
  assumes "plain_scheme s" "plain_authority h" "plain_path p"
  shows "\<forall>c\<in>set p. \<not> url_break c" "\<forall>c\<in>set h. \<not> url_break c \<and> c \<noteq> CHR ''/'' \<and> c \<noteq> CHR ''@''"
    "\<forall>c\<in>set s. \<not> url_break c"
proof -
  show "\<forall>c\<in>set p. \<not> url_break c"
    using assms(3) unescaped_path by (auto simp: plain_path_def list_all_iff)
  show "\<forall>c\<in>set h. \<not> url_break c \<and> c \<noteq> CHR ''/'' \<and> c \<noteq> CHR ''@''"
    using assms(2) unescaped_host unfolding plain_authority_def list_all_iff by blast
  show "\<forall>c\<in>set s. \<not> url_break c"
    using assms(1) break_not_alnum by (auto simp: plain_scheme_def list_all_iff)
qed

lemma plain_printable:
  assumes "plain_scheme s" "plain_authority h" "plain_path p" "plain_query q"
    and "c \<in> set (s @ ''://'' @ h @ p @ query_suffix q)"
  shows "32 \<le> byte c \<and> byte c \<noteq> 127 \<and> c \<noteq> CHR ''#''"
proof -
  have q: "\<forall>c\<in>set q. 32 \<le> byte c \<and> byte c \<noteq> 127 \<and> c \<noteq> CHR ''#''"
    using assms(4) by (auto simp: plain_query_def list_all_iff)
  have "\<not> url_break CHR '':''" "\<not> url_break CHR ''/''"
    by (simp_all add: url_break_def)
  then consider "\<not> url_break c" | "c = CHR ''?''" | "c \<in> set q"
    using assms(5) plain_chars [OF assms(1-3)] by (auto simp: query_suffix_def split: if_splits)
  then show ?thesis
    by cases (use q in \<open>auto simp: url_break_def\<close>)
qed

lemma parse_rest_plain:
  assumes "plain_scheme s" "plain_authority h" "plain_path p" "url_Scheme u \<noteq> ''''"
  shows "parse_rest (''//'' @ h @ p) u =
    Some (u\<lparr>url_User := None, url_Host := h, url_Path := p, url_RawPath := ''''\<rparr>)"
proof -
  note H = plain_chars(2) [OF assms(1-3)]
  obtain p' where p': "p = CHR ''/'' # p'" using assms(3) rootedE by (auto simp: plain_path_def)
  have "\<forall>c\<in>set h. c \<noteq> CHR ''/''" using H by auto
  then have "takeWhile (\<lambda>c. c \<noteq> CHR ''/'') (h @ p) = h" "dropWhile (\<lambda>c. c \<noteq> CHR ''/'') (h @ p) = p"
    by (simp_all add: p' takeWhile_append2 dropWhile_append2)
  moreover have "before_last CHR ''@'' h = None" by (rule before_last_None) (use H in auto)
  then have "parseAuthority h = Some (None, h)"
    using assms(2) by (simp add: parseAuthority_def plain_authority_def)
  moreover have "setPath p u = Some (u\<lparr>url_Path := p, url_RawPath := ''''\<rparr>)" for u
    using assms(3) by (simp add: setPath_def unescape_id escape_id plain_path_def)
  ultimately show ?thesis
    using assms(4) by (simp add: parse_rest_def Let_def HasPrefix_def)
qed

lemma Parse_plain:
  assumes "plain_scheme s" "plain_authority h" "plain_path p" "plain_query q"
  shows "Parse (s @ ''://'' @ h @ p @ query_suffix q) =
    Some (empty_URL\<lparr>url_Scheme := s, url_RawQuery := q, url_Host := h, url_Path := p\<rparr>)"
proof -
  let ?raw = "s @ ''://'' @ h @ p @ query_suffix q" and ?rest = "(''//'' @ h @ p) @ query_suffix q"
  note all = plain_printable [OF assms]
  have cut: "Cut ?raw CHR ''#'' = (?raw, '''')"
    by (rule Cut_none) (use all in blast)
  have ctl: "\<not> stringContainsCTLByte ?raw"
    using all unfolding stringContainsCTLByte_def list_ex_iff by (meson not_less)
  have scheme: "getScheme ?raw = Some (s, ?rest)"
    using getScheme_loop [of s "''''" ?raw ?rest] assms(1) by (simp add: getScheme_def plain_scheme_def)
  have "url_break CHR ''?''" by (simp add: url_break_def)
  then have nq: "CHR ''?'' \<notin> set (''//'' @ h @ p)" using plain_chars [OF assms(1-3)] by auto
  have "ToLower s = s" "s \<noteq> ''''" using assms(1) by (auto simp: plain_scheme_def)
  moreover have "?raw \<noteq> ''*''" using assms(1) by (cases s) (auto simp: plain_scheme_def)
  ultimately have "parse_url ?raw = Some (empty_URL\<lparr>url_Scheme := s, url_RawQuery := q, url_Host := h, url_Path := p\<rparr>)"
    unfolding parse_url_def
    using ctl scheme query_not_forced [OF nq, of q] Cut_query_suffix [OF nq, of q] parse_rest_plain [OF assms(1-3)]
    by (auto simp add: Let_def empty_URL_def simp del: append_Cons append_assoc)
  then show ?thesis using cut by (simp add: Parse_def)
qed

lemma String_plain:
  assumes "plain_scheme s" "plain_authority h" "plain_path p"
  shows "URL_String (empty_URL\<lparr>url_Scheme := s, url_RawQuery := q, url_Host := h, url_Path := p\<rparr>) =
    s @ ''://'' @ h @ p @ query_suffix q"
proof -
  obtain p' where p': "p = CHR ''/'' # p'" using assms(3) rootedE by (auto simp: plain_path_def)
  have "escape p encodePath = p" "escape h encodeHost = h"
    using assms by (simp_all add: escape_id plain_path_def plain_authority_def)
  moreover have "s \<noteq> ''''" "h \<noteq> ''''" using assms by (auto simp: plain_scheme_def plain_authority_def)
  ultimately show ?thesis
    by (simp add: URL_String_def authority_String_def EscapedPath_def empty_URL_def p' query_suffix_def
        HasPrefix_def Let_def)
qed

end
