(* ===== verification/Go_Http.thy ===== *)
theory Go_Http
  imports Go_Url "HOL-Library.Word"
begin

text \<open>
  Requests and headers of \<^verbatim>\<open>net/http\<close>, as far as the handlers read them, and the escaping that
  \<^verbatim>\<open>http.Redirect\<close> applies to its target.
\<close>

unbundle bit_operations_syntax

section \<open>HTTP headers\<close>

text \<open>
  A \<^verbatim>\<open>http.Header\<close> maps canonical names to lists of values; a name that is absent has the empty
  list. The names that occur in the sources are constants in canonical form.
\<close>

type_synonym Header = "string \<Rightarrow> string list"

definition Header_Get :: "Header \<Rightarrow> string \<Rightarrow> string" where
  "Header_Get h k = (case h k of [] \<Rightarrow> '''' | v # _ \<Rightarrow> v)"

definition Header_Set :: "string \<Rightarrow> string \<Rightarrow> Header \<Rightarrow> Header" where
  "Header_Set k v h = h(k := [v])"

definition Header_Add :: "string \<Rightarrow> string \<Rightarrow> Header \<Rightarrow> Header" where
  "Header_Add k v h = h(k := h k @ [v])"

definition Header_Del :: "string \<Rightarrow> Header \<Rightarrow> Header" where
  "Header_Del k h = h(k := [])"

lemma fold_Header_Add:
  "fold (\<lambda>c. Header_Add k (f c)) cs h = h(k := h k @ map f cs)"
  by (induction cs arbitrary: h) (auto simp: Header_Add_def)

lemma Header_Get_Set [simp]: "Header_Get (Header_Set k v h) k' = (if k' = k then v else Header_Get h k')"
  by (simp add: Header_Get_def Header_Set_def)

section \<open>Requests\<close>

text \<open>\<^verbatim>\<open>rq_TLS\<close> tells whether the connection the request came on is a TLS connection.\<close>

record Request =
  rq_Method :: string
  rq_Host :: string
  rq_URL :: URL
  rq_Header :: Header
  rq_RemoteAddr :: string
  rq_TLS :: bool

abbreviation StatusOK :: int where "StatusOK \<equiv> 200"
abbreviation StatusMovedPermanently :: int where "StatusMovedPermanently \<equiv> 301"
abbreviation StatusBadRequest :: int where "StatusBadRequest \<equiv> 400"
abbreviation StatusUnauthorized :: int where "StatusUnauthorized \<equiv> 401"
abbreviation StatusForbidden :: int where "StatusForbidden \<equiv> 403"
abbreviation StatusNotFound :: int where "StatusNotFound \<equiv> 404"
abbreviation StatusMethodNotAllowed :: int where "StatusMethodNotAllowed \<equiv> 405"
abbreviation StatusConflict :: int where "StatusConflict \<equiv> 409"
abbreviation StatusBadGateway :: int where "StatusBadGateway \<equiv> 502"
abbreviation StatusServiceUnavailable :: int where "StatusServiceUnavailable \<equiv> 503"
abbreviation StatusGatewayTimeout :: int where "StatusGatewayTimeout \<equiv> 504"

definition lowerhex :: "nat \<Rightarrow> char" where
  "lowerhex n = (if n < 10 then char_of (48 + n) else char_of (87 + n))"

definition hexEscapeNonASCII :: "string \<Rightarrow> string" where
  "hexEscapeNonASCII s =
     concat (map (\<lambda>c. if 128 \<le> byte c
                       then [CHR ''%'', lowerhex (byte c div 16), lowerhex (byte c mod 16)]
                       else [c]) s)"

lemma hexEscapeNonASCII_id: "list_all (\<lambda>c. byte c < 128) s \<Longrightarrow> hexEscapeNonASCII s = s"
  by (induction s) (auto simp: hexEscapeNonASCII_def)

section \<open>Comparison in constant time\<close>

text \<open>
  \<^verbatim>\<open>subtle.ConstantTimeCompare\<close>: the bitwise or of the differences of all bytes decides. Bytes are
  8-bit words.
\<close>

definition byte_word :: "char \<Rightarrow> 8 word" where
  "byte_word c = word_of_nat (of_char c)"

fun diff_bits :: "8 word \<Rightarrow> string \<Rightarrow> string \<Rightarrow> 8 word" where
  "diff_bits v (c # x) (d # y) = diff_bits (v OR (byte_word c XOR byte_word d)) x y"
| "diff_bits v _ _ = v"

definition ConstantTimeCompare :: "string \<Rightarrow> string \<Rightarrow> int" where
  "ConstantTimeCompare x y =
     (if length x \<noteq> length y then 0 else if diff_bits 0 x y = 0 then 1 else 0)"

lemma byte_word_inj: "byte_word c = byte_word d \<longleftrightarrow> c = d"
proof -
  have "unat (byte_word c) = of_char c" for c
    by (simp add: byte_word_def unat_of_nat)
  then show ?thesis by (metis of_char_eq_iff)
qed

lemma or_eq_0: "(v OR w = 0) \<longleftrightarrow> v = 0 \<and> w = (0 :: 8 word)"
  by (auto simp: bit_eq_iff bit_or_iff)

lemma xor_eq_0: "(v XOR w = 0) \<longleftrightarrow> v = (w :: 8 word)"
  by (auto simp: bit_eq_iff bit_xor_iff)

lemma diff_bits_0: "length x = length y \<Longrightarrow> diff_bits v x y = 0 \<longleftrightarrow> v = 0 \<and> x = y"
  by (induction v x y rule: diff_bits.induct) (auto simp: or_eq_0 xor_eq_0 byte_word_inj)

lemma ConstantTimeCompare_iff: "ConstantTimeCompare x y = 1 \<longleftrightarrow> x = y"
  using diff_bits_0 [of x y 0] by (auto simp: ConstantTimeCompare_def)

end
