(* ===== verification/Rewrite.thy ===== *)
theory Rewrite
  imports Router Go_Http
begin

text \<open>
  The response rewriting of \<^verbatim>\<open>internal/server/proxy_rewrite.go\<close>: when the request path lost its
  public prefix on the way to the backend, \<^verbatim>\<open>Location\<close> and the \<^verbatim>\<open>Path\<close> attribute of \<^verbatim>\<open>Set-Cookie\<close> get it
  back. The results: adding the prefix inverts stripping it on clean paths and is idempotent; an
  absolute URL keeps its scheme, authority and query; a cookie keeps its name, its value and all
  other attributes.
\<close>

section \<open>proxy_rewrite.go\<close>

definition prependPublicPath :: "string \<Rightarrow> string \<Rightarrow> string" where
  "prependPublicPath publicPrefix p =
     (let publicPrefix = NormalizePathPrefix publicPrefix
      in if publicPrefix = '''' then p
         else let cleaned = Clean p
              in if cleaned = ''/'' then publicPrefix
                 else if cleaned = publicPrefix \<or> HasPrefix cleaned (publicPrefix @ ''/'') then cleaned
                 else publicPrefix @ cleaned)"

definition rewriteLocation :: "string \<Rightarrow> string \<Rightarrow> string" where
  "rewriteLocation loc publicPrefix =
     (if HasPrefix loc ''/'' then prependPublicPath publicPrefix loc
      else case Parse loc of
             None \<Rightarrow> loc
           | Some u \<Rightarrow>
               if url_Path u = '''' \<or> \<not> HasPrefix (url_Path u) ''/'' then loc
               else let newPath = prependPublicPath publicPrefix (url_Path u)
                    in if newPath = url_Path u then loc
                       else URL_String (u\<lparr>url_Path := newPath\<rparr>))"

definition rewriteCookiePath :: "string \<Rightarrow> string \<Rightarrow> string" where
  "rewriteCookiePath cookiePath publicPrefix =
     (let publicPrefix = NormalizePathPrefix publicPrefix
      in if publicPrefix = '''' then cookiePath
         else let p = (if cookiePath = '''' then ''/'' else cookiePath);
                  p = (if \<not> HasPrefix p ''/'' then ''/'' @ p else p)
              in prependPublicPath publicPrefix p)"

text \<open>
  The loop over \<^verbatim>\<open>parts[1:]\<close>: it stops at the first \<^verbatim>\<open>Path\<close> attribute; the result carries the flag
  \<^verbatim>\<open>changed\<close>.
\<close>

definition is_path_attr :: "string \<Rightarrow> bool" where
  "is_path_attr part \<longleftrightarrow>
     \<not> (length (TrimSpace part) < 5 \<or> \<not> EqualFold (take 5 (TrimSpace part)) ''path='')"

fun cookie_loop :: "string \<Rightarrow> string list \<Rightarrow> bool \<times> string list" where
  "cookie_loop publicPrefix [] = (False, [])"
| "cookie_loop publicPrefix (part # parts) =
     (if \<not> is_path_attr part then
        (let (changed, ps) = cookie_loop publicPrefix parts in (changed, part # ps))
      else let rawPath = TrimSpace (drop 5 (TrimSpace part));
               newPath = rewriteCookiePath rawPath publicPrefix
           in if newPath \<noteq> rawPath then (True, ('' Path='' @ newPath) # parts)
              else (False, part # parts))"

definition rewriteSetCookiePath :: "string \<Rightarrow> string \<Rightarrow> string" where
  "rewriteSetCookiePath setCookie publicPrefix =
     (case Split setCookie CHR '';'' of
        [] \<Rightarrow> setCookie
      | part0 # parts \<Rightarrow>
          (case cookie_loop publicPrefix parts of
             (changed, parts) \<Rightarrow>
               if \<not> changed then setCookie else Join (part0 # parts) CHR '';''))"

definition rewritePublicPrefixHeaders :: "Header \<Rightarrow> string \<Rightarrow> Header" where
  "rewritePublicPrefixHeaders hdr publicPrefix =
     (let publicPrefix = NormalizePathPrefix publicPrefix
      in if publicPrefix = '''' then hdr
         else let loc = Header_Get hdr ''Location'';
                  rewritten = rewriteLocation loc publicPrefix;
                  hdr = (if loc \<noteq> '''' \<and> rewritten \<noteq> loc then Header_Set ''Location'' rewritten hdr else hdr);
                  cookies = hdr ''Set-Cookie''
              in if cookies = [] then hdr
                 else fold (\<lambda>c. Header_Add ''Set-Cookie'' (rewriteSetCookiePath c publicPrefix)) cookies
                        (Header_Del ''Set-Cookie'' hdr))"

section \<open>Paths\<close>

lemma prependPublicPath_rooted:
  assumes "rooted pfx" "Clean pfx \<noteq> ''/''"
  shows "prependPublicPath pfx p =
    (if Clean p = ''/'' then Clean pfx
     else if under_path (Clean p) (Clean pfx) then Clean p
     else Clean pfx @ Clean p)"
proof -
  have "NormalizePathPrefix pfx = Clean pfx" "Clean pfx \<noteq> ''''"
    using assms normalizePathPrefix_rooted [of pfx] rootedE [of "Clean pfx"]
    by (auto simp: NormalizePathPrefix_eq)
  then show ?thesis by (simp add: prependPublicPath_def under_path_def Let_def)
qed

lemma prepend_under:
  assumes "rooted pfx" "Clean pfx \<noteq> ''/''" "rooted p"
  shows "under_path (prependPublicPath pfx p) (Clean pfx) \<and> clean_abs (prependPublicPath pfx p)"
proof -
  obtain s where s: "Clean p = CHR ''/'' # s" using rootedE [of "Clean p"] assms(3) by auto
  have "clean_abs (Clean pfx @ Clean p)" if "Clean p \<noteq> ''/''"
    using clean_abs_append_iff [of "Clean pfx" "Clean p"] assms that by auto
  moreover have "clean_abs (Clean p)" using assms(3) by simp
  ultimately show ?thesis
    using assms s by (auto simp: prependPublicPath_rooted)
qed

lemma Split_chars: "(\<Union>w\<in>set (Split s sep). set w) \<subseteq> set s"
  by (induction s sep rule: Split.induct) ((auto split: list.splits if_splits), blast+)

lemma clean_step_chars: "set (clean_step True acc e) \<subseteq> insert e (set acc)"
  by (auto simp: clean_step_def split: list.splits if_splits)

lemma foldl_clean_chars: "set (foldl (clean_step True) acc es) \<subseteq> set acc \<union> set es"
proof (induction es arbitrary: acc)
  case (Cons e es)
  show ?case using Cons [of "clean_step True acc e"] clean_step_chars [of acc e] by auto
qed simp

lemma Clean_chars: "rooted p \<Longrightarrow> set (Clean p) \<subseteq> set p"
proof -
  assume r: "rooted p"
  then obtain s where "p = CHR ''/'' # s" using rootedE by blast
  then have "CHR ''/'' \<in> set p" by simp
  moreover have "set (clean_elems p) \<subseteq> set (Split p CHR ''/'')"
    using r foldl_clean_chars [of "[]" "Split p CHR ''/''"] by (simp add: clean_elems_def)
  then have "(\<Union>w\<in>set (clean_elems p). set w) \<subseteq> set p"
    using Split_chars [of p "CHR ''/''"] by blast
  ultimately have "set (Join (clean_elems p) CHR ''/'') \<subseteq> set p"
    using set_Join [of "clean_elems p" "CHR ''/''"] by blast
  then show ?thesis using Clean_rooted [OF r] \<open>CHR ''/'' \<in> set p\<close> by simp
qed

lemma prepend_chars:
  "rooted pfx \<Longrightarrow> Clean pfx \<noteq> ''/'' \<Longrightarrow> rooted p \<Longrightarrow> set (prependPublicPath pfx p) \<subseteq> set pfx \<union> set p"
  using Clean_chars [of pfx] Clean_chars [of p] by (auto simp: prependPublicPath_rooted)

section \<open>Properties\<close>

lemma prepend_of_strip:
  assumes "rooted pfx" "Clean pfx \<noteq> ''/''" "clean_abs p"
    and "StripPathPrefix p pfx = (q, True)" "\<not> under_path q (Clean pfx)"
  shows "prependPublicPath pfx q = p"
proof -
  define c where "c = Clean pfx"
  have n: "NormalizePathPrefix pfx = c" "c \<noteq> ''''" "c \<noteq> ''/''" "clean_abs c"
    using assms normalizePathPrefix_rooted [of pfx] rootedE [of "Clean pfx"]
    by (auto simp: NormalizePathPrefix_eq c_def)
  note pre = prependPublicPath_rooted [OF assms(1,2), folded c_def]
  have that: "StripPathPrefix p pfx = (q, True)" "\<not> under_path q c" using assms(4,5) by (auto simp: c_def)
  show ?thesis
  proof (cases "p = c")
    case True
    then show ?thesis using that n by (auto simp: StripPathPrefix_def pre)
  next
    case False
    then have "HasPrefix p (c @ ''/'')" and q: "q = drop (length c) p"
      using that(1) n by (auto simp: StripPathPrefix_def Let_def split: if_splits)
    then obtain s where s: "p = c @ CHR ''/'' # s" by (auto simp: go_string prefix_def)
    then have q': "q = CHR ''/'' # s" "clean_abs q"
      using q clean_abs_suffix [OF assms(3) s n(2)] by auto
    then have "q \<noteq> ''/''"
      using clean_abs_append_iff [OF n(4,3) q'(2)] assms(3) s by auto
    then show ?thesis using that(2) q' clean_absD(1) [OF q'(2)] s by (simp add: pre)
  qed
qed

lemma strip_of_prepend:
  assumes "rooted pfx" "Clean pfx \<noteq> ''/''" "clean_abs p" "\<not> under_path p (Clean pfx)"
  shows "StripPathPrefix (prependPublicPath pfx p) pfx = (p, True)"
proof -
  have n: "NormalizePathPrefix pfx = Clean pfx" "Clean pfx \<noteq> ''''"
    using assms normalizePathPrefix_rooted [of pfx] rootedE [of "Clean pfx"]
    by (auto simp: NormalizePathPrefix_eq)
  have p: "Clean p = p" "rooted p" using assms(3) clean_absD by auto
  obtain s where s: "p = CHR ''/'' # s" using p(2) rootedE by blast
  then show ?thesis using assms p n
    by (auto simp: prependPublicPath_rooted StripPathPrefix_def Let_def go_string)
qed

text \<open>
  C24: putting the public prefix back inverts stripping it. A clean path at or below the prefix
  is recovered from what \<^verbatim>\<open>StripPathPrefix\<close> leaves of it, unless what is left itself lies below the
  prefix; and a clean backend path that does not lie below the prefix is recovered by stripping.
\<close>

theorem strip_prepend_inverse:
  assumes "rooted pfx" "Clean pfx \<noteq> ''/''" "clean_abs p"
  shows "(case StripPathPrefix p pfx of
      (q, ok) \<Rightarrow> ok \<longrightarrow> \<not> under_path q (Clean pfx) \<longrightarrow> prependPublicPath pfx q = p)
    \<and> (\<not> under_path p (Clean pfx) \<longrightarrow> StripPathPrefix (prependPublicPath pfx p) pfx = (p, True))"
  using prepend_of_strip [OF assms] strip_of_prepend [OF assms] by (auto split: prod.splits)

text \<open>
  The rewritten path is clean, lies at or below the public prefix, and rewriting it again
  leaves it unchanged.
\<close>

lemma prepend_idempotent:
  assumes "rooted pfx" "Clean pfx \<noteq> ''/''" "rooted p"
  shows "prependPublicPath pfx (prependPublicPath pfx p) = prependPublicPath pfx p
    \<and> under_path (prependPublicPath pfx p) (Clean pfx) \<and> clean_abs (prependPublicPath pfx p)"
proof -
  let ?q = "prependPublicPath pfx p"
  have q: "under_path ?q (Clean pfx)" "clean_abs ?q" using prepend_under [OF assms] by auto
  have "?q \<noteq> ''/''"
    using under_path_length [OF q(1)] rootedE [of "Clean pfx"] assms(1,2) q(1)
    by (auto simp: under_path_def go_string)
  then show ?thesis using q clean_absD(1) [OF q(2)] prependPublicPath_rooted [OF assms(1,2), of ?q] by simp
qed

text \<open>
  A plain absolute URL in \<^verbatim>\<open>Location\<close> keeps its scheme, its authority and its query; only the
  path gets the public prefix. The authority is not looked at: a redirect to another site is
  rewritten like one to the public host.
\<close>

lemma rewriteLocation_absolute:
  assumes "rooted pfx" "Clean pfx \<noteq> ''/''" "plain_path pfx"
    and "plain_scheme s" "plain_authority h" "plain_path p" "plain_query q"
  shows "rewriteLocation (s @ ''://'' @ h @ p @ query_suffix q) pfx =
    s @ ''://'' @ h @ prependPublicPath pfx p @ query_suffix q"
proof -
  let ?loc = "s @ ''://'' @ h @ p @ query_suffix q"
  have p: "rooted p" "p \<noteq> ''''" using assms(6) rootedE by (auto simp: plain_path_def)
  have new: "plain_path (prependPublicPath pfx p)"
    using prepend_under [OF assms(1,2) p(1)] prepend_chars [OF assms(1,2) p(1)] assms(3,6) clean_absD(2)
    by (auto simp: plain_path_def list_all_iff)
  have "\<not> is_letter CHR ''/''" by (simp add: is_letter_def)
  then have "\<not> HasPrefix ?loc ''/''"
    using assms(4) by (cases s) (auto simp: plain_scheme_def HasPrefix_def)
  moreover have "HasPrefix p ''/''" using p(1) unfolding rooted_def .
  ultimately have "rewriteLocation ?loc pfx =
    (if prependPublicPath pfx p = p then ?loc
     else URL_String ((empty_URL\<lparr>url_Scheme := s, url_RawQuery := q, url_Host := h, url_Path := p\<rparr>)
            \<lparr>url_Path := prependPublicPath pfx p\<rparr>))"
    unfolding rewriteLocation_def Parse_plain [OF assms(4-7)] using p(2) by (simp add: Let_def)
  moreover have "(empty_URL\<lparr>url_Scheme := s, url_RawQuery := q, url_Host := h, url_Path := p\<rparr>)
      \<lparr>url_Path := prependPublicPath pfx p\<rparr> =
    empty_URL\<lparr>url_Scheme := s, url_RawQuery := q, url_Host := h, url_Path := prependPublicPath pfx p\<rparr>"
    by simp
  ultimately show ?thesis using String_plain [OF assms(4,5) new, of q] by (simp split: if_splits)
qed

lemma rewrite_headers_Location:
  "Header_Get (rewritePublicPrefixHeaders hdr pfx) ''Location'' =
     (let loc = Header_Get hdr ''Location''; n = NormalizePathPrefix pfx
      in if n = '''' \<or> loc = '''' then loc else rewriteLocation loc n)"
  by (simp add: rewritePublicPrefixHeaders_def fold_Header_Add Header_Get_def Header_Set_def Header_Del_def Let_def)

text \<open>
  \<^verbatim>\<open>rewritePublicPrefixHeaders\<close> touches \<^verbatim>\<open>Location\<close> and \<^verbatim>\<open>Set-Cookie\<close> only: the first \<^verbatim>\<open>Location\<close> value is
  rewritten, every cookie is rewritten in place, none is lost, added or reordered.
\<close>

lemma rewritePublicPrefixHeaders_frame:
  "rewritePublicPrefixHeaders hdr pfx k =
     (let n = NormalizePathPrefix pfx
      in if n = '''' then hdr k
         else if k = ''Location'' then
           (case hdr k of
              [] \<Rightarrow> []
            | loc # locs \<Rightarrow> if loc = '''' \<or> rewriteLocation loc n = loc then loc # locs
                           else [rewriteLocation loc n])
         else if k = ''Set-Cookie'' then map (\<lambda>c. rewriteSetCookiePath c n) (hdr k)
         else hdr k)"
  by (auto simp: rewritePublicPrefixHeaders_def Header_Get_def Header_Set_def Header_Del_def
      fold_Header_Add Let_def split: list.splits)

text \<open>The parts of a cookie: only the first \<^verbatim>\<open>Path\<close> attribute may change.\<close>

lemma cookie_loop_parts:
  "cookie_loop pfx ps = (ch, qs) \<Longrightarrow>
     length qs = length ps
     \<and> (ch \<longrightarrow> (\<exists>us part vs. ps = us @ part # vs \<and> is_path_attr part
            \<and> qs = us @ ('' Path='' @ rewriteCookiePath (TrimSpace (drop 5 (TrimSpace part))) pfx) # vs))"
proof (induction pfx ps arbitrary: ch qs rule: cookie_loop.induct)
  case (2 pfx part parts)
  show ?case
  proof (cases "is_path_attr part")
    case True
    define new where "new = rewriteCookiePath (TrimSpace (drop 5 (TrimSpace part))) pfx"
    have c: "(ch, qs) = (if new \<noteq> TrimSpace (drop 5 (TrimSpace part))
        then (True, ('' Path='' @ new) # parts) else (False, part # parts))"
      using 2(2) True unfolding cookie_loop.simps Let_def new_def by (simp only: not_True_eq_False if_False)
    show ?thesis
    proof (intro conjI impI)
      assume ch
      with c have "qs = [] @ ('' Path='' @ new) # parts" by (simp split: if_splits)
      with True show "\<exists>us p vs. part # parts = us @ p # vs \<and> is_path_attr p
            \<and> qs = us @ ('' Path='' @ rewriteCookiePath (TrimSpace (drop 5 (TrimSpace p))) pfx) # vs"
        unfolding new_def by blast
    qed (use c in \<open>simp split: if_splits\<close>)
  next
    case False
    obtain qs' where q: "cookie_loop pfx parts = (ch, qs')" "qs = part # qs'"
      using 2(2) False by (auto split: prod.splits)
    with 2(1) False have ih: "length qs' = length parts"
      "ch \<longrightarrow> (\<exists>us p vs. parts = us @ p # vs \<and> is_path_attr p
            \<and> qs' = us @ ('' Path='' @ rewriteCookiePath (TrimSpace (drop 5 (TrimSpace p))) pfx) # vs)"
      by blast+
    show ?thesis
    proof (intro conjI impI)
      assume ch
      with ih(2) obtain us p vs where "parts = us @ p # vs" "is_path_attr p"
        "qs' = us @ ('' Path='' @ rewriteCookiePath (TrimSpace (drop 5 (TrimSpace p))) pfx) # vs"
        by blast
      then show "\<exists>us p vs. part # parts = us @ p # vs \<and> is_path_attr p
            \<and> qs = us @ ('' Path='' @ rewriteCookiePath (TrimSpace (drop 5 (TrimSpace p))) pfx) # vs"
        using q(2) by (intro exI [of _ "part # us"] exI [of _ p] exI [of _ vs]) simp
    qed (use q ih in simp)
  qed
qed simp

lemma TrimSpace_chars: "set (TrimSpace s) \<subseteq> set s"
  by (auto simp: TrimSpace_def dest!: set_dropWhileD)

lemma rewriteCookiePath_chars:
  assumes "rooted pfx" "Clean pfx \<noteq> ''/''" "CHR '';'' \<notin> set pfx" "CHR '';'' \<notin> set p"
  shows "CHR '';'' \<notin> set (rewriteCookiePath p pfx)"
proof -
  have n: "NormalizePathPrefix pfx = Clean pfx" using assms(1) normalizePathPrefix_rooted
    by (simp add: NormalizePathPrefix_eq)
  have c: "rooted (Clean pfx)" "Clean (Clean pfx) \<noteq> ''/''" "CHR '';'' \<notin> set (Clean pfx)"
    using assms Clean_chars by auto
  have "CHR '';'' \<notin> set (prependPublicPath (Clean pfx) r)" if "rooted r" "CHR '';'' \<notin> set r" for r
    using prepend_chars [OF c(1,2) that(1)] c(3) that(2) by blast
  then show ?thesis
    using assms n by (auto simp: rewriteCookiePath_def Let_def rooted_def HasPrefix_def split: if_splits)
qed

text \<open>
  C38: for a public prefix that starts with a slash, is not the root after cleaning and contains no semicolon,
  rewriting a \<^verbatim>\<open>Set-Cookie\<close> value keeps the name and value of the cookie and every attribute but at most one:
  either the header is unchanged, or exactly one part, a \<^verbatim>\<open>Path\<close> attribute, is replaced by \<^verbatim>\<open>Path=\<close> and the
  rewritten path, and the number of attributes stays the same. (With a semicolon in the prefix, which a
  configuration may have, the replaced attribute would split into several.)
\<close>

theorem rewriteSetCookiePath_frame:
  assumes "rooted pfx" "Clean pfx \<noteq> ''/''" "CHR '';'' \<notin> set pfx"
    and "rewriteSetCookiePath c pfx \<noteq> c"
  shows "\<exists>part0 us part vs. Split c CHR '';'' = part0 # us @ part # vs \<and> is_path_attr part
    \<and> Split (rewriteSetCookiePath c pfx) CHR '';'' =
        part0 # us @ ('' Path='' @ rewriteCookiePath (TrimSpace (drop 5 (TrimSpace part))) pfx) # vs"
proof -
  obtain part0 ps where ps: "Split c CHR '';'' = part0 # ps"
    using Split_ne [of c "CHR '';''"] by (cases "Split c CHR '';''") auto
  obtain ch qs where qs: "cookie_loop pfx ps = (ch, qs)" by fastforce
  have ch: ch "rewriteSetCookiePath c pfx = Join (part0 # qs) CHR '';''"
    using assms(4) ps qs by (auto simp: rewriteSetCookiePath_def split: if_splits)
  from cookie_loop_parts [OF qs] ch(1) obtain us part vs where
    u: "ps = us @ part # vs" "is_path_attr part"
       "qs = us @ ('' Path='' @ rewriteCookiePath (TrimSpace (drop 5 (TrimSpace part))) pfx) # vs"
    by blast
  have free: "\<forall>w\<in>set (part0 # ps). CHR '';'' \<notin> set w"
    using Split_sep_free [of _ c "CHR '';''"] ps by metis
  have "CHR '';'' \<notin> set (TrimSpace (drop 5 (TrimSpace part)))"
    using free u(1) TrimSpace_chars set_drop_subset by (metis in_set_conv_decomp list.set_intros(2) subsetD)
  then have "\<forall>w\<in>set (part0 # qs). CHR '';'' \<notin> set w"
    using free u rewriteCookiePath_chars [OF assms(1-3)] by auto
  then have "Split (Join (part0 # qs) CHR '';'') CHR '';'' = part0 # qs"
    by (intro Split_Join) auto
  with ch ps u show ?thesis by auto
qed

section \<open>Witnesses and corner cases\<close>

theorem strip_prepend_inverse_witness:
  "StripPathPrefix ''/app/x'' ''/app'' = (''/x'', True) \<and> prependPublicPath ''/app'' ''/x'' = ''/app/x''"
proof -
  have h: "rooted ''/app''" "Clean ''/app'' \<noteq> ''/''" "clean_abs ''/app/x''"
    and s: "StripPathPrefix ''/app/x'' ''/app'' = (''/x'', True)" "\<not> under_path ''/x'' (Clean ''/app'')"
    by code_simp+
  show ?thesis using strip_prepend_inverse [OF h] s by simp
qed

theorem rewriteSetCookiePath_frame_witness:
  "\<exists>part0 us part vs. Split ''sid=1; Path=/; Secure'' CHR '';'' = part0 # us @ part # vs \<and> is_path_attr part
    \<and> Split (rewriteSetCookiePath ''sid=1; Path=/; Secure'' ''/app'') CHR '';'' =
        part0 # us @ ('' Path='' @ rewriteCookiePath (TrimSpace (drop 5 (TrimSpace part))) ''/app'') # vs"
proof -
  have "rooted ''/app''" "Clean ''/app'' \<noteq> ''/''" "CHR '';'' \<notin> set ''/app''"
    "rewriteSetCookiePath ''sid=1; Path=/; Secure'' ''/app'' \<noteq> ''sid=1; Path=/; Secure''" by code_simp+
  then show ?thesis by (rule rewriteSetCookiePath_frame)
qed

text \<open>
  Corner cases of \<^verbatim>\<open>prependPublicPath\<close>. With the prefix \<^verbatim>\<open>/\<close>, which \<^verbatim>\<open>ValidateServer\<close> accepts together with
  \<^verbatim>\<open>strip_prefix\<close>, a local redirect becomes a scheme-relative URL. A redirect that starts with two
  slashes is taken for a path. \<^verbatim>\<open>path.Clean\<close> runs over the query as well and drops a trailing slash.
\<close>

lemma prepend_root_prefix: "rewriteLocation ''/admin'' ''/'' = ''//admin''"
  by code_simp

lemma prepend_scheme_relative: "rewriteLocation ''//cdn.example.org/x'' ''/app'' = ''/app/cdn.example.org/x''"
  by code_simp

lemma prepend_cleans_query:
  "rewriteLocation ''/login?next=https://example.org/'' ''/app'' = ''/app/login?next=https:/example.org''"
  by code_simp

lemma prepend_drops_slash: "rewriteLocation ''/docs/'' ''/app'' = ''/app/docs''"
  by code_simp

end
