(* ===== verification/Auth.thy ===== *)
theory Auth
  imports Registry Go_Http
begin

text \<open>
  Client authentication (\<^verbatim>\<open>internal/server/auth.go\<close>) and the JSON replies of \<^verbatim>\<open>internal/server/errors.go\<close>. The
  results: the registry of bindings finds a binding by its client ID, and a presented token is
  accepted exactly when it is the nonempty configured one.
\<close>

section \<open>auth.go\<close>

type_synonym ClientRegistry = "(string \<times> ClientBinding) list"

definition NewClientRegistry :: "ClientBinding list \<Rightarrow> ClientRegistry" where
  "NewClientRegistry bindings = fold (\<lambda>b m. AList.update (cb_ClientID b) b m) bindings []"

definition Lookup :: "ClientRegistry \<Rightarrow> string \<Rightarrow> ClientBinding option" where
  "Lookup cr clientID = map_of cr clientID"

definition validToken :: "string \<Rightarrow> string \<Rightarrow> bool" where
  "validToken expected provided =
     (if expected = '''' \<or> provided = '''' then False
      else ConstantTimeCompare expected provided = 1)"

definition bearerToken :: "Request \<Rightarrow> string" where
  "bearerToken r =
     (let h = Header_Get (rq_Header r) ''Authorization''
      in if \<not> HasPrefix h ''Bearer '' then '''' else TrimPrefix h ''Bearer '')"

section \<open>errors.go\<close>

text \<open>
  A reply is a status, headers and a body; the JSON encoder is applied to one of two structs, so
  a body is the struct that is encoded, or plain text, or the bytes of a backend.
\<close>

datatype body =
    ErrorBody string
  | StatusBody string int "TunnelStatus list"
  | TextBody string
  | EmptyBody

record Response =
  rp_Status :: int
  rp_Header :: Header
  rp_Body :: body

definition writeJSON :: "int \<Rightarrow> body \<Rightarrow> Response" where
  "writeJSON status v =
     \<lparr>rp_Status = status,
      rp_Header = Header_Set ''Content-Type'' ''application/json'' (\<lambda>_. []),
      rp_Body = v\<rparr>"

definition writeJSONError :: "int \<Rightarrow> string \<Rightarrow> Response" where
  "writeJSONError status msg =
     \<lparr>rp_Status = status,
      rp_Header = Header_Set ''Content-Type'' ''application/json'' (\<lambda>_. []),
      rp_Body = ErrorBody msg\<rparr>"

definition writeHTTPError :: "int \<Rightarrow> string \<Rightarrow> Response" where
  "writeHTTPError status msg = writeJSONError status msg"

section \<open>Properties\<close>

lemma fold_update_map_of:
  "map_of (fold (\<lambda>b m. AList.update (cb_ClientID b) b m) bs m) k =
     (case find (\<lambda>b. cb_ClientID b = k) (rev bs) of Some b \<Rightarrow> Some b | None \<Rightarrow> map_of m k)"
proof (induction bs arbitrary: m)
  case (Cons b bs)
  then show ?case by (auto simp: find_snoc split: option.splits)
qed simp

lemma Lookup_rev: "Lookup (NewClientRegistry bs) k = find (\<lambda>b. cb_ClientID b = k) (rev bs)"
  by (simp add: Lookup_def NewClientRegistry_def fold_update_map_of split: option.splits)

lemma Lookup_mem: "Lookup (NewClientRegistry bs) k = Some b \<Longrightarrow> b \<in> set bs \<and> cb_ClientID b = k"
  unfolding Lookup_rev by (auto simp: find_Some_iff) (metis nth_mem set_rev length_rev)

lemma Lookup_distinct:
  assumes "distinct (map cb_ClientID bs)"
  shows "Lookup (NewClientRegistry bs) k = Some b \<longleftrightarrow> b \<in> set bs \<and> cb_ClientID b = k"
  using find_distinct [of cb_ClientID "rev bs" k b] assms by (simp add: Lookup_rev rev_map [symmetric])

lemma Lookup_None: "Lookup (NewClientRegistry bs) k = None \<longleftrightarrow> k \<notin> cb_ClientID ` set bs"
  by (auto simp: Lookup_rev find_None_iff)

lemma validToken_iff: "validToken e p \<longleftrightarrow> e \<noteq> '''' \<and> p = e"
  by (auto simp: validToken_def ConstantTimeCompare_iff)

lemma bearerToken_iff:
  assumes "t \<noteq> ''''"
  shows "bearerToken r = t \<longleftrightarrow> Header_Get (rq_Header r) ''Authorization'' = ''Bearer '' @ t"
proof -
  define h where "h = Header_Get (rq_Header r) ''Authorization''"
  have "(if \<not> HasPrefix h ''Bearer '' then '''' else TrimPrefix h ''Bearer '') = t
      \<longleftrightarrow> h = ''Bearer '' @ t"
    using assms HasPrefix_TrimPrefix [of h "''Bearer ''"] TrimPrefix_append [of "''Bearer ''" t]
      HasPrefix_append [of "''Bearer ''" t]
    by metis
  then show ?thesis unfolding bearerToken_def Let_def h_def .
qed

text \<open>
  The comparison in constant time decides equality. A token is accepted exactly when the request
  has an \<^verbatim>\<open>Authorization\<close> header that consists of \<^verbatim>\<open>Bearer\<close>, a space and the configured token, and the
  configured token is not empty.
\<close>

lemma validToken_exact:
  "validToken expected (bearerToken r) \<longleftrightarrow>
     expected \<noteq> '''' \<and> Header_Get (rq_Header r) ''Authorization'' = ''Bearer '' @ expected"
  using bearerToken_iff [of expected r] by (auto simp: validToken_iff)

end
