(* ===== verification/Server.thy ===== *)
theory Server
  imports Rewrite Auth
begin

text \<open>
  The server object and its control plane: \<^verbatim>\<open>internal/server/server.go\<close>, \<^verbatim>\<open>tls.go\<close> and \<^verbatim>\<open>status.go\<close>. The
  libraries it embeds are arguments: the transport record \<open>A\<close> of the registry, the session store of
  pollmux (\<open>session_store\<close>), the request router of gorilla/mux (\<open>mx\<close>) and \<^verbatim>\<open>sort.Slice\<close> (\<open>srt\<close>). Log
  output is not modelled. The main results: what a client must present to connect and to use a
  session; that a connect which is admitted is registered; that every server state reached by hooks
  satisfies the registry invariant, respects the limits of the bindings and holds tunnels of
  configured clients only; and which tunnels the closing of a session by \<^verbatim>\<open>Stop\<close> removes.
\<close>

section \<open>State\<close>

text \<open>
  The session store of pollmux: lookup by ID, the list of all sessions, and the effect of
  \<^verbatim>\<open>pollmux.CloseSession\<close> on the library's state, with a flag that says whether it invokes the
  disconnect hook.
\<close>

record 'x session_store =
  store_Get :: "'x \<Rightarrow> string \<Rightarrow> session_ptr option"
  store_All :: "'x \<Rightarrow> session_ptr list"
  store_Close :: "'x \<Rightarrow> session_ptr \<Rightarrow> 'x \<times> bool"

record AutocertManager =
  am_CacheDir :: string
  am_Email :: string
  am_HostPolicyRoot :: string

datatype handler = RootHandler | RedirectHandler | StatusHandler

record HttpServer =
  hs_Addr :: string
  hs_Handler :: handler
  hs_ReadHeaderTimeout :: duration
  hs_MaxHeaderBytes :: int
  hs_TLS :: bool
  hs_Shutdown :: bool

text \<open>
  \<open>sv_nextTunnel\<close> is the address of the next tunnel to be allocated and \<open>sv_warming\<close> the hosts for
  which a certificate warm-up was started; \<open>sv_stopOnce\<close> is the state of the \<^verbatim>\<open>sync.Once\<close>, and
  \<open>sv_stopSweeper\<close> says that the function that stops the sweeper is set and was not called yet. The fields
  of the struct that hold functions of the server itself (hooks, proxy, control mux) are the definitions
  below (\<open>buildHooks\<close>, \<open>controlMux\<close> and the reverse proxy of the next theory); the session ID that pollmux reads from a request is the variable \<^verbatim>\<open>id\<close> of the route's template.
\<close>

record 'x Server =
  sv_cfg :: ServerConfig
  sv_registry :: "'x reg_state"
  sv_routes :: route_table
  sv_pollmuxCfg :: pollmux_ServerConfig
  sv_clients :: ClientRegistry
  sv_certManager :: "AutocertManager option"
  sv_stopSweeper :: bool
  sv_startedAt :: int
  sv_httpSrv :: "HttpServer option"
  sv_http80Srv :: "HttpServer option"
  sv_statusSrv :: "HttpServer option"
  sv_done :: bool
  sv_stopOnce :: bool
  sv_nextTunnel :: tunnel_ptr
  sv_warming :: "string list"

abbreviation upd_registry :: "('x reg_state \<Rightarrow> 'x reg_state) \<Rightarrow> 'x Server \<Rightarrow> 'x Server" where
  "upd_registry f sv \<equiv> sv\<lparr>sv_registry := f (sv_registry sv)\<rparr>"

section \<open>Construction\<close>

definition buildRouteTable ::
  "sort_slice \<Rightarrow> ServerConfig \<Rightarrow> 'x reg_state \<Rightarrow> route_table \<times> 'x reg_state" where
  "buildRouteTable srt cfg reg =
     NewRouteTable srt (sc_Clients cfg)
       (fold (\<lambda>b reg. snd (EnsurePool (cb_Subdomain b) reg)) (sc_Clients cfg) reg)"

definition NewServer ::
  "pollmux_consts \<Rightarrow> sort_slice \<Rightarrow> (tunnel_ptr \<Rightarrow> ClientTunnel) \<Rightarrow> 'x \<Rightarrow> ServerConfig
     \<Rightarrow> config_error + 'x Server" where
  "NewServer pm srt heap x cfg =
     bind_result (ValidateServer pm cfg) (\<lambda>cfg.
       let reg = NewRegistry (tun_SupersedeDrainTimeout (sc_Tunnel cfg)) heap x;
           (routes, reg) = buildRouteTable srt cfg reg
       in Inr \<lparr>
         sv_cfg = cfg,
         sv_registry = reg,
         sv_routes = routes,
         sv_pollmuxCfg = PollmuxServerConfig pm cfg,
         sv_clients = NewClientRegistry (sc_Clients cfg),
         sv_certManager = None,
         sv_stopSweeper = False,
         sv_startedAt = 0,
         sv_httpSrv = None,
         sv_http80Srv = None,
         sv_statusSrv = None,
         sv_done = False,
         sv_stopOnce = False,
         sv_nextTunnel = 0,
         sv_warming = []\<rparr>)"

section \<open>The control routes\<close>

datatype endpoint = ConnectHandler | PollHandler | WebSocketHandler | ResumeHandler | DeleteHandler

record control_route =
  cr_Template :: string
  cr_Method :: string
  cr_Authenticated :: bool
  cr_Endpoint :: endpoint

definition buildControlMux :: "ServerConfig \<Rightarrow> control_route list" where
  "buildControlMux cfg =
     (let pfx = NormalizeControlPath (sc_ControlPath cfg)
      in [\<lparr>cr_Template = pfx @ ''/connect'', cr_Method = ''POST'', cr_Authenticated = False,
           cr_Endpoint = ConnectHandler\<rparr>,
          \<lparr>cr_Template = pfx @ ''/{id}/poll'', cr_Method = ''POST'', cr_Authenticated = True,
           cr_Endpoint = PollHandler\<rparr>,
          \<lparr>cr_Template = pfx @ ''/{id}/ws'', cr_Method = ''GET'', cr_Authenticated = True,
           cr_Endpoint = WebSocketHandler\<rparr>,
          \<lparr>cr_Template = pfx @ ''/{id}/resume'', cr_Method = ''POST'', cr_Authenticated = True,
           cr_Endpoint = ResumeHandler\<rparr>,
          \<lparr>cr_Template = pfx @ ''/{id}'', cr_Method = ''DELETE'', cr_Authenticated = True,
           cr_Endpoint = DeleteHandler\<rparr>])"

definition NotFound :: Response where
  "NotFound =
     \<lparr>rp_Status = StatusNotFound,
      rp_Header = Header_Set ''X-Content-Type-Options'' ''nosniff''
        (Header_Set ''Content-Type'' ''text/plain; charset=utf-8'' (\<lambda>_. [])),
      rp_Body = TextBody (''404 page not found'' @ ''\<newline>'')\<rparr>"

text \<open>\<^const>\<open>None\<close> passes the request on to the handler that is wrapped.\<close>

definition authenticateSession ::
  "'x transport \<Rightarrow> 'x session_store \<Rightarrow> 'x Server \<Rightarrow> (string \<rightharpoonup> string) \<Rightarrow> Request \<Rightarrow> Response option" where
  "authenticateSession A P sv vars r =
     (let i = map_get vars ''id''
      in case store_Get P (rs_ext (sv_registry sv)) i of
           None \<Rightarrow> None
         | Some sess \<Rightarrow>
             let clientID = map_get (session_Meta A sess) ''client_id''
             in case Lookup (sv_clients sv) clientID of
                  None \<Rightarrow> Some NotFound
                | Some binding \<Rightarrow>
                    if \<not> validToken (cb_Token binding) (bearerToken r) then Some NotFound else None)"

text \<open>
  What the mux makes of a request: it dispatches to a route of the table with the variables of its
  template, or replies itself (no route, wrong method, redirect to the clean path).
\<close>

datatype mux_result = Dispatch control_route "string \<rightharpoonup> string" | MuxReply Response

type_synonym mux = "control_route list \<Rightarrow> Request \<Rightarrow> mux_result"

text \<open>The result of the control plane: a reply, or a call of a pollmux handler.\<close>

datatype control_result = ControlReply Response | Invoke endpoint "string \<rightharpoonup> string"

definition controlMux ::
  "mux \<Rightarrow> 'x transport \<Rightarrow> 'x session_store \<Rightarrow> 'x Server \<Rightarrow> Request \<Rightarrow> control_result" where
  "controlMux mx A P sv r =
     (case mx (buildControlMux (sv_cfg sv)) r of
        MuxReply resp \<Rightarrow> ControlReply resp
      | Dispatch rt vars \<Rightarrow>
          if \<not> cr_Authenticated rt then Invoke (cr_Endpoint rt) vars
          else (case authenticateSession A P sv vars r of
                  Some resp \<Rightarrow> ControlReply resp
                | None \<Rightarrow> Invoke (cr_Endpoint rt) vars))"

section \<open>Hooks\<close>

text \<open>
  An error of a hook: \<^verbatim>\<open>pollmux.StatusErrorf\<close>, an error of the library, or the formatted error
  \<^verbatim>\<open>unknown client_id %q\<close>.
\<close>

datatype hook_error = StatusError int string | PlainError string | UnknownClient string

record ConnectRequest =
  cq_Meta :: "(string \<rightharpoonup> string) option"

definition authenticateConnect ::
  "'x Server \<Rightarrow> Request \<Rightarrow> ConnectRequest \<Rightarrow> hook_error + (string \<rightharpoonup> string)" where
  "authenticateConnect sv r req =
     (let token = bearerToken r
      in if token = '''' then Inl (StatusError StatusUnauthorized ''invalid token'')
         else let clientID = (case cq_Meta req of None \<Rightarrow> '''' | Some m \<Rightarrow> map_get m ''client_id'')
              in if clientID = '''' then Inl (StatusError StatusBadRequest ''client_id is required in meta'')
                 else case Lookup (sv_clients sv) clientID of
                        None \<Rightarrow> Inl (StatusError StatusForbidden ''unknown client_id'')
                      | Some binding \<Rightarrow>
                          if \<not> validToken (cb_Token binding) token
                          then Inl (StatusError StatusUnauthorized ''invalid token'')
                          else if (case Pool (sv_registry sv) (cb_Subdomain binding) of
                                     None \<Rightarrow> False
                                   | Some pool \<Rightarrow>
                                       Pool_ByID (sv_registry sv) pool clientID = None
                                       \<and> cb_MaxClients binding \<le> Pool_Len (sv_registry sv) pool)
                          then Inl (StatusError StatusConflict ''subdomain has reached max_clients'')
                          else Inr [''subdomain'' \<mapsto> cb_Subdomain binding,
                                    ''host_key'' \<mapsto> cb_Subdomain binding,
                                    ''client_id'' \<mapsto> clientID])"

definition warmCert :: "string \<Rightarrow> 'x Server \<Rightarrow> 'x Server" where
  "warmCert subdomain sv =
     (if sv_certManager sv = None then sv
      else sv\<lparr>sv_warming := sv_warming sv @ [FQDN subdomain (sc_RootDomain (sv_cfg sv))]\<rparr>)"

definition remoteAddrFromSession :: "session_ptr \<Rightarrow> string" where
  "remoteAddrFromSession s = ''''"

definition new_tunnel ::
  "int \<Rightarrow> string \<Rightarrow> ClientBinding \<Rightarrow> session_ptr \<Rightarrow> yamux_ptr \<Rightarrow> ClientTunnel" where
  "new_tunnel now clientID binding session yamuxSess =
     \<lparr>ct_ID = clientID, ct_Subdomain = cb_Subdomain binding, ct_Session = Some session,
      ct_Yamux = Some yamuxSess, ct_ConnectedAt = now, ct_RemoteAddr = remoteAddrFromSession session,
      ct_LocalHealthy = False, ct_Draining = False, ct_Closed = False, ct_ActiveStreams = 0\<rparr>"

definition onConnect ::
  "'x transport \<Rightarrow> int \<Rightarrow> session_ptr \<Rightarrow> (string \<rightharpoonup> string) \<Rightarrow> 'x Server \<Rightarrow> hook_error option \<times> 'x Server" where
  "onConnect A now session meta sv =
     (let (x, ys) = ClientSession A (rs_ext (sv_registry sv)) session;
          sv = upd_registry (\<lambda>reg. reg\<lparr>rs_ext := x\<rparr>) sv
      in case ys of
           Inl err \<Rightarrow> (Some (PlainError err), sv)
         | Inr yamuxSess \<Rightarrow>
             let clientID = map_get meta ''client_id''
             in case Lookup (sv_clients sv) clientID of
                  None \<Rightarrow> (Some (UnknownClient clientID), sv)
                | Some binding \<Rightarrow>
                    let t = sv_nextTunnel sv;
                        sv = upd_registry (upd_tunnel t (\<lambda>_. new_tunnel now clientID binding session yamuxSess))
                               (sv\<lparr>sv_nextTunnel := Suc t\<rparr>);
                        (err, reg) = Register A t (cb_MaxClients binding) (sv_registry sv);
                        sv = sv\<lparr>sv_registry := reg\<rparr>
                    in case err of
                         Some ErrPoolFull \<Rightarrow>
                           (Some (StatusError StatusConflict ''subdomain has reached max_clients''),
                            upd_registry (\<lambda>reg. reg\<lparr>rs_ext := fst (yamux_Close A (rs_ext reg) yamuxSess)\<rparr>) sv)
                       | None \<Rightarrow> (None, warmCert (cb_Subdomain binding) sv))"

definition onPoll :: "'x transport \<Rightarrow> pollmux_consts \<Rightarrow> session_ptr \<Rightarrow> Header \<Rightarrow> 'x Server \<Rightarrow> 'x Server" where
  "onPoll A pm session hdr sv =
     (let h = Header_Get hdr (HeaderLocalHealth pm)
      in if h \<noteq> '''' then
           let meta = session_Meta A session;
               sub = map_get meta ''subdomain'';
               cid = map_get meta ''client_id''
           in if sub \<noteq> '''' \<and> cid \<noteq> '''' then upd_registry (SetLocalHealth sub cid (h = ''ok'')) sv else sv
         else sv)"

definition onDisconnect :: "'x transport \<Rightarrow> session_ptr \<Rightarrow> 'x Server \<Rightarrow> 'x Server" where
  "onDisconnect A session sv =
     upd_registry (\<lambda>reg.
       let reg = (case GetBySessionID reg (session_ID A session) of
                    None \<Rightarrow> reg
                  | Some tun \<Rightarrow>
                      (case ct_Yamux (rs_tunnels reg tun) of
                         None \<Rightarrow> reg
                       | Some y \<Rightarrow> reg\<lparr>rs_ext := fst (yamux_Close A (rs_ext reg) y)\<rparr>))
       in RemoveBySessionID (session_ID A session) reg) sv"

text \<open>
  The hooks that are handed to pollmux. The clock reading of \<^verbatim>\<open>OnConnect\<close> and the constants of pollmux that \<^verbatim>\<open>OnPoll\<close>
  reads are arguments.
\<close>

record 'x Hooks =
  Authenticate :: "'x Server \<Rightarrow> Request \<Rightarrow> ConnectRequest \<Rightarrow> hook_error + (string \<rightharpoonup> string)"
  OnConnect :: "int \<Rightarrow> session_ptr \<Rightarrow> (string \<rightharpoonup> string) \<Rightarrow> 'x Server \<Rightarrow> hook_error option \<times> 'x Server"
  OnPoll :: "pollmux_consts \<Rightarrow> session_ptr \<Rightarrow> Header \<Rightarrow> 'x Server \<Rightarrow> 'x Server"
  OnDisconnect :: "session_ptr \<Rightarrow> 'x Server \<Rightarrow> 'x Server"

definition buildHooks :: "'x transport \<Rightarrow> 'x Hooks" where
  "buildHooks A =
     \<lparr>Authenticate = authenticateConnect, OnConnect = onConnect A, OnPoll = onPoll A, OnDisconnect = onDisconnect A\<rparr>"

lemma buildHooks_simps [simp]:
  "Authenticate (buildHooks A) = authenticateConnect" "OnConnect (buildHooks A) = onConnect A"
  "OnPoll (buildHooks A) = onPoll A" "OnDisconnect (buildHooks A) = onDisconnect A"
  by (simp_all add: buildHooks_def)

section \<open>tls.go\<close>

datatype start_error = CacheDirRequired

definition setupTLS :: "'x Server \<Rightarrow> (start_error + AutocertManager option) \<times> 'x Server" where
  "setupTLS sv =
     (let tls = sc_TLS (sv_cfg sv)
      in if tls_Disable tls then (Inr None, sv)
         else if tls_CacheDir tls = '''' then (Inl CacheDirRequired, sv)
         else let m = \<lparr>am_CacheDir = tls_CacheDir tls, am_Email = tls_Email tls,
                       am_HostPolicyRoot = sc_RootDomain (sv_cfg sv)\<rparr>
              in (Inr (Some m), sv\<lparr>sv_certManager := Some m\<rparr>))"

text \<open>The policy of the manager reads the registry at the time it is asked.\<close>

definition certHostPolicy :: "'x Server \<Rightarrow> string \<Rightarrow> policy_error option" where
  "certHostPolicy sv host =
     (case sv_certManager sv of
        None \<Rightarrow> None
      | Some m \<Rightarrow> HostPolicyFunc (Subdomains (sv_registry sv)) (am_HostPolicyRoot m) host)"

definition htmlEscape :: "string \<Rightarrow> string" where
  "htmlEscape s =
     concat (map (\<lambda>c. if c = CHR ''&'' then ''&amp;'' else if c = CHR ''<'' then ''&lt;''
                       else if c = CHR ''>'' then ''&gt;'' else if c = CHR 0x22 then ''&#34;''
                       else if c = CHR 0x27 then ''&#39;'' else [c]) s)"

text \<open>
  \<^verbatim>\<open>http.Redirect\<close> with an absolute target: the location is the target with its non-ASCII bytes
  escaped; a GET also gets a body with a link.
\<close>

definition Redirect :: "Request \<Rightarrow> string \<Rightarrow> int \<Rightarrow> string \<Rightarrow> Response" where
  "Redirect r url code text =
     \<lparr>rp_Status = code,
      rp_Header =
        (if rq_Method r \<in> {''GET'', ''HEAD''}
         then Header_Set ''Content-Type'' ''text/html; charset=utf-8'' else id)
        (Header_Set ''Location'' (hexEscapeNonASCII url) (\<lambda>_. [])),
      rp_Body =
        (if rq_Method r = ''GET''
         then TextBody (''<a href='' @ [CHR 0x22] @ htmlEscape url @ [CHR 0x22] @ ''>'' @ text @ ''</a>.'' @ ''\<newline>\<newline>'')
         else EmptyBody)\<rparr>"

definition httpsRedirectHandler :: "Request \<Rightarrow> Response" where
  "httpsRedirectHandler r =
     (let target = ''https://'' @ rq_Host r @ RequestURI (rq_URL r)
      in Redirect r target StatusMovedPermanently ''Moved Permanently'')"

section \<open>Start and stop\<close>

definition publicListenAddr :: "ServerConfig \<Rightarrow> string" where
  "publicListenAddr cfg =
     (if tls_Disable (sc_TLS cfg) then
        (if sc_DevListen cfg \<noteq> '''' then sc_DevListen cfg else sc_PublicListen cfg)
      else sc_PublicListen cfg)"

definition httpServer :: "ServerConfig \<Rightarrow> handler \<Rightarrow> HttpServer" where
  "httpServer cfg h =
     \<lparr>hs_Addr = publicListenAddr cfg, hs_Handler = h,
      hs_ReadHeaderTimeout = px_ReadHeaderTimeout (sc_Proxy cfg),
      hs_MaxHeaderBytes = px_MaxHeaderBytes (sc_Proxy cfg),
      hs_TLS = False, hs_Shutdown = False\<rparr>"

definition startStatusServer :: "'x Server \<Rightarrow> 'x Server" where
  "startStatusServer sv =
     sv\<lparr>sv_statusSrv := Some \<lparr>hs_Addr = st_Listen (sc_Status (sv_cfg sv)), hs_Handler = StatusHandler,
          hs_ReadHeaderTimeout = 0, hs_MaxHeaderBytes = 0, hs_TLS = False, hs_Shutdown = False\<rparr>\<rparr>"

definition start_status :: "'x Server \<Rightarrow> 'x Server" where
  "start_status sv =
     (if st_Enabled (sc_Status (sv_cfg sv)) \<and> st_Listen (sc_Status (sv_cfg sv)) \<noteq> ''''
      then startStatusServer sv else sv)"

definition Start :: "int \<Rightarrow> 'x Server \<Rightarrow> start_error option \<times> 'x Server" where
  "Start now sv =
     (let sv = sv\<lparr>sv_startedAt := now, sv_stopSweeper := True,
                  sv_httpSrv := Some (httpServer (sv_cfg sv) RootHandler)\<rparr>
      in if tls_Disable (sc_TLS (sv_cfg sv)) then (None, start_status sv)
         else case setupTLS sv of
                (Inl err, sv) \<Rightarrow> (Some err, sv)
              | (Inr _, sv) \<Rightarrow>
                  let sv = sv\<lparr>sv_httpSrv := Some ((httpServer (sv_cfg sv) RootHandler)\<lparr>hs_TLS := True\<rparr>)\<rparr>;
                      sv = sv\<lparr>sv_http80Srv := Some \<lparr>hs_Addr = sc_HTTPListen (sv_cfg sv),
                             hs_Handler = RedirectHandler, hs_ReadHeaderTimeout = 0,
                             hs_MaxHeaderBytes = 0, hs_TLS = False, hs_Shutdown = False\<rparr>\<rparr>
                  in (None, start_status sv))"

definition StartOnListener :: "int \<Rightarrow> 'x Server \<Rightarrow> 'x Server" where
  "StartOnListener now sv =
     sv\<lparr>sv_startedAt := now, sv_stopSweeper := True,
        sv_httpSrv := Some (httpServer (sv_cfg sv) RootHandler)\<rparr>"

text \<open>\<^verbatim>\<open>pollmux.CloseSession\<close> with the hooks of this server.\<close>

definition CloseSession :: "'x transport \<Rightarrow> 'x session_store \<Rightarrow> session_ptr \<Rightarrow> 'x Server \<Rightarrow> 'x Server" where
  "CloseSession A P sess sv =
     (let (x, hook) = store_Close P (rs_ext (sv_registry sv)) sess;
          sv = upd_registry (\<lambda>reg. reg\<lparr>rs_ext := x\<rparr>) sv
      in if hook then OnDisconnect (buildHooks A) sess sv else sv)"

text \<open>
  \<open>shutdown\<close> gives the error of \<^verbatim>\<open>http.Server.Shutdown\<close> for a server, of which only that of the public one is
  kept; the sessions are closed before the listeners are shut down.
\<close>

abbreviation Shutdown :: "HttpServer option \<Rightarrow> HttpServer option" where
  "Shutdown \<equiv> map_option (hs_Shutdown_update (\<lambda>_. True))"

definition Stop ::
  "'x transport \<Rightarrow> 'x session_store \<Rightarrow> (HttpServer \<Rightarrow> string option) \<Rightarrow> 'x Server
     \<Rightarrow> string option \<times> 'x Server" where
  "Stop A P shutdown sv =
     (if sv_stopOnce sv then (None, sv)
      else let sv = sv\<lparr>sv_stopOnce := True\<rparr>;
               sv = fold (CloseSession A P) (store_All P (rs_ext (sv_registry sv))) sv;
               sv = (if sv_stopSweeper sv then sv\<lparr>sv_stopSweeper := False\<rparr> else sv);
               errOut = (case sv_httpSrv sv of None \<Rightarrow> None | Some s \<Rightarrow> shutdown s);
               sv = sv\<lparr>sv_httpSrv := Shutdown (sv_httpSrv sv)\<rparr>;
               sv = sv\<lparr>sv_http80Srv := Shutdown (sv_http80Srv sv)\<rparr>;
               sv = sv\<lparr>sv_statusSrv := Shutdown (sv_statusSrv sv)\<rparr>
           in (errOut, sv\<lparr>sv_done := True\<rparr>))"

text \<open>
  \<^const>\<open>Stop\<close> is the run without interference. Sessions and requests go on while it runs; for its interleavings with
  them, the statements of \<^verbatim>\<open>Stop\<close> one by one. The first one is the entry of \<^verbatim>\<open>stopOnce.Do\<close>.
\<close>

datatype stop_stmt = EnterOnce | StopSweeper | ShutdownHttp | ShutdownHttp80 | ShutdownStatus | CloseDone

fun stop_exec :: "stop_stmt \<Rightarrow> 'x Server \<Rightarrow> 'x Server" where
  "stop_exec EnterOnce sv = sv\<lparr>sv_stopOnce := True\<rparr>"
| "stop_exec StopSweeper sv = (if sv_stopSweeper sv then sv\<lparr>sv_stopSweeper := False\<rparr> else sv)"
| "stop_exec ShutdownHttp sv = sv\<lparr>sv_httpSrv := Shutdown (sv_httpSrv sv)\<rparr>"
| "stop_exec ShutdownHttp80 sv = sv\<lparr>sv_http80Srv := Shutdown (sv_http80Srv sv)\<rparr>"
| "stop_exec ShutdownStatus sv = sv\<lparr>sv_statusSrv := Shutdown (sv_statusSrv sv)\<rparr>"
| "stop_exec CloseDone sv = sv\<lparr>sv_done := True\<rparr>"

section \<open>status.go\<close>

definition uptime :: "int \<Rightarrow> 'x Server \<Rightarrow> duration" where
  "uptime now sv = now - sv_startedAt sv"

text \<open>\<open>secs\<close> is the conversion of a duration to seconds through a floating-point number.\<close>

definition handleStatus ::
  "'x transport \<Rightarrow> (duration \<Rightarrow> int) \<Rightarrow> int \<Rightarrow> Request \<Rightarrow> 'x Server \<Rightarrow> go_panic + Response" where
  "handleStatus A secs now r sv =
     (if rq_Method r \<noteq> ''GET'' then Inr (writeHTTPError StatusMethodNotAllowed ''method not allowed'')
      else bind_result (Snapshot A (sv_registry sv))
             (\<lambda>tunnels. Inr (writeJSON StatusOK (StatusBody Version (secs (uptime now sv)) tunnels))))"

section \<open>The server invariant\<close>

abbreviation pool_members :: "'x Server \<Rightarrow> string \<Rightarrow> tunnel_ptr set" where
  "pool_members sv sub \<equiv> {t. member_of (sv_registry sv) sub t}"

text \<open>
  The registry satisfies its invariant and has exactly the pools of the configured subdomains;
  every registered tunnel was allocated by the server and belongs to a configured client with that
  subdomain; no pool is larger than the largest limit of its bindings.
\<close>

definition srv_inv :: "'x transport \<Rightarrow> 'x Server \<Rightarrow> bool" where
  "srv_inv A sv \<longleftrightarrow>
     sv_clients sv = NewClientRegistry (sc_Clients (sv_cfg sv))
     \<and> reg_inv A (sv_registry sv)
     \<and> set (Subdomains (sv_registry sv)) = cb_Subdomain ` set (sc_Clients (sv_cfg sv))
     \<and> (\<forall>sub t. member_of (sv_registry sv) sub t \<longrightarrow> t < sv_nextTunnel sv
          \<and> (\<exists>b. Lookup (sv_clients sv) (tunnel_ID (sv_registry sv) t) = Some b \<and> cb_Subdomain b = sub))
     \<and> (\<forall>sub. pool_members sv sub \<noteq> {} \<longrightarrow>
          (\<exists>b \<in> set (sc_Clients (sv_cfg sv)).
             cb_Subdomain b = sub \<and> int (card (pool_members sv sub)) \<le> cb_MaxClients b))"

lemma srv_invI:
  assumes "sv_clients sv = NewClientRegistry (sc_Clients (sv_cfg sv))"
    and "reg_inv A (sv_registry sv)"
    and "set (Subdomains (sv_registry sv)) = cb_Subdomain ` set (sc_Clients (sv_cfg sv))"
    and "\<And>sub t. member_of (sv_registry sv) sub t \<Longrightarrow> t < sv_nextTunnel sv"
    and "\<And>sub t. member_of (sv_registry sv) sub t \<Longrightarrow>
      \<exists>b. Lookup (sv_clients sv) (tunnel_ID (sv_registry sv) t) = Some b \<and> cb_Subdomain b = sub"
    and "\<And>sub. pool_members sv sub \<noteq> {} \<Longrightarrow>
      \<exists>b \<in> set (sc_Clients (sv_cfg sv)). cb_Subdomain b = sub \<and> int (card (pool_members sv sub)) \<le> cb_MaxClients b"
  shows "srv_inv A sv"
  unfolding srv_inv_def using assms by blast

lemma srv_inv_reg: "srv_inv A sv \<Longrightarrow> reg_inv A (sv_registry sv)"
  by (simp add: srv_inv_def)

lemma srv_inv_clients: "srv_inv A sv \<Longrightarrow> sv_clients sv = NewClientRegistry (sc_Clients (sv_cfg sv))"
  by (simp add: srv_inv_def)

lemma srv_inv_member:
  "srv_inv A sv \<Longrightarrow> member_of (sv_registry sv) sub t \<Longrightarrow>
   t < sv_nextTunnel sv \<and> (\<exists>b. Lookup (sv_clients sv) (tunnel_ID (sv_registry sv) t) = Some b \<and> cb_Subdomain b = sub)"
  unfolding srv_inv_def by blast

text \<open>A change that keeps the names of the pools and adds no member keeps the invariant.\<close>

lemma srv_inv_frame:
  assumes inv: "srv_inv A sv" and reg: "reg_inv A (sv_registry sv')"
    and same: "sv_cfg sv' = sv_cfg sv" "sv_clients sv' = sv_clients sv" "sv_nextTunnel sv' = sv_nextTunnel sv"
      "rs_byName (sv_registry sv') = rs_byName (sv_registry sv)"
      "\<And>t. tunnel_ID (sv_registry sv') t = tunnel_ID (sv_registry sv) t"
    and mem: "\<And>sub t. member_of (sv_registry sv') sub t \<Longrightarrow> member_of (sv_registry sv) sub t"
  shows "srv_inv A sv'"
proof (rule srv_invI)
  fix sub assume ne: "pool_members sv' sub \<noteq> {}"
  have sub: "pool_members sv' sub \<subseteq> pool_members sv sub" using mem by auto
  with inv ne obtain b where b: "b \<in> set (sc_Clients (sv_cfg sv))" "cb_Subdomain b = sub"
    "int (card (pool_members sv sub)) \<le> cb_MaxClients b" unfolding srv_inv_def by blast
  from ne mem obtain t p where "named (sv_registry sv) sub p" by (auto simp: member_of_def)
  then have "finite (pool_members sv sub)" using member_of_named by (metis (no_types, lifting) Collect_cong List.finite_set set_mset_def Collect_mem_eq)
  then have "card (pool_members sv' sub) \<le> card (pool_members sv sub)" using sub by (rule card_mono)
  with b same show "\<exists>b \<in> set (sc_Clients (sv_cfg sv')). cb_Subdomain b = sub
      \<and> int (card (pool_members sv' sub)) \<le> cb_MaxClients b"
    by (intro bexI [of _ b]) auto
qed (use inv reg same srv_inv_member [OF inv mem] in \<open>auto simp: srv_inv_def Subdomains_def\<close>)

lemma SetLocalHealth_simps [simp]:
  "rs_byName (SetLocalHealth sub cid ok st) = rs_byName st"
  "tunnel_ID (SetLocalHealth sub cid ok st) t = tunnel_ID st t"
  "rs_pools (SetLocalHealth sub cid ok st) = rs_pools st"
  "member_of (SetLocalHealth sub cid ok st) = member_of st"
  by (auto simp: SetLocalHealth_def member_of_def named_def fun_eq_iff split: option.splits)

lemma onPoll_inv:
  assumes "srv_inv A sv"
  shows "srv_inv A (onPoll A pm s hdr sv)"
  by (rule srv_inv_frame [OF assms])
     (auto simp: onPoll_def Let_def intro: SetLocalHealth_inv srv_inv_reg [OF assms] split: if_splits)

lemma ext_inv: "reg_inv A reg \<Longrightarrow> reg_inv A (reg\<lparr>rs_ext := x\<rparr>)"
  by (erule reg_inv_frame) simp_all

lemma member_of_ext [simp]: "member_of (reg\<lparr>rs_ext := x\<rparr>) = member_of reg"
  by (simp add: member_of_def named_def fun_eq_iff)

lemma RemoveBySessionID_frame:
  assumes "reg_inv A reg"
  shows "rs_byName (RemoveBySessionID i reg) = rs_byName reg"
    "rs_tunnels (RemoveBySessionID i reg) = rs_tunnels reg"
    "member_of (RemoveBySessionID i reg) sub t \<Longrightarrow> member_of reg sub t"
  using RemoveBySessionID_simps [OF assms] RemoveBySessionID_member [OF assms]
  by (cases "map_of (rs_bySess reg) i"; simp add: RemoveBySessionID_unknown)+

lemma onDisconnect_inv:
  assumes "srv_inv A sv"
  shows "srv_inv A (onDisconnect A s sv)"
proof -
  define reg where "reg = (case GetBySessionID (sv_registry sv) (session_ID A s) of
       None \<Rightarrow> sv_registry sv
     | Some tun \<Rightarrow>
         (case ct_Yamux (rs_tunnels (sv_registry sv) tun) of
            None \<Rightarrow> sv_registry sv
          | Some y \<Rightarrow> (sv_registry sv)\<lparr>rs_ext := fst (yamux_Close A (rs_ext (sv_registry sv)) y)\<rparr>))"
  have d: "onDisconnect A s sv = sv\<lparr>sv_registry := RemoveBySessionID (session_ID A s) reg\<rparr>"
    by (simp add: onDisconnect_def reg_def Let_def)
  have r: "reg_inv A reg" "rs_byName reg = rs_byName (sv_registry sv)"
    "rs_tunnels reg = rs_tunnels (sv_registry sv)" "member_of reg = member_of (sv_registry sv)"
    using srv_inv_reg [OF assms] ext_inv by (auto simp: reg_def split: option.splits)
  show ?thesis unfolding d
    by (rule srv_inv_frame [OF assms])
       (use r RemoveBySessionID_frame [OF r(1)] RemoveBySessionID_inv [OF r(1)] in auto)
qed

section \<open>Connecting\<close>

text \<open>The registry as \<^verbatim>\<open>onConnect\<close> hands it to \<^verbatim>\<open>Register\<close>, with the new tunnel built.\<close>

definition with_tunnel ::
  "int \<Rightarrow> string \<Rightarrow> ClientBinding \<Rightarrow> session_ptr \<Rightarrow> yamux_ptr \<Rightarrow> 'x \<Rightarrow> 'x Server \<Rightarrow> 'x reg_state" where
  "with_tunnel now cid b s y x sv =
     upd_tunnel (sv_nextTunnel sv) (\<lambda>_. new_tunnel now cid b s y) ((sv_registry sv)\<lparr>rs_ext := x\<rparr>)"

lemma onConnect_known:
  assumes "ClientSession A (rs_ext (sv_registry sv)) s = (x, Inr y)"
    and "Lookup (sv_clients sv) (map_get meta ''client_id'') = Some b"
  shows "onConnect A now s meta sv =
    (case Register A (sv_nextTunnel sv) (cb_MaxClients b) (with_tunnel now (map_get meta ''client_id'') b s y x sv) of
       (None, reg) \<Rightarrow>
         (None, warmCert (cb_Subdomain b) (sv\<lparr>sv_nextTunnel := Suc (sv_nextTunnel sv), sv_registry := reg\<rparr>))
     | (Some _, reg) \<Rightarrow>
         (Some (StatusError StatusConflict ''subdomain has reached max_clients''),
          sv\<lparr>sv_nextTunnel := Suc (sv_nextTunnel sv),
             sv_registry := reg\<lparr>rs_ext := fst (yamux_Close A (rs_ext reg) y)\<rparr>\<rparr>))"
  using assms
  by (auto simp: onConnect_def with_tunnel_def Let_def split: prod.splits option.splits registry_error.splits)

lemma with_tunnel_simps [simp]:
  "rs_byName (with_tunnel now cid b s y x sv) = rs_byName (sv_registry sv)"
  "rs_bySess (with_tunnel now cid b s y x sv) = rs_bySess (sv_registry sv)"
  "rs_ext (with_tunnel now cid b s y x sv) = x"
  "rs_tunnels (with_tunnel now cid b s y x sv) (sv_nextTunnel sv) = new_tunnel now cid b s y"
  "u \<noteq> sv_nextTunnel sv \<Longrightarrow> rs_tunnels (with_tunnel now cid b s y x sv) u = rs_tunnels (sv_registry sv) u"
  "member_of (with_tunnel now cid b s y x sv) = member_of (sv_registry sv)"
  by (simp_all add: with_tunnel_def member_of_def named_def fun_eq_iff)

lemma with_tunnel_ok:
  assumes inv: "srv_inv A sv" and sid: "GetBySessionID (sv_registry sv) (session_ID A s) = None"
  shows "reg_inv A (with_tunnel now cid b s y x sv)"
    "fresh_tunnel A (with_tunnel now cid b s y x sv) (sv_nextTunnel sv)"
proof -
  have nm: "\<not> member_of (sv_registry sv) sub (sv_nextTunnel sv)" for sub
    using srv_inv_member [OF inv] by blast
  show "reg_inv A (with_tunnel now cid b s y x sv)"
    unfolding with_tunnel_def
    by (rule upd_nonmember_inv [OF ext_inv [OF srv_inv_reg [OF inv]]]) (simp add: nm)
  show "fresh_tunnel A (with_tunnel now cid b s y x sv) (sv_nextTunnel sv)"
    using nm sid by (simp add: fresh_tunnel_def has_sid_def new_tunnel_def GetBySessionID_def)
qed

lemma ensured_with_tunnel:
  assumes "srv_inv A sv" "Lookup (sv_clients sv) cid = Some b"
  shows "ensured (with_tunnel now cid b s y x sv) (sv_nextTunnel sv) = with_tunnel now cid b s y x sv"
proof (rule EnsurePool_known)
  have "b \<in> set (sc_Clients (sv_cfg sv))"
    using assms Lookup_mem unfolding srv_inv_def by metis
  then show "ct_Subdomain (rs_tunnels (with_tunnel now cid b s y x sv) (sv_nextTunnel sv))
      \<in> set (Subdomains (with_tunnel now cid b s y x sv))"
    using assms(1) by (simp add: srv_inv_def Subdomains_def new_tunnel_def)
qed

text \<open>A successful connect: the new tunnel takes the place of the client's old one.\<close>

lemma onConnect_registered:
  assumes inv: "srv_inv A sv" and sid: "GetBySessionID (sv_registry sv) (session_ID A s) = None"
    and b: "Lookup (sv_clients sv) cid = Some b"
    and reg: "Register A (sv_nextTunnel sv) (cb_MaxClients b) (with_tunnel now cid b s y x sv) = (None, reg)"
  shows "rs_byName reg = rs_byName (sv_registry sv)" "reg_inv A reg"
    "member_of reg sub u \<longleftrightarrow>
       (if sub = cb_Subdomain b \<and> (u = sv_nextTunnel sv \<or> tunnel_ID (sv_registry sv) u = cid)
        then u = sv_nextTunnel sv else member_of (sv_registry sv) sub u)"
    "tunnel_ID reg u = (if u = sv_nextTunnel sv then cid else tunnel_ID (sv_registry sv) u)"
    "ct_LocalHealthy (rs_tunnels reg (sv_nextTunnel sv))" "rs_ext reg = x"
    "ct_Session (rs_tunnels reg (sv_nextTunnel sv)) = Some s" "ct_Yamux (rs_tunnels reg (sv_nextTunnel sv)) = Some y"
    "ct_ActiveStreams (rs_tunnels reg u) =
       (if u = sv_nextTunnel sv then 0 else ct_ActiveStreams (rs_tunnels (sv_registry sv) u))"
proof -
  define reg0 where "reg0 = with_tunnel now cid b s y x sv"
  define t where "t = sv_nextTunnel sv"
  note ok = with_tunnel_ok [OF inv sid, of now cid b y x, folded reg0_def t_def]
  have r: "registered A reg0 t reg"
    by (rule Register_cases [OF ok, of "cb_MaxClients b"])
       (use reg ensured_with_tunnel [OF inv b, of now s y x] in \<open>auto simp: reg0_def t_def\<close>)
  have new: "rs_tunnels reg0 t = new_tunnel now cid b s y" by (simp add: reg0_def t_def)
  have mem0: "member_of reg0 = member_of (sv_registry sv)" by (simp add: reg0_def)
  show "rs_byName reg = rs_byName (sv_registry sv)" "rs_ext reg = x"
    using r by (simp_all add: registered_def reg0_def)
  show "reg_inv A reg"
    using Register_inv [OF ok, of "cb_MaxClients b"] reg by (simp add: reg0_def t_def)
  show "tunnel_ID reg u = (if u = sv_nextTunnel sv then cid else tunnel_ID (sv_registry sv) u)"
    using registered_fields(1) [OF r, of u] new by (simp add: reg0_def t_def new_tunnel_def)
  show "ct_Session (rs_tunnels reg (sv_nextTunnel sv)) = Some s" "ct_Yamux (rs_tunnels reg (sv_nextTunnel sv)) = Some y"
    using registered_fields(3,4) [OF r, of t] new by (simp_all add: t_def new_tunnel_def)
  show "ct_ActiveStreams (rs_tunnels reg u) =
       (if u = sv_nextTunnel sv then 0 else ct_ActiveStreams (rs_tunnels (sv_registry sv) u))"
    using registered_fields(5) [OF r, of u] new by (simp add: reg0_def t_def new_tunnel_def)
  have "tunnel_ID reg0 u = cid \<longleftrightarrow> u = t \<or> tunnel_ID (sv_registry sv) u = cid"
    by (cases "u = t") (simp_all add: new new_tunnel_def, simp add: reg0_def t_def)
  then show "member_of reg sub u \<longleftrightarrow>
       (if sub = cb_Subdomain b \<and> (u = sv_nextTunnel sv \<or> tunnel_ID (sv_registry sv) u = cid)
        then u = sv_nextTunnel sv else member_of (sv_registry sv) sub u)"
    using registered_member [OF r, of sub u] new mem0 unfolding t_def by (auto simp: new_tunnel_def)
  show "ct_LocalHealthy (rs_tunnels reg (sv_nextTunnel sv))"
    using r unfolding registered_def t_def by blast
qed

lemma warmCert_simps [simp]:
  "sv_registry (warmCert sub sv) = sv_registry sv" "sv_cfg (warmCert sub sv) = sv_cfg sv"
  "sv_clients (warmCert sub sv) = sv_clients sv" "sv_nextTunnel (warmCert sub sv) = sv_nextTunnel sv"
  "sv_routes (warmCert sub sv) = sv_routes sv"
  by (simp_all add: warmCert_def)

lemma srv_inv_warm: "srv_inv A (warmCert sub sv) \<longleftrightarrow> srv_inv A sv"
  by (simp add: srv_inv_def)

lemma srv_inv_finite: "srv_inv A sv \<Longrightarrow> finite (pool_members sv sub)"
proof (cases "Pool (sv_registry sv) sub")
  case None
  then show ?thesis by (simp add: member_of_def named_def Pool_def)
next
  case (Some p)
  then have "pool_members sv sub = set (members (sv_registry sv) p)"
    using member_of_named [of "sv_registry sv" sub p] by (auto simp: named_def Pool_def)
  then show ?thesis by simp
qed

text \<open>The pool of the client stays within its limit, or does not grow.\<close>

lemma onConnect_bound:
  assumes inv: "srv_inv A sv" and sid: "GetBySessionID (sv_registry sv) (session_ID A s) = None"
    and b: "Lookup (sv_clients sv) cid = Some b"
    and reg: "Register A (sv_nextTunnel sv) (cb_MaxClients b) (with_tunnel now cid b s y x sv) = (None, reg)"
  shows "\<exists>b' \<in> set (sc_Clients (sv_cfg sv)). cb_Subdomain b' = cb_Subdomain b
      \<and> int (card {u. member_of reg (cb_Subdomain b) u}) \<le> cb_MaxClients b'"
proof -
  let ?t = "sv_nextTunnel sv" and ?sub = "cb_Subdomain b"
  let ?old = "pool_members sv ?sub" and ?new = "{u. member_of reg ?sub u}"
  let ?reg0 = "with_tunnel now cid b s y x sv"
  have fin: "finite ?old" by (rule srv_inv_finite [OF inv])
  have bin: "b \<in> set (sc_Clients (sv_cfg sv))"
    using b Lookup_mem srv_inv_clients [OF inv] by metis
  have new: "?new = insert ?t (?old - {u. tunnel_ID (sv_registry sv) u = cid})"
    using onConnect_registered(3) [OF inv sid b reg, of ?sub] by auto
  have t: "\<not> member_of (sv_registry sv) ?sub ?t" using srv_inv_member [OF inv] by blast
  have id: "tunnel_ID ?reg0 u = tunnel_ID (sv_registry sv) u" if "u \<in> ?old" for u
    using that t by (cases "u = ?t") auto
  have room: "(\<exists>u. u \<in> ?old \<and> tunnel_ID ?reg0 u = cid) \<or> int (card ?old) < cb_MaxClients b"
    using Register_room [OF with_tunnel_ok(1) [OF inv sid, of now cid b y x], of ?t "cb_MaxClients b"] reg
    by (simp add: new_tunnel_def)
  then consider u where "u \<in> ?old" "tunnel_ID (sv_registry sv) u = cid" | "int (card ?old) < cb_MaxClients b"
    using id by metis
  then show ?thesis
  proof cases
    case 1
    then have "card (?old - {u. tunnel_ID (sv_registry sv) u = cid}) < card ?old"
      using fin by (intro psubset_card_mono) auto
    then have "card ?new \<le> card ?old" unfolding new using fin by (simp add: card_insert_if)
    moreover obtain b' where "b' \<in> set (sc_Clients (sv_cfg sv))" "cb_Subdomain b' = ?sub"
      "int (card ?old) \<le> cb_MaxClients b'"
      using inv 1(1) unfolding srv_inv_def by blast
    ultimately show ?thesis by (intro bexI [of _ b']) auto
  next
    case 2
    have "card (?old - {u. tunnel_ID (sv_registry sv) u = cid}) \<le> card ?old"
      using fin by (intro card_mono) auto
    then have "card ?new \<le> Suc (card ?old)" unfolding new using fin by (simp add: card_insert_if)
    with 2 bin show ?thesis by (intro bexI [of _ b]) auto
  qed
qed

lemma onConnect_ok_inv:
  assumes inv: "srv_inv A sv" and sid: "GetBySessionID (sv_registry sv) (session_ID A s) = None"
    and b: "Lookup (sv_clients sv) cid = Some b"
    and reg: "Register A (sv_nextTunnel sv) (cb_MaxClients b) (with_tunnel now cid b s y x sv) = (None, reg)"
  shows "srv_inv A (sv\<lparr>sv_nextTunnel := Suc (sv_nextTunnel sv), sv_registry := reg\<rparr>)"
    (is "srv_inv A ?sv'")
proof (rule srv_invI)
  let ?t = "sv_nextTunnel sv"
  note f = onConnect_registered [OF inv sid b reg]
  have bin: "b \<in> set (sc_Clients (sv_cfg sv))"
    using b Lookup_mem srv_inv_clients [OF inv] by metis
  have old: "member_of reg sub u \<Longrightarrow> u \<noteq> ?t \<Longrightarrow> member_of (sv_registry sv) sub u" for sub u
    using f(3) [of sub u] by (auto split: if_splits)
  show "u < sv_nextTunnel ?sv'" if "member_of (sv_registry ?sv') sub u" for sub u
    using old [of sub u] that srv_inv_member [OF inv, of sub u] by (cases "u = ?t") auto
  show "\<exists>b. Lookup (sv_clients ?sv') (tunnel_ID (sv_registry ?sv') u) = Some b \<and> cb_Subdomain b = sub"
    if m: "member_of (sv_registry ?sv') sub u" for sub u
  proof (cases "u = ?t")
    case True
    have "\<not> member_of (sv_registry sv) sub ?t" using srv_inv_member [OF inv] by blast
    then have "sub = cb_Subdomain b" using f(3) [of sub ?t] m True by (auto split: if_splits)
    then show ?thesis using True b f(4) [of ?t] by simp
  next
    case False
    then show ?thesis using old [of sub u] m srv_inv_member [OF inv, of sub u] f(4) [of u] by simp
  qed
  show "\<exists>b \<in> set (sc_Clients (sv_cfg ?sv')). cb_Subdomain b = sub
      \<and> int (card (pool_members ?sv' sub)) \<le> cb_MaxClients b" if ne: "pool_members ?sv' sub \<noteq> {}" for sub
  proof (cases "sub = cb_Subdomain b")
    case False
    then have "pool_members ?sv' sub = pool_members sv sub" using f(3) by simp
    then show ?thesis using inv ne unfolding srv_inv_def by simp
  next
    case True
    show ?thesis
      unfolding True using onConnect_bound [OF inv sid b reg] by simp
  qed
qed (use inv onConnect_registered(1,2) [OF inv sid b reg] in \<open>simp_all add: srv_inv_def Subdomains_def\<close>)

lemma onConnect_inv:
  assumes inv: "srv_inv A sv" and sid: "GetBySessionID (sv_registry sv) (session_ID A s) = None"
  shows "srv_inv A (snd (onConnect A now s meta sv))"
proof -
  obtain x ys where cs: "ClientSession A (rs_ext (sv_registry sv)) s = (x, ys)" by fastforce
  have plain: "srv_inv A (sv\<lparr>sv_registry := (sv_registry sv)\<lparr>rs_ext := x\<rparr>\<rparr>)"
    by (rule srv_inv_frame [OF inv]) (simp_all add: ext_inv srv_inv_reg [OF inv])
  show ?thesis
  proof (cases ys)
    case (Inl err)
    with cs plain show ?thesis by (simp add: onConnect_def)
  next
    case (Inr y)
    define cid where "cid = map_get meta ''client_id''"
    show ?thesis
    proof (cases "Lookup (sv_clients sv) cid")
      case None
      with cs Inr plain show ?thesis by (simp add: onConnect_def cid_def)
    next
      case (Some b)
      note c = onConnect_known [OF cs [unfolded Inr] Some [unfolded cid_def], of now, folded cid_def]
      show ?thesis
      proof (rule Register_cases [OF with_tunnel_ok [OF inv sid, of now cid b y x], of "cb_MaxClients b"])
        fix reg assume reg: "Register A (sv_nextTunnel sv) (cb_MaxClients b) (with_tunnel now cid b s y x sv) = (None, reg)"
        then show ?thesis using onConnect_ok_inv [OF inv sid Some reg] by (simp add: c srv_inv_warm)
      next
        assume full: "Register A (sv_nextTunnel sv) (cb_MaxClients b) (with_tunnel now cid b s y x sv) =
            (Some ErrPoolFull, ensured (with_tunnel now cid b s y x sv) (sv_nextTunnel sv))"
        have nt: "\<not> member_of (sv_registry sv) sub (sv_nextTunnel sv)" for sub
          using srv_inv_member [OF inv] by blast
        have "srv_inv A (sv\<lparr>sv_nextTunnel := Suc (sv_nextTunnel sv),
            sv_registry := (with_tunnel now cid b s y x sv)\<lparr>rs_ext := z\<rparr>\<rparr>)" for z
        proof (rule srv_invI)
          fix sub u
          let ?sv = "sv\<lparr>sv_nextTunnel := Suc (sv_nextTunnel sv),
              sv_registry := (with_tunnel now cid b s y x sv)\<lparr>rs_ext := z\<rparr>\<rparr>"
          assume m: "member_of (sv_registry ?sv) sub u"
          then have "u \<noteq> sv_nextTunnel sv" "member_of (sv_registry sv) sub u" using nt by auto
          then show "u < sv_nextTunnel ?sv"
            "\<exists>b. Lookup (sv_clients ?sv) (tunnel_ID (sv_registry ?sv) u) = Some b \<and> cb_Subdomain b = sub"
            using srv_inv_member [OF inv, of sub u] by auto
        qed (use inv ext_inv [OF with_tunnel_ok(1) [OF inv sid]] in
              \<open>simp_all add: srv_inv_def Subdomains_def\<close>)
        then show ?thesis using ensured_with_tunnel [OF inv Some] full by (simp add: c)
      qed
    qed
  qed
qed

lemma CloseSession_inv: "srv_inv A sv \<Longrightarrow> srv_inv A (CloseSession A P s sv)"
proof -
  assume inv: "srv_inv A sv"
  have "srv_inv A (sv\<lparr>sv_registry := (sv_registry sv)\<lparr>rs_ext := x\<rparr>\<rparr>)" for x
    by (rule srv_inv_frame [OF inv]) (simp_all add: ext_inv srv_inv_reg [OF inv])
  then show ?thesis
    by (simp add: CloseSession_def onDisconnect_inv case_prod_beta Let_def)
qed

lemma srv_inv_cong:
  "srv_inv A sv \<Longrightarrow> sv_cfg sv' = sv_cfg sv \<Longrightarrow> sv_clients sv' = sv_clients sv
   \<Longrightarrow> sv_nextTunnel sv' = sv_nextTunnel sv \<Longrightarrow> sv_registry sv' = sv_registry sv \<Longrightarrow> srv_inv A sv'"
  by (rule srv_inv_frame [of A sv]) (auto dest: srv_inv_reg)

lemma Start_frame:
  "sv_cfg (snd (Start now sv)) = sv_cfg sv" "sv_clients (snd (Start now sv)) = sv_clients sv"
  "sv_nextTunnel (snd (Start now sv)) = sv_nextTunnel sv" "sv_registry (snd (Start now sv)) = sv_registry sv"
  "sv_routes (snd (Start now sv)) = sv_routes sv"
  by (simp_all add: Start_def setupTLS_def start_status_def startStatusServer_def Let_def split: prod.splits sum.splits)

lemma Stop_inv: "srv_inv A sv \<Longrightarrow> srv_inv A (snd (Stop A P sd sv))"
proof -
  assume inv: "srv_inv A sv"
  have f: "srv_inv A sv \<Longrightarrow> srv_inv A (fold (CloseSession A P) ss sv)" for ss sv
    by (induction ss arbitrary: sv) (simp_all add: CloseSession_inv)
  have "srv_inv A (sv\<lparr>sv_stopOnce := True\<rparr>)" by (rule srv_inv_cong [OF inv]) simp_all
  note g = f [OF this]
  show ?thesis
    unfolding Stop_def Let_def using inv
    by (auto intro!: srv_inv_cong [OF g])
qed

text \<open>The construction establishes the invariant.\<close>

lemma fold_EnsurePool_inv:
  "reg_inv A reg \<Longrightarrow> reg_inv A (fold (\<lambda>b reg. snd (EnsurePool (cb_Subdomain b) reg)) bs reg)"
  by (induction bs arbitrary: reg) (simp_all add: EnsurePool_inv)

lemma EnsurePool_Subdomains: "set (Subdomains (snd (EnsurePool s reg))) = insert s (set (Subdomains reg))"
proof (cases "map_of (rs_byName reg) s")
  case None
  then show ?thesis
    by (simp add: EnsurePool_def new_pool_def Subdomains_def Let_def update_conv' dom_map_of_conv_image_fst [symmetric])
next
  case (Some p)
  then show ?thesis by (force simp: EnsurePool_def Subdomains_def dest: map_of_SomeD)
qed

lemma fold_EnsurePool_Subdomains:
  "set (Subdomains (fold (\<lambda>b reg. snd (EnsurePool (cb_Subdomain b) reg)) bs reg)) =
     cb_Subdomain ` set bs \<union> set (Subdomains reg)"
  by (induction bs arbitrary: reg) (auto simp: EnsurePool_Subdomains)

lemma build_routes_Subdomains:
  "set (Subdomains (snd (build_routes bs bh reg))) = cb_Subdomain ` set bs \<union> set (Subdomains reg)"
proof (induction bs arbitrary: bh reg)
  case (Cons b bs)
  show ?case by (simp add: case_prod_beta Let_def Cons EnsurePool_Subdomains)
qed simp

lemma no_members_fold:
  "(\<And>sub t. \<not> member_of reg sub t) \<Longrightarrow> reg_inv A reg \<Longrightarrow>
   \<not> member_of (fold (\<lambda>b reg. snd (EnsurePool (cb_Subdomain b) reg)) bs reg) sub t"
proof (induction bs arbitrary: reg)
  case (Cons b bs)
  then show ?case by (simp add: EnsurePool_inv EnsurePool_member_of)
qed simp

lemma no_members_build:
  "(\<And>sub t. \<not> member_of reg sub t) \<Longrightarrow> reg_inv A reg \<Longrightarrow> \<not> member_of (snd (build_routes bs bh reg)) sub t"
proof (induction bs arbitrary: bh reg)
  case (Cons b bs)
  then show ?case by (simp add: case_prod_beta Let_def EnsurePool_inv EnsurePool_member_of)
qed simp

lemma buildRouteTable_state:
  assumes "reg_inv A reg" "\<And>sub t. \<not> member_of reg sub t"
  shows "reg_inv A (snd (buildRouteTable srt cfg reg))"
    "\<not> member_of (snd (buildRouteTable srt cfg reg)) sub t"
    "set (Subdomains (snd (buildRouteTable srt cfg reg))) =
       cb_Subdomain ` set (sc_Clients cfg) \<union> set (Subdomains reg)"
proof -
  note r = fold_EnsurePool_inv [OF assms(1)] no_members_fold [OF assms(2,1)]
  show "reg_inv A (snd (buildRouteTable srt cfg reg))"
    unfolding buildRouteTable_def NewRouteTable_snd by (rule build_routes_inv [OF r(1)])
  show "\<not> member_of (snd (buildRouteTable srt cfg reg)) sub t"
    unfolding buildRouteTable_def NewRouteTable_snd by (rule no_members_build [OF r(2,1)])
  show "set (Subdomains (snd (buildRouteTable srt cfg reg))) =
       cb_Subdomain ` set (sc_Clients cfg) \<union> set (Subdomains reg)"
    unfolding buildRouteTable_def NewRouteTable_snd build_routes_Subdomains fold_EnsurePool_Subdomains
    by auto
qed

lemma NewServer_fields:
  assumes "NewServer pm srt heap x cfg = Inr sv"
  obtains reg where "ValidateServer pm cfg = Inr (sv_cfg sv)"
    "reg = NewRegistry (tun_SupersedeDrainTimeout (sc_Tunnel (sv_cfg sv))) heap x"
    "sv_registry sv = snd (buildRouteTable srt (sv_cfg sv) reg)"
    "sv_routes sv = fst (buildRouteTable srt (sv_cfg sv) reg)"
    "sv_clients sv = NewClientRegistry (sc_Clients (sv_cfg sv))" "\<not> sv_stopOnce sv"
  using assms unfolding NewServer_def
  by (auto simp: bind_result_Inr Let_def case_prod_beta)

lemma NewServer_inv:
  assumes "NewServer pm srt heap x cfg = Inr sv"
  shows "srv_inv A sv"
proof -
  from NewServer_fields [OF assms] obtain reg where r:
    "reg = NewRegistry (tun_SupersedeDrainTimeout (sc_Tunnel (sv_cfg sv))) heap x"
    "sv_registry sv = snd (buildRouteTable srt (sv_cfg sv) reg)"
    "sv_clients sv = NewClientRegistry (sc_Clients (sv_cfg sv))" by metis
  have i: "reg_inv A reg" unfolding r(1) by (rule reg_inv_new)
  have m: "\<not> member_of reg sub t" for sub t
    using r(1) by (simp add: member_of_def named_def NewRegistry_def)
  note b = buildRouteTable_state [OF i m, of srt "sv_cfg sv"]
  have "Subdomains reg = []" by (simp add: r(1) NewRegistry_def Subdomains_def)
  then show ?thesis using b r(2,3) by (intro srv_invI) auto
qed

section \<open>Properties of the control plane\<close>

abbreviation requested_client :: "ConnectRequest \<Rightarrow> string" where
  "requested_client req \<equiv> (case cq_Meta req of None \<Rightarrow> '''' | Some m \<Rightarrow> map_get m ''client_id'')"

text \<open>Whether a client may take a place in the pool of its binding: it has one, or one is free.\<close>

definition has_place :: "'x Server \<Rightarrow> ClientBinding \<Rightarrow> string \<Rightarrow> bool" where
  "has_place sv b cid \<longleftrightarrow>
     (\<exists>u. member_of (sv_registry sv) (cb_Subdomain b) u \<and> tunnel_ID (sv_registry sv) u = cid)
     \<or> int (card (pool_members sv (cb_Subdomain b))) < cb_MaxClients b"

lemma srv_inv_pool:
  assumes "srv_inv A sv" "Lookup (sv_clients sv) cid = Some b"
  obtains p where "Pool (sv_registry sv) (cb_Subdomain b) = Some p"
proof -
  have "b \<in> set (sc_Clients (sv_cfg sv))" using assms Lookup_mem srv_inv_clients by metis
  then have "cb_Subdomain b \<in> fst ` set (rs_byName (sv_registry sv))"
    using assms(1) by (auto simp: srv_inv_def Subdomains_def)
  then have "map_of (rs_byName (sv_registry sv)) (cb_Subdomain b) \<noteq> None"
    by (metis map_of_eq_None_iff)
  then show ?thesis using that by (auto simp: Pool_def)
qed

lemma place_test:
  assumes inv: "srv_inv A sv" and b: "Lookup (sv_clients sv) cid = Some b"
    and p: "Pool (sv_registry sv) (cb_Subdomain b) = Some p"
  shows "has_place sv b cid \<longleftrightarrow>
    \<not> (Pool_ByID (sv_registry sv) p cid = None \<and> cb_MaxClients b \<le> Pool_Len (sv_registry sv) p)"
proof -
  have n: "named (sv_registry sv) (cb_Subdomain b) p" using p by (simp add: named_def Pool_def)
  have "Pool_ByID (sv_registry sv) p cid = None \<longleftrightarrow>
      (\<forall>u. member_of (sv_registry sv) (cb_Subdomain b) u \<longrightarrow> tunnel_ID (sv_registry sv) u \<noteq> cid)"
    unfolding Pool_ByID_def find_None_ID member_of_named [OF n] by auto
  then show ?thesis
    using pool_card [OF srv_inv_reg [OF inv] n] by (auto simp: has_place_def Pool_Len_def)
qed

text \<open>
  C2: a connect is admitted exactly when it names a configured client, presents that client's
  nonempty token as bearer token, and the client already has a tunnel or its subdomain has fewer
  tunnels than the binding allows. What the session then remembers is the binding's subdomain and
  the client ID.
\<close>

theorem authenticateConnect_iff:
  assumes "srv_inv A sv"
  shows "authenticateConnect sv r req = Inr meta \<longleftrightarrow>
    (\<exists>b. requested_client req \<noteq> '''' \<and> Lookup (sv_clients sv) (requested_client req) = Some b
       \<and> cb_Token b \<noteq> '''' \<and> Header_Get (rq_Header r) ''Authorization'' = ''Bearer '' @ cb_Token b
       \<and> has_place sv b (requested_client req)
       \<and> meta = [''subdomain'' \<mapsto> cb_Subdomain b, ''host_key'' \<mapsto> cb_Subdomain b,
                 ''client_id'' \<mapsto> requested_client req])"
proof (cases "Lookup (sv_clients sv) (requested_client req)")
  case None
  then show ?thesis by (auto simp: authenticateConnect_def Let_def)
next
  case (Some b)
  obtain p where p: "Pool (sv_registry sv) (cb_Subdomain b) = Some p" by (rule srv_inv_pool [OF assms Some])
  have tok: "bearerToken r \<noteq> '''' \<and> validToken (cb_Token b) (bearerToken r) \<longleftrightarrow>
      cb_Token b \<noteq> '''' \<and> Header_Get (rq_Header r) ''Authorization'' = ''Bearer '' @ cb_Token b"
    unfolding validToken_iff using bearerToken_iff [of "cb_Token b" r] by auto
  show ?thesis
    using Some p tok place_test [OF assms Some p]
    unfolding authenticateConnect_def Let_def by (auto split: if_splits)
qed

lemma admitted_meta:
  assumes "srv_inv A sv" "authenticateConnect sv r req = Inr meta"
  obtains b where "Lookup (sv_clients sv) (requested_client req) = Some b"
    "has_place sv b (requested_client req)" "map_get meta ''client_id'' = requested_client req"
    "map_get meta ''subdomain'' = cb_Subdomain b"
proof (cases "Lookup (sv_clients sv) (requested_client req)")
  case None
  with assms(2) show ?thesis by (auto simp: authenticateConnect_def Let_def split: if_splits)
next
  case (Some b)
  obtain p where p: "Pool (sv_registry sv) (cb_Subdomain b) = Some p" by (rule srv_inv_pool [OF assms(1) Some])
  show ?thesis
    by (rule that [OF Some])
       (use assms(2) Some p place_test [OF assms(1) Some p] in
         \<open>auto simp: authenticateConnect_def Let_def map_get_def split: if_splits\<close>)
qed

text \<open>The admitted connect in detail.\<close>

lemma admitted_registers:
  assumes inv: "srv_inv A sv" and auth: "authenticateConnect sv r req = Inr meta"
    and sid: "GetBySessionID (sv_registry sv) (session_ID A s) = None"
    and cs: "ClientSession A (rs_ext (sv_registry sv)) s = (x, Inr y)"
  obtains b reg where "Lookup (sv_clients sv) (requested_client req) = Some b"
    "map_get meta ''client_id'' = requested_client req" "map_get meta ''subdomain'' = cb_Subdomain b"
    "Register A (sv_nextTunnel sv) (cb_MaxClients b) (with_tunnel now (requested_client req) b s y x sv) = (None, reg)"
    "onConnect A now s meta sv =
       (None, warmCert (cb_Subdomain b) (sv\<lparr>sv_nextTunnel := Suc (sv_nextTunnel sv), sv_registry := reg\<rparr>))"
proof -
  let ?cid = "requested_client req" and ?t = "sv_nextTunnel sv"
  from auth obtain b where b: "Lookup (sv_clients sv) ?cid = Some b" and place: "has_place sv b ?cid"
    and meta: "map_get meta ''client_id'' = ?cid" "map_get meta ''subdomain'' = cb_Subdomain b"
    by (rule admitted_meta [OF inv])
  have nt: "\<not> member_of (sv_registry sv) sub ?t" for sub using srv_inv_member [OF inv] by blast
  have "fst (Register A ?t (cb_MaxClients b) (with_tunnel now ?cid b s y x sv)) = None"
    using Register_room [OF with_tunnel_ok(1) [OF inv sid, of now ?cid b y x], of ?t "cb_MaxClients b"] place nt
    by (auto simp: has_place_def new_tunnel_def) (metis with_tunnel_simps(5))
  then obtain reg where reg: "Register A ?t (cb_MaxClients b) (with_tunnel now ?cid b s y x sv) = (None, reg)"
    by (cases "Register A ?t (cb_MaxClients b) (with_tunnel now ?cid b s y x sv)") auto
  moreover have "onConnect A now s meta sv = (None, warmCert (cb_Subdomain b) (sv\<lparr>sv_nextTunnel := Suc ?t, sv_registry := reg\<rparr>))"
    using onConnect_known [OF cs b [folded meta(1)], of now] reg meta by simp
  ultimately show ?thesis
    using that b meta by blast
qed

text \<open>
  A connect that \<^verbatim>\<open>authenticateConnect\<close> admits is not refused by \<^verbatim>\<open>onConnect\<close>, if nothing happened
  in between and the yamux session can be opened: afterwards the new tunnel is the one that serves
  the client, it is marked healthy, and the server invariant holds.
\<close>

lemma admitted_connect_registers:
  assumes inv: "srv_inv A sv" and auth: "authenticateConnect sv r req = Inr meta"
    and sid: "GetBySessionID (sv_registry sv) (session_ID A s) = None"
    and cs: "ClientSession A (rs_ext (sv_registry sv)) s = (x, Inr y)"
  shows "\<exists>sv'. onConnect A now s meta sv = (None, sv') \<and> srv_inv A sv'
    \<and> lookup_tunnel (sv_registry sv') (map_get meta ''subdomain'', map_get meta ''client_id'') =
        Some (sv_nextTunnel sv)
    \<and> ct_LocalHealthy (rs_tunnels (sv_registry sv') (sv_nextTunnel sv))"
proof -
  obtain b reg where b: "Lookup (sv_clients sv) (requested_client req) = Some b"
    and meta: "map_get meta ''client_id'' = requested_client req" "map_get meta ''subdomain'' = cb_Subdomain b"
    and reg: "Register A (sv_nextTunnel sv) (cb_MaxClients b) (with_tunnel now (requested_client req) b s y x sv) = (None, reg)"
    and con: "onConnect A now s meta sv =
       (None, warmCert (cb_Subdomain b) (sv\<lparr>sv_nextTunnel := Suc (sv_nextTunnel sv), sv_registry := reg\<rparr>))"
    by (rule admitted_registers [OF assms, where now = now])
  note f = onConnect_registered [OF inv sid b reg]
  have "lookup_tunnel reg (cb_Subdomain b, requested_client req) = Some (sv_nextTunnel sv)"
    unfolding lookup_tunnel_iff [OF f(2)] using f(3,4) by simp
  then show ?thesis
    using con onConnect_ok_inv [OF inv sid b reg] f(5) meta by (simp add: srv_inv_warm)
qed

text \<open>What gorilla/mux documents: it dispatches only to routes of the table.\<close>

definition mux_dispatches_table :: "mux \<Rightarrow> bool" where
  "mux_dispatches_table mx \<longleftrightarrow>
     (\<forall>tbl r rt vars. mx tbl r = Dispatch rt vars \<longrightarrow> rt \<in> set tbl \<and> cr_Method rt = rq_Method r)"

text \<open>
  C14: session endpoints are protected. Whenever the control plane calls the poll, WebSocket, resume or
  delete handler for a session that exists, the request carries the nonempty token of the binding of
  the client that owns the session; connect is the only handler that is called without this check.
\<close>

theorem session_endpoints_protected:
  assumes "mux_dispatches_table mx" "controlMux mx A P sv r = Invoke ep vars" "ep \<noteq> ConnectHandler"
    and "store_Get P (rs_ext (sv_registry sv)) (map_get vars ''id'') = Some sess"
  shows "\<exists>b. Lookup (sv_clients sv) (map_get (session_Meta A sess) ''client_id'') = Some b
    \<and> cb_Token b \<noteq> '''' \<and> Header_Get (rq_Header r) ''Authorization'' = ''Bearer '' @ cb_Token b"
proof -
  obtain rt where rt: "mx (buildControlMux (sv_cfg sv)) r = Dispatch rt vars" "cr_Endpoint rt = ep"
    and auth: "cr_Authenticated rt \<Longrightarrow> authenticateSession A P sv vars r = None"
    using assms(2) by (auto simp: controlMux_def split: mux_result.splits if_splits option.splits)
  have "rt \<in> set (buildControlMux (sv_cfg sv))" using assms(1) rt(1) unfolding mux_dispatches_table_def by blast
  then have "cr_Authenticated rt" using rt(2) assms(3) by (auto simp: buildControlMux_def Let_def)
  from auth [OF this] obtain b where
    "Lookup (sv_clients sv) (map_get (session_Meta A sess) ''client_id'') = Some b"
    "validToken (cb_Token b) (bearerToken r)"
    using assms(4) by (auto simp: authenticateSession_def Let_def split: option.splits if_splits)
  then show ?thesis using bearerToken_iff [of "cb_Token b" r] by (auto simp: validToken_iff)
qed

text \<open>
  A request with a wrong token cannot tell an existing session from one that does not exist: it
  gets 404 and no handler runs.
\<close>

lemma foreign_session_hidden:
  assumes "mx (buildControlMux (sv_cfg sv)) r = Dispatch rt vars" "cr_Authenticated rt"
    and "store_Get P (rs_ext (sv_registry sv)) (map_get vars ''id'') = Some sess"
    and "\<And>b. Lookup (sv_clients sv) (map_get (session_Meta A sess) ''client_id'') = Some b \<Longrightarrow>
           Header_Get (rq_Header r) ''Authorization'' \<noteq> ''Bearer '' @ cb_Token b"
  shows "controlMux mx A P sv r = ControlReply NotFound"
proof -
  have "\<not> validToken (cb_Token b) (bearerToken r)"
    if "Lookup (sv_clients sv) (map_get (session_Meta A sess) ''client_id'') = Some b" for b
    using assms(4) [OF that] bearerToken_iff [of "cb_Token b" r] by (auto simp: validToken_iff)
  then show ?thesis
    using assms(1-3) by (auto simp: controlMux_def authenticateSession_def Let_def split: option.splits)
qed

text \<open>
  A poll that reports the local health changes the health flag of one tunnel only: the one that
  currently serves the client of the polling session. It need not be the tunnel of that session.
\<close>

lemma onPoll_health:
  assumes "srv_inv A sv" "Header_Get hdr (HeaderLocalHealth pm) = h" "h \<noteq> ''''"
    and "map_get (session_Meta A s) ''subdomain'' = sub" "map_get (session_Meta A s) ''client_id'' = cid"
    and "sub \<noteq> ''''" "cid \<noteq> ''''"
  shows "onPoll A pm s hdr sv =
    (case lookup_tunnel (sv_registry sv) (sub, cid) of
       None \<Rightarrow> sv
     | Some t \<Rightarrow> upd_registry (upd_tunnel t (\<lambda>c. c\<lparr>ct_LocalHealthy := (h = ''ok'')\<rparr>)) sv)"
  using assms
  by (simp add: onPoll_def SetLocalHealth_def lookup_tunnel_def Pool_def Let_def split: option.splits)

section \<open>Stopping\<close>

lemma onDisconnect_members:
  assumes "srv_inv A sv"
  shows "member_of (sv_registry (onDisconnect A s sv)) sub t \<longleftrightarrow>
    member_of (sv_registry sv) sub t \<and> \<not> has_sid A (sv_registry sv) t (session_ID A s)"
    and "ct_Session (rs_tunnels (sv_registry (onDisconnect A s sv)) t) = ct_Session (rs_tunnels (sv_registry sv) t)"
proof -
  let ?i = "session_ID A s"
  define reg where "reg = (case GetBySessionID (sv_registry sv) ?i of
       None \<Rightarrow> sv_registry sv
     | Some tun \<Rightarrow>
         (case ct_Yamux (rs_tunnels (sv_registry sv) tun) of
            None \<Rightarrow> sv_registry sv
          | Some y \<Rightarrow> (sv_registry sv)\<lparr>rs_ext := fst (yamux_Close A (rs_ext (sv_registry sv)) y)\<rparr>))"
  have d: "sv_registry (onDisconnect A s sv) = RemoveBySessionID ?i reg"
    by (simp add: onDisconnect_def reg_def Let_def)
  have r: "reg_inv A reg" "rs_tunnels reg = rs_tunnels (sv_registry sv)"
    "member_of reg = member_of (sv_registry sv)"
    using srv_inv_reg [OF assms] ext_inv by (auto simp: reg_def split: option.splits)
  have sid: "has_sid A reg = has_sid A (sv_registry sv)" by (simp add: has_sid_def fun_eq_iff r(2))
  show "member_of (sv_registry (onDisconnect A s sv)) sub t \<longleftrightarrow>
    member_of (sv_registry sv) sub t \<and> \<not> has_sid A (sv_registry sv) t ?i"
  proof (cases "map_of (rs_bySess reg) ?i")
    case None
    then show ?thesis using reg_inv_bySess [OF r(1), of ?i t] r(3) sid
      by (auto simp: d RemoveBySessionID_unknown)
  next
    case (Some u)
    have "member_of reg sub t \<Longrightarrow> t = u \<longleftrightarrow> has_sid A reg t ?i"
      using reg_inv_bySess [OF r(1), of ?i t] reg_inv_bySess [OF r(1), of ?i u] Some by auto
    then show ?thesis using RemoveBySessionID_member [OF r(1) Some] r(3) sid by (auto simp: d)
  qed
  show "ct_Session (rs_tunnels (sv_registry (onDisconnect A s sv)) t) = ct_Session (rs_tunnels (sv_registry sv) t)"
    using RemoveBySessionID_frame(2) [OF r(1)] by (simp add: d r(2))
qed

lemma CloseSession_members:
  assumes inv: "srv_inv A sv" and hook: "\<And>x s. snd (store_Close P x s)"
  shows "member_of (sv_registry (CloseSession A P s sv)) sub t \<longleftrightarrow>
    member_of (sv_registry sv) sub t \<and> \<not> has_sid A (sv_registry sv) t (session_ID A s)"
    and "ct_Session (rs_tunnels (sv_registry (CloseSession A P s sv)) t) = ct_Session (rs_tunnels (sv_registry sv) t)"
proof -
  define sv1 where "sv1 = sv\<lparr>sv_registry := (sv_registry sv)\<lparr>rs_ext := fst (store_Close P (rs_ext (sv_registry sv)) s)\<rparr>\<rparr>"
  have i: "srv_inv A sv1" unfolding sv1_def
    by (rule srv_inv_frame [OF inv]) (simp_all add: ext_inv srv_inv_reg [OF inv])
  have c: "CloseSession A P s sv = onDisconnect A s sv1"
    using hook by (simp add: CloseSession_def case_prod_beta sv1_def Let_def)
  have e: "member_of (sv_registry sv1) = member_of (sv_registry sv)"
    "rs_tunnels (sv_registry sv1) = rs_tunnels (sv_registry sv)"
    by (simp_all add: sv1_def)
  then have "has_sid A (sv_registry sv1) = has_sid A (sv_registry sv)" by (simp add: has_sid_def fun_eq_iff)
  then show "member_of (sv_registry (CloseSession A P s sv)) sub t \<longleftrightarrow>
    member_of (sv_registry sv) sub t \<and> \<not> has_sid A (sv_registry sv) t (session_ID A s)"
    "ct_Session (rs_tunnels (sv_registry (CloseSession A P s sv)) t) = ct_Session (rs_tunnels (sv_registry sv) t)"
    using onDisconnect_members [OF i, of s] e by (simp_all add: c)
qed

section \<open>Listeners, certificates, redirects\<close>

text \<open>
  \<^verbatim>\<open>Start\<close> on a new server fails exactly when TLS is on without a cache directory. Otherwise the
  public listener is started, with TLS unless it is disabled and on the address that belongs to the
  mode; the redirect listener exists exactly with TLS, and the status listener exactly when it is
  enabled and has an address.
\<close>

lemma Start_listeners:
  assumes "sv_http80Srv sv = None" "sv_statusSrv sv = None" "Start now sv = (err, sv')"
  shows "(err \<noteq> None \<longleftrightarrow> \<not> tls_Disable (sc_TLS (sv_cfg sv)) \<and> tls_CacheDir (sc_TLS (sv_cfg sv)) = '''')
    \<and> (err = None \<longrightarrow>
        (\<exists>h. sv_httpSrv sv' = Some h \<and> hs_Handler h = RootHandler \<and> hs_TLS h = (\<not> tls_Disable (sc_TLS (sv_cfg sv)))
           \<and> hs_Addr h = publicListenAddr (sv_cfg sv))
        \<and> (sv_http80Srv sv' \<noteq> None \<longleftrightarrow> \<not> tls_Disable (sc_TLS (sv_cfg sv)))
        \<and> (sv_certManager sv' \<noteq> None \<longleftrightarrow> \<not> tls_Disable (sc_TLS (sv_cfg sv)) \<or> sv_certManager sv \<noteq> None)
        \<and> (sv_statusSrv sv' \<noteq> None \<longleftrightarrow>
             st_Enabled (sc_Status (sv_cfg sv)) \<and> st_Listen (sc_Status (sv_cfg sv)) \<noteq> ''''))"
proof -
  have st: "sv_httpSrv (start_status s) = sv_httpSrv s" "sv_http80Srv (start_status s) = sv_http80Srv s"
    "sv_certManager (start_status s) = sv_certManager s"
    "sv_statusSrv (start_status s) =
       (if st_Enabled (sc_Status (sv_cfg s)) \<and> st_Listen (sc_Status (sv_cfg s)) \<noteq> ''''
        then sv_statusSrv (startStatusServer s) else sv_statusSrv s)"
    "\<exists>y. sv_statusSrv (startStatusServer s) = Some y"
    for s :: "'a Server"
    by (simp_all add: start_status_def startStatusServer_def)
  show ?thesis
  proof (cases "tls_Disable (sc_TLS (sv_cfg sv))")
    case True
    with assms show ?thesis by (auto simp: Start_def st httpServer_def split: if_splits)
  next
    case False
    with assms show ?thesis
      by (cases "tls_CacheDir (sc_TLS (sv_cfg sv)) = ''''")
         (auto simp: Start_def setupTLS_def st httpServer_def Let_def split: if_splits)
  qed
qed

text \<open>
  C34: certificates are obtained for public names of configured subdomains only. A name that the host policy
  of the running server accepts is, in lower case and without port, the name of some binding's subdomain under
  the lower-case root domain. Conversely, the policy accepts the name of a binding's subdomain if this subdomain is
  \<^verbatim>\<open>@\<close> or a nonempty lower-case label without dots, colons and brackets, and the root domain is nonempty, in lower
  case, without colons and brackets and without space around it. Nothing is said about the acceptance of other
  subdomains, such as one with an upper-case letter or a dot.
\<close>

theorem cert_policy_exact:
  assumes "srv_inv A sv" "sv_certManager sv = Some m"
  shows "(certHostPolicy sv host = None \<longrightarrow>
      stripPort (ToLower host) \<in> (\<lambda>b. FQDN (cb_Subdomain b) (ToLower (am_HostPolicyRoot m))) ` set (sc_Clients (sv_cfg sv)))
    \<and> (root_name (am_HostPolicyRoot m) \<and> b \<in> set (sc_Clients (sv_cfg sv))
        \<and> (host_label (cb_Subdomain b) \<or> cb_Subdomain b = ''@'')
        \<and> stripPort (ToLower host) = FQDN (cb_Subdomain b) (am_HostPolicyRoot m) \<longrightarrow>
      certHostPolicy sv host = None)"
proof -
  have "set (Subdomains (sv_registry sv)) = cb_Subdomain ` set (sc_Clients (sv_cfg sv))"
    using assms(1) by (simp add: srv_inv_def)
  then show ?thesis
    using HostPolicy_sound [of "Subdomains (sv_registry sv)" "am_HostPolicyRoot m" host]
      HostPolicy_complete [of "am_HostPolicyRoot m" "cb_Subdomain b" "Subdomains (sv_registry sv)" host]
    by (auto simp: certHostPolicy_def assms(2) image_image)
qed

text \<open>
  The plain HTTP listener redirects a request permanently to the same host, path and query on
  HTTPS.
\<close>

lemma httpsRedirect_target:
  assumes "rq_URL r = empty_URL\<lparr>url_Path := p, url_RawQuery := q\<rparr>" "plain_path p"
    and "list_all (\<lambda>c. byte c < 128) (rq_Host r @ p @ q)"
  shows "rp_Status (httpsRedirectHandler r) = StatusMovedPermanently
    \<and> Header_Get (rp_Header (httpsRedirectHandler r)) ''Location'' =
        ''https://'' @ rq_Host r @ p @ query_suffix q"
proof -
  obtain s where "p = CHR ''/'' # s" using assms(2) rootedE by (auto simp: plain_path_def)
  moreover have "escape p encodePath = p" using assms(2) by (simp add: escape_id plain_path_def)
  ultimately have u: "RequestURI (rq_URL r) = p @ query_suffix q"
    by (simp add: RequestURI_def EscapedPath_def assms(1) empty_URL_def query_suffix_def)
  have "list_all (\<lambda>c. byte c < 128) (''https://'' @ rq_Host r @ p @ query_suffix q)"
    using assms(3) by (auto simp: query_suffix_def)
  note e = hexEscapeNonASCII_id [OF this]
  have k: "''Location'' \<noteq> ''Content-Type''" by simp
  show ?thesis
    unfolding httpsRedirectHandler_def Redirect_def Let_def u e using k
    by (simp del: append.simps append_Cons)
qed

section \<open>Witnesses\<close>

definition example_cfg :: ServerConfig where
  "example_cfg = (Defaults example_consts)
     \<lparr>sc_RootDomain := ''example.com'', sc_Clients := example_bindings,
      sc_TLS := \<lparr>tls_CacheDir = ''/var/cache/httphop'', tls_Email = '''', tls_Disable = False\<rparr>\<rparr>"

definition example_server :: "example_ext Server" where
  "example_server = projr (NewServer example_consts sort_routes example_heap ({}, {}) example_cfg)"

lemma example_NewServer:
  "NewServer example_consts sort_routes example_heap ({}, {}) example_cfg = Inr example_server"
proof -
  have "\<not> isl (NewServer example_consts sort_routes example_heap ({}, {}) example_cfg)" by code_simp
  from sum.collapse(2) [OF this] show ?thesis unfolding example_server_def by (rule sym)
qed

lemma example_server_inv: "srv_inv A example_server"
  by (rule NewServer_inv [OF example_NewServer])

definition example_request :: "string \<Rightarrow> string \<Rightarrow> string \<Rightarrow> Request" where
  "example_request meth path tok = \<lparr>
     rq_Method = meth, rq_Host = ''app.example.com'', rq_URL = empty_URL\<lparr>url_Path := path\<rparr>,
     rq_Header = Header_Set ''Authorization'' (''Bearer '' @ tok) (\<lambda>_. []),
     rq_RemoteAddr = ''192.0.2.1:4000'', rq_TLS = True\<rparr>"

definition example_connect :: ConnectRequest where
  "example_connect = \<lparr>cq_Meta = Some [''client_id'' \<mapsto> ''home'']\<rparr>"

definition example_meta :: "string \<rightharpoonup> string" where
  "example_meta = [''subdomain'' \<mapsto> ''app'', ''host_key'' \<mapsto> ''app'', ''client_id'' \<mapsto> ''home'']"

lemma example_Lookup: "Lookup (sv_clients example_server) ''home'' = Some example_binding"
  by code_simp

lemma example_place: "has_place example_server example_binding ''home''"
proof -
  have p: "Pool (sv_registry example_server) (cb_Subdomain example_binding) = Some 0"
    "Pool_Len (sv_registry example_server) 0 = 0" "cb_MaxClients example_binding = 1" by code_simp+
  show ?thesis
    using place_test [OF example_server_inv [of example_transport] example_Lookup p(1)] p by simp
qed

theorem authenticateConnect_iff_witness:
  "authenticateConnect example_server (example_request ''POST'' ''/tunnel/connect'' example_token) example_connect
     = Inr example_meta"
  unfolding authenticateConnect_iff [OF example_server_inv [of example_transport]]
  using example_Lookup example_place
  by (intro exI [of _ example_binding])
     (simp add: example_connect_def map_get_def example_request_def example_meta_def example_binding_def example_token_def)

text \<open>The same fact once more by evaluation, for the witnesses that start from an admitted connect.\<close>

lemma example_admitted:
  "authenticateConnect example_server (example_request ''POST'' ''/tunnel/connect'' example_token) example_connect
     = Inr example_meta"
proof -
  have t: "bearerToken (example_request ''POST'' ''/tunnel/connect'' example_token) = example_token"
    "validToken (cb_Token example_binding) example_token" "example_token \<noteq> ''''" by code_simp+
  obtain p where p: "Pool (sv_registry example_server) (cb_Subdomain example_binding) = Some p"
    by (rule srv_inv_pool [OF example_server_inv [of example_transport] example_Lookup])
  show ?thesis
    using t p place_test [OF example_server_inv [of example_transport] example_Lookup p] example_place example_Lookup
    by (auto simp: authenticateConnect_def example_connect_def map_get_def example_meta_def example_binding_def Let_def)
qed

lemma example_fresh_session:
  "GetBySessionID (sv_registry example_server) (session_ID example_transport 0) = None"
  "ClientSession example_transport (rs_ext (sv_registry example_server)) 0 = (({}, {}), Inr 0)"
  by code_simp+

definition example_store :: "example_ext session_store" where
  "example_store = \<lparr>
     store_Get = (\<lambda>x i. if i = ''s'' then Some 0 else None),
     store_All = (\<lambda>x. [0]),
     store_Close = (\<lambda>x s. ((fst x, insert s (snd x)), True))\<rparr>"

text \<open>A mux that dispatches every POST to the poll route with session \<^verbatim>\<open>s\<close>.\<close>

definition example_mux :: mux where
  "example_mux tbl r =
     (if 2 \<le> length tbl \<and> cr_Method (tbl ! 1) = rq_Method r then Dispatch (tbl ! 1) [''id'' \<mapsto> ''s'']
      else MuxReply NotFound)"

lemma example_mux_ok: "mux_dispatches_table example_mux"
  by (auto simp: mux_dispatches_table_def example_mux_def split: if_splits)

lemma example_Dispatch:
  "example_mux (buildControlMux (sv_cfg example_server)) (example_request ''POST'' p tok) =
     Dispatch (buildControlMux (sv_cfg example_server) ! Suc 0) [''id'' \<mapsto> ''s'']"
  by (simp add: example_mux_def buildControlMux_def example_request_def Let_def)

lemma example_authenticated: "cr_Authenticated (buildControlMux (sv_cfg example_server) ! Suc 0)"
  "cr_Endpoint (buildControlMux (sv_cfg example_server) ! Suc 0) = PollHandler"
  by (simp_all add: buildControlMux_def Let_def)

lemma example_store_Get:
  "store_Get example_store x (map_get [''id'' \<mapsto> ''s''] ''id'') = Some 0"
  by (simp add: example_store_def map_get_def)

theorem session_endpoints_protected_witness:
  "controlMux example_mux example_transport example_store example_server
     (example_request ''POST'' ''/tunnel/s/poll'' example_token) = Invoke PollHandler [''id'' \<mapsto> ''s'']
   \<and> (\<exists>b. Lookup (sv_clients example_server) (map_get (session_Meta example_transport 0) ''client_id'') = Some b)"
proof -
  have "bearerToken (example_request ''POST'' ''/tunnel/s/poll'' example_token) = example_token"
    "validToken (cb_Token example_binding) example_token" by code_simp+
  moreover have "map_get (session_Meta example_transport 0) ''client_id'' = ''home''"
    by (simp add: example_transport_def map_get_def)
  ultimately have "authenticateSession example_transport example_store example_server [''id'' \<mapsto> ''s'']
      (example_request ''POST'' ''/tunnel/s/poll'' example_token) = None"
    by (simp add: authenticateSession_def example_store_Get example_Lookup Let_def)
  then have c: "controlMux example_mux example_transport example_store example_server
     (example_request ''POST'' ''/tunnel/s/poll'' example_token) = Invoke PollHandler [''id'' \<mapsto> ''s'']"
    by (simp add: controlMux_def example_Dispatch example_authenticated)
  show ?thesis using session_endpoints_protected [OF example_mux_ok c _ example_store_Get] c by blast
qed

theorem cert_policy_exact_witness:
  "certHostPolicy (snd (Start 0 example_server)) ''app.example.com'' = None"
proof -
  let ?sv = "snd (Start 0 example_server)"
  let ?m = "\<lparr>am_CacheDir = ''/var/cache/httphop'', am_Email = '''', am_HostPolicyRoot = ''example.com''\<rparr>"
  have e: "sv_certManager ?sv = Some ?m"
    by code_simp
  have "srv_inv example_transport ?sv"
    by (rule srv_inv_cong [OF example_server_inv]) (simp_all add: Start_frame)
  moreover have "root_name (am_HostPolicyRoot ?m)" "example_binding \<in> set (sc_Clients (sv_cfg ?sv))"
    "host_label (cb_Subdomain example_binding)"
    "stripPort (ToLower ''app.example.com'') = FQDN (cb_Subdomain example_binding) (am_HostPolicyRoot ?m)"
    by code_simp+
  ultimately show ?thesis using cert_policy_exact [OF _ e] by blast
qed

end
