(* ===== verification/Proxy.thy ===== *)
theory Proxy
  imports Server
begin

text \<open>
  The public side of the server: \<^verbatim>\<open>internal/server/proxy.go\<close> and \<^verbatim>\<open>bridge.go\<close>. The handler picks a tunnel
  for a request and hands it to the reverse proxy of \<^verbatim>\<open>net/http/httputil\<close>, whose pipeline (rewrite,
  dial, round trip, modification of the response, error handler) is written out in
  \<open>reverse_proxy\<close>; what happens on the stream is the parameter \<open>backend\<close>. The results: which
  status each request gets; that requests only reach live, healthy tunnels of the host they name;
  what path the backend sees; and that an exchange leaves no stream behind.
\<close>

section \<open>bridge.go\<close>

record countedConn =
  cn_Conn :: nat
  cn_tunnel :: tunnel_ptr

datatype proxy_error = errNoTunnel | DeadlineExceeded | OtherError string

text \<open>A dial gives a connection or an error; on a tunnel without yamux session it panics.\<close>

datatype dial_result = DialConn countedConn | DialError proxy_error | DialPanic

definition add_streams :: "int \<Rightarrow> ClientTunnel \<Rightarrow> ClientTunnel" where
  "add_streams n c = c\<lparr>ct_ActiveStreams := ct_ActiveStreams c + n\<rparr>"

definition OpenStream :: "'x transport \<Rightarrow> tunnel_ptr \<Rightarrow> 'x reg_state \<Rightarrow> dial_result \<times> 'x reg_state" where
  "OpenStream A t reg =
     (case ct_Yamux (rs_tunnels reg t) of
        None \<Rightarrow> (DialPanic, reg)
      | Some y \<Rightarrow>
          (case yamux_Open A (rs_ext reg) y of
             (x, Inl err) \<Rightarrow> (DialError (OtherError err), reg\<lparr>rs_ext := x\<rparr>)
           | (x, Inr stream) \<Rightarrow>
               (DialConn \<lparr>cn_Conn = stream, cn_tunnel = t\<rparr>,
                upd_tunnel t (add_streams 1) (reg\<lparr>rs_ext := x\<rparr>))))"

text \<open>\<open>closeStream\<close> is the close of the yamux stream that the connection wraps.\<close>

definition countedConn_Close ::
  "('x \<Rightarrow> nat \<Rightarrow> 'x \<times> string option) \<Rightarrow> countedConn \<Rightarrow> 'x reg_state \<Rightarrow> string option \<times> 'x reg_state" where
  "countedConn_Close closeStream c reg =
     (let (x, err) = closeStream (rs_ext reg) (cn_Conn c)
      in (err, upd_tunnel (cn_tunnel c) (add_streams (- 1)) (reg\<lparr>rs_ext := x\<rparr>)))"

section \<open>proxy.go\<close>

record proxyCtx =
  pc_tunnel :: "tunnel_ptr option"
  pc_strip :: string

datatype public_result = PublicReply Response | Forward proxyCtx

definition servePublic :: "'x transport \<Rightarrow> Request \<Rightarrow> 'x Server \<Rightarrow> public_result \<times> 'x Server" where
  "servePublic A r sv =
     (case HostKey (rq_Host r) (sc_RootDomain (sv_cfg sv)) of
        Inl _ \<Rightarrow> (PublicReply (writeHTTPError StatusBadRequest ''invalid host''), sv)
      | Inr hostKey \<Rightarrow>
          (case Match (sv_routes sv) hostKey (url_Path (rq_URL r)) of
             Inl _ \<Rightarrow> (PublicReply (writeHTTPError StatusNotFound ''no route for host/path''), sv)
           | Inr route \<Rightarrow>
               (let (picked, reg) = Pool_Pick A (rt_Pool route) (sv_registry sv);
                    sv = sv\<lparr>sv_registry := reg\<rparr>
                in case picked of
                     None \<Rightarrow> (PublicReply (writeHTTPError StatusServiceUnavailable ''no available backend''), sv)
                   | Some tun \<Rightarrow>
                       if \<not> ct_LocalHealthy (rs_tunnels (sv_registry sv) tun)
                       then (PublicReply (writeHTTPError StatusServiceUnavailable ''backend local service unhealthy''), sv)
                       else if tun_MaxStreamsPerTunnel (sc_Tunnel (sv_cfg sv))
                                 \<le> ct_ActiveStreams (rs_tunnels (sv_registry sv) tun)
                       then (PublicReply (writeHTTPError StatusServiceUnavailable ''tunnel stream limit reached''), sv)
                       else (Forward \<lparr>pc_tunnel = Some tun,
                               pc_strip = (if rt_Strip route \<and> rt_PathPrefix route \<noteq> ''''
                                           then rt_PathPrefix route else '''')\<rparr>, sv))))"

text \<open>\<^verbatim>\<open>ProxyRequest.SetXForwarded\<close> of \<^verbatim>\<open>net/http/httputil\<close>.\<close>

fun join_comma :: "string list \<Rightarrow> string" where
  "join_comma [] = ''''"
| "join_comma [w] = w"
| "join_comma (w # v # ws) = w @ '', '' @ join_comma (v # ws)"

definition SetXForwarded :: "Request \<Rightarrow> Request \<Rightarrow> Request" where
  "SetXForwarded req_in out =
     (let h = rq_Header out;
          h = (case SplitHostPort (rq_RemoteAddr req_in) of
                 Some clientIP \<Rightarrow>
                   Header_Set ''X-Forwarded-For''
                     (if h ''X-Forwarded-For'' = [] then clientIP
                      else join_comma (h ''X-Forwarded-For'') @ '', '' @ clientIP) h
               | None \<Rightarrow> Header_Del ''X-Forwarded-For'' h);
          h = Header_Set ''X-Forwarded-Host'' (rq_Host req_in) h;
          h = Header_Set ''X-Forwarded-Proto'' (if rq_TLS req_in then ''https'' else ''http'') h
      in out\<lparr>rq_Header := h\<rparr>)"

definition proxy_Rewrite :: "proxyCtx option \<Rightarrow> Request \<Rightarrow> Request \<Rightarrow> Request" where
  "proxy_Rewrite ctx req_in out =
     (let out = out\<lparr>rq_URL := (rq_URL out)\<lparr>url_Scheme := ''http'', url_Host := ''tunnel''\<rparr>,
                    rq_Host := rq_Host req_in\<rparr>;
          out = (case ctx of
                   Some pctx \<Rightarrow>
                     if pc_strip pctx \<noteq> '''' then
                       (case StripPathPrefix (url_Path (rq_URL out)) (pc_strip pctx) of
                          (stripped, True) \<Rightarrow> out\<lparr>rq_URL := (rq_URL out)\<lparr>url_Path := stripped\<rparr>\<rparr>
                        | (_, False) \<Rightarrow> out)
                     else out
                 | None \<Rightarrow> out)
      in SetXForwarded req_in out)"

definition DialContext ::
  "'x transport \<Rightarrow> proxyCtx option \<Rightarrow> 'x reg_state \<Rightarrow> dial_result \<times> 'x reg_state" where
  "DialContext A ctx reg =
     (case (case ctx of None \<Rightarrow> None | Some pctx \<Rightarrow> pc_tunnel pctx) of
        None \<Rightarrow> (DialError errNoTunnel, reg)
      | Some t \<Rightarrow> OpenStream A t reg)"

text \<open>
  The request of a response is \<^const>\<open>None\<close> where the pointer is nil; its context may hold no value of
  this package.
\<close>

definition modifyProxyResponse :: "proxyCtx option option \<Rightarrow> Response \<Rightarrow> Response" where
  "modifyProxyResponse request resp =
     (case request of
        None \<Rightarrow> resp
      | Some ctx \<Rightarrow>
          (case ctx of
             None \<Rightarrow> resp
           | Some pctx \<Rightarrow>
               if pc_strip pctx = '''' then resp
               else resp\<lparr>rp_Header := rewritePublicPrefixHeaders (rp_Header resp) (pc_strip pctx)\<rparr>))"

definition proxyErrorHandler :: "proxy_error \<Rightarrow> Response" where
  "proxyErrorHandler err =
     (case err of
        DeadlineExceeded \<Rightarrow> writeHTTPError StatusGatewayTimeout ''backend timeout''
      | errNoTunnel \<Rightarrow> writeHTTPError StatusServiceUnavailable ''tunnel gone''
      | OtherError _ \<Rightarrow> writeHTTPError StatusBadGateway ''backend error'')"

text \<open>
  One exchange of the reverse proxy. \<open>prepare\<close> is the outgoing request as \<^verbatim>\<open>httputil\<close> clones it (without
  hop-by-hop headers), \<open>backend\<close> what the round trip over the stream returns. Keep-alives are off, so the
  connection is closed when the exchange is over. \<^const>\<open>None\<close> stands for the panic of the dial.
\<close>

definition reverse_proxy ::
  "'x transport \<Rightarrow> ('x \<Rightarrow> nat \<Rightarrow> 'x \<times> string option) \<Rightarrow> (Request \<Rightarrow> Request) \<Rightarrow> (Request \<Rightarrow> proxy_error + Response)
     \<Rightarrow> proxyCtx option \<Rightarrow> Request \<Rightarrow> 'x reg_state \<Rightarrow> Response option \<times> 'x reg_state" where
  "reverse_proxy A closeStream prepare backend ctx r reg =
     (let out = proxy_Rewrite ctx r (prepare r)
      in case DialContext A ctx reg of
           (DialPanic, reg) \<Rightarrow> (None, reg)
         | (DialError e, reg) \<Rightarrow> (Some (proxyErrorHandler e), reg)
         | (DialConn c, reg) \<Rightarrow>
             let resp = (case backend out of
                           Inl e \<Rightarrow> proxyErrorHandler e
                         | Inr resp \<Rightarrow> modifyProxyResponse (Some ctx) resp)
             in (Some resp, snd (countedConn_Close closeStream c reg)))"

definition isControlPath :: "ServerConfig \<Rightarrow> string \<Rightarrow> bool" where
  "isControlPath cfg p =
     (let pfx = NormalizeControlPath (sc_ControlPath cfg)
      in p = pfx \<or> HasPrefix p (pfx @ ''/''))"

datatype root_result = Control control_result | Public public_result

definition rootHandler ::
  "mux \<Rightarrow> 'x transport \<Rightarrow> 'x session_store \<Rightarrow> Request \<Rightarrow> 'x Server \<Rightarrow> root_result \<times> 'x Server" where
  "rootHandler mx A P r sv =
     (if isControlPath (sv_cfg sv) (url_Path (rq_URL r)) then (Control (controlMux mx A P sv r), sv)
      else case servePublic A r sv of (res, sv) \<Rightarrow> (Public res, sv))"

section \<open>The system as a transition relation\<close>

text \<open>
  The events that change the state of the server: start, hooks called by pollmux, requests, streams that
  are opened and closed, superseded tunnels whose drain ends, changes of the transport, and stop: as a whole, and
  statement by statement, so that other events may come in between. A new session has an ID that is not in
  use, as the IDs of pollmux are unique.
\<close>

inductive sys_step ::
  "'x transport \<Rightarrow> 'x session_store \<Rightarrow> ('x \<Rightarrow> nat \<Rightarrow> 'x \<times> string option) \<Rightarrow> pollmux_consts
     \<Rightarrow> 'x Server \<Rightarrow> 'x Server \<Rightarrow> bool"
  for A P closeStream pm where
  start: "sys_step A P closeStream pm sv (snd (Start now sv))"
| listen: "sys_step A P closeStream pm sv (StartOnListener now sv)"
| connect: "GetBySessionID (sv_registry sv) (session_ID A s) = None \<Longrightarrow>
     sys_step A P closeStream pm sv (snd (OnConnect (buildHooks A) now s meta sv))"
| poll: "sys_step A P closeStream pm sv (OnPoll (buildHooks A) pm s hdr sv)"
| disconnect: "sys_step A P closeStream pm sv (OnDisconnect (buildHooks A) s sv)"
| drained: "(old, d) \<in> set (rs_drains (sv_registry sv)) \<Longrightarrow>
     sys_step A P closeStream pm sv (upd_registry (\<lambda>reg. fst (Close_tunnel A old reg)) sv)"
| request: "sys_step A P closeStream pm sv (snd (servePublic A r sv))"
| dial: "sys_step A P closeStream pm sv (upd_registry (\<lambda>reg. snd (OpenStream A t reg)) sv)"
| close: "sys_step A P closeStream pm sv (upd_registry (\<lambda>reg. snd (countedConn_Close closeStream c reg)) sv)"
| transport: "sys_step A P closeStream pm sv (upd_registry (\<lambda>reg. reg\<lparr>rs_ext := x\<rparr>) sv)"
| stop: "sys_step A P closeStream pm sv (snd (Stop A P sd sv))"
| stop_stmt: "sys_step A P closeStream pm sv (stop_exec st sv)"
| close_session: "sys_step A P closeStream pm sv (CloseSession A P s sv)"

inductive sys_reachable ::
  "'x transport \<Rightarrow> 'x session_store \<Rightarrow> ('x \<Rightarrow> nat \<Rightarrow> 'x \<times> string option) \<Rightarrow> pollmux_consts
     \<Rightarrow> sort_slice \<Rightarrow> ServerConfig \<Rightarrow> 'x Server \<Rightarrow> bool"
  for A P closeStream pm srt cfg where
  init: "NewServer pm srt heap x cfg = Inr sv \<Longrightarrow> sys_reachable A P closeStream pm srt cfg sv"
| step: "sys_reachable A P closeStream pm srt cfg sv \<Longrightarrow> sys_step A P closeStream pm sv sv' \<Longrightarrow>
     sys_reachable A P closeStream pm srt cfg sv'"

text \<open>
  What the route table answers, in terms of the bindings: the route of a longest matching binding of
  the host, which leads to the pool of the host, or no route when none matches.
\<close>

definition routes_ok :: "'x Server \<Rightarrow> bool" where
  "routes_ok sv \<longleftrightarrow>
     (\<forall>h p. case Match (sv_routes sv) h p of
        Inr r \<Rightarrow> Pool (sv_registry sv) h = Some (rt_Pool r)
          \<and> (\<exists>b. best_binding (sc_Clients (sv_cfg sv)) h (Clean p) b
                \<and> rt_PathPrefix r = NormalizePathPrefix (cb_PathPrefix b) \<and> rt_Strip r = cb_StripPrefix b)
      | Inl _ \<Rightarrow> list_all (\<lambda>b. \<not> binding_matches (Clean p) b) (host_bindings h (sc_Clients (sv_cfg sv))))"

definition same_names :: "'x Server \<Rightarrow> 'x Server \<Rightarrow> bool" where
  "same_names sv sv' \<longleftrightarrow>
     rs_byName (sv_registry sv') = rs_byName (sv_registry sv) \<and> sv_routes sv' = sv_routes sv
     \<and> sv_cfg sv' = sv_cfg sv"

lemma routes_ok_same:
  assumes "routes_ok sv" "same_names sv sv'"
  shows "routes_ok sv'"
proof -
  have e: "rs_byName (sv_registry sv') = rs_byName (sv_registry sv)" "sv_routes sv' = sv_routes sv"
    "sv_cfg sv' = sv_cfg sv" using assms(2) by (simp_all add: same_names_def)
  show ?thesis using assms(1) unfolding routes_ok_def Pool_def e .
qed

lemma routes_ok_Inr:
  assumes "routes_ok sv" "Match (sv_routes sv) h p = Inr r"
  shows "named (sv_registry sv) h (rt_Pool r)"
    and "\<exists>b. best_binding (sc_Clients (sv_cfg sv)) h (Clean p) b
           \<and> rt_PathPrefix r = NormalizePathPrefix (cb_PathPrefix b) \<and> rt_Strip r = cb_StripPrefix b"
  using spec [OF spec [OF assms(1) [unfolded routes_ok_def], of h], of p] assms(2)
  by (simp_all add: named_def Pool_def)

lemma routes_ok_Inl:
  assumes "routes_ok sv" "Match (sv_routes sv) h p = Inl e"
  shows "list_all (\<lambda>b. \<not> binding_matches (Clean p) b) (host_bindings h (sc_Clients (sv_cfg sv)))"
  using spec [OF spec [OF assms(1) [unfolded routes_ok_def], of h], of p] assms(2) by simp

lemma onDisconnect_names: "srv_inv A sv \<Longrightarrow> same_names sv (onDisconnect A s sv)"
proof -
  assume inv: "srv_inv A sv"
  have "rs_byName (RemoveBySessionID i reg) = rs_byName (sv_registry sv)"
    if "reg_inv A reg" "rs_byName reg = rs_byName (sv_registry sv)" for i reg
    using RemoveBySessionID_frame(1) [OF that(1)] that(2) by simp
  then show ?thesis
    using srv_inv_reg [OF inv] ext_inv [OF srv_inv_reg [OF inv]]
    by (auto simp: same_names_def onDisconnect_def Let_def split: option.splits)
qed

lemma same_names_trans: "same_names a b \<Longrightarrow> same_names b c \<Longrightarrow> same_names a c"
  by (simp add: same_names_def)

lemma CloseSession_names: "srv_inv A sv \<Longrightarrow> same_names sv (CloseSession A P s sv)"
proof -
  assume inv: "srv_inv A sv"
  have "srv_inv A (sv\<lparr>sv_registry := (sv_registry sv)\<lparr>rs_ext := x\<rparr>\<rparr>)" for x
    by (rule srv_inv_frame [OF inv]) (simp_all add: ext_inv srv_inv_reg [OF inv])
  from onDisconnect_names [OF this] show ?thesis
    by (auto simp: CloseSession_def case_prod_beta Let_def same_names_def)
qed

lemma Stop_names: "srv_inv A sv \<Longrightarrow> same_names sv (snd (Stop A P sd sv))"
proof -
  assume inv: "srv_inv A sv"
  have f: "same_names s (fold (CloseSession A P) ss s)" if "srv_inv A s" for s ss
    using that
  proof (induction ss arbitrary: s)
    case (Cons c ss)
    from Cons.IH [OF CloseSession_inv [OF Cons.prems, of P c]] CloseSession_names [OF Cons.prems, of P c]
    show ?case using same_names_trans by fastforce
  qed (simp add: same_names_def)
  have "srv_inv A (sv\<lparr>sv_stopOnce := True\<rparr>)" by (rule srv_inv_cong [OF inv]) simp_all
  from f [OF this] show ?thesis by (auto simp: Stop_def Let_def same_names_def)
qed

lemma onConnect_names:
  assumes inv: "srv_inv A sv" and sid: "GetBySessionID (sv_registry sv) (session_ID A s) = None"
  shows "same_names sv (snd (onConnect A now s meta sv))"
proof -
  obtain x ys where cs: "ClientSession A (rs_ext (sv_registry sv)) s = (x, ys)" by fastforce
  let ?cid = "map_get meta ''client_id''"
  show ?thesis
  proof (cases "\<exists>y b. ys = Inr y \<and> Lookup (sv_clients sv) ?cid = Some b")
    case False
    then show ?thesis using cs
      by (cases ys; cases "Lookup (sv_clients sv) ?cid")
         (simp_all add: onConnect_def same_names_def)
  next
    case True
    then obtain y b where y: "ys = Inr y" and b: "Lookup (sv_clients sv) ?cid = Some b" by blast
    note c = onConnect_known [OF cs [unfolded y] b, of now]
    show ?thesis
    proof (rule Register_cases [OF with_tunnel_ok [OF inv sid, of now ?cid b y x], of "cb_MaxClients b"])
      fix reg assume reg: "Register A (sv_nextTunnel sv) (cb_MaxClients b) (with_tunnel now ?cid b s y x sv) = (None, reg)"
      then show ?thesis
        using onConnect_registered(1) [OF inv sid b reg] by (simp add: c same_names_def)
    qed (use ensured_with_tunnel [OF inv b] in \<open>simp add: c same_names_def\<close>)
  qed
qed

lemma OpenStream_frame:
  obtains x f where "snd (OpenStream A t reg) = upd_tunnel t f (reg\<lparr>rs_ext := x\<rparr>)" "f = id \<or> f = add_streams 1"
proof -
  have none: "reg\<lparr>rs_ext := x\<rparr> = upd_tunnel t id (reg\<lparr>rs_ext := x\<rparr>)" for x
    by (simp add: upd_tunnel_def)
  show ?thesis
  proof (cases "ct_Yamux (rs_tunnels reg t)")
    case None
    then have "snd (OpenStream A t reg) = upd_tunnel t id (reg\<lparr>rs_ext := rs_ext reg\<rparr>)"
      using none [of "rs_ext reg"] by (simp add: OpenStream_def)
    then show ?thesis using that by blast
  next
    case (Some y)
    obtain x r where o: "yamux_Open A (rs_ext reg) y = (x, r)" by fastforce
    show ?thesis
    proof (cases r)
      case (Inl e)
      then have "snd (OpenStream A t reg) = upd_tunnel t id (reg\<lparr>rs_ext := x\<rparr>)"
        using none [of x] Some o by (simp add: OpenStream_def)
      then show ?thesis using that by blast
    next
      case (Inr n)
      then have "snd (OpenStream A t reg) = upd_tunnel t (add_streams 1) (reg\<lparr>rs_ext := x\<rparr>)"
        using Some o by (simp add: OpenStream_def)
      then show ?thesis using that by blast
    qed
  qed
qed

lemma add_streams_simps [simp]:
  "ct_ID (add_streams n c) = ct_ID c" "ct_Subdomain (add_streams n c) = ct_Subdomain c"
  "ct_Session (add_streams n c) = ct_Session c" "ct_Draining (add_streams n c) = ct_Draining c"
  "ct_Yamux (add_streams n c) = ct_Yamux c" "ct_LocalHealthy (add_streams n c) = ct_LocalHealthy c"
  "ct_ActiveStreams (add_streams n c) = ct_ActiveStreams c + n"
  by (simp_all add: add_streams_def)

text \<open>Writes to tunnels that change neither identity nor membership.\<close>

lemma quiet_registry_step:
  assumes "srv_inv A sv" "sv' = sv\<lparr>sv_registry := reg\<rparr>"
    and "rs_byName reg = rs_byName (sv_registry sv)" "rs_bySess reg = rs_bySess (sv_registry sv)"
    and "rs_nextPool reg = rs_nextPool (sv_registry sv)" "\<And>p. members reg p = members (sv_registry sv) p"
    and "\<And>t. tunnel_ID reg t = tunnel_ID (sv_registry sv) t"
    and "\<And>t. ct_Subdomain (rs_tunnels reg t) = ct_Subdomain (rs_tunnels (sv_registry sv) t)"
    and "\<And>t. ct_Session (rs_tunnels reg t) = ct_Session (rs_tunnels (sv_registry sv) t)"
    and "\<And>t. ct_Draining (rs_tunnels reg t) = ct_Draining (rs_tunnels (sv_registry sv) t)"
  shows "srv_inv A sv' \<and> same_names sv sv'"
proof
  have r: "reg_inv A reg" by (rule reg_inv_frame [OF srv_inv_reg [OF assms(1)] assms(3-10)])
  have "member_of reg = member_of (sv_registry sv)"
    by (simp add: member_of_def named_def fun_eq_iff assms(3,6))
  then show "srv_inv A sv'"
    using r assms by (intro srv_inv_frame [OF assms(1)]) simp_all
  show "same_names sv sv'" using assms(2,3) by (simp add: same_names_def)
qed

lemma Pool_Pick_simps [simp]:
  "rs_byName (snd (Pool_Pick A p reg)) = rs_byName reg" "rs_bySess (snd (Pool_Pick A p reg)) = rs_bySess reg"
  "rs_nextPool (snd (Pool_Pick A p reg)) = rs_nextPool reg" "rs_tunnels (snd (Pool_Pick A p reg)) = rs_tunnels reg"
  "members (snd (Pool_Pick A p reg)) q = members reg q" "rs_ext (snd (Pool_Pick A p reg)) = rs_ext reg"
  by (simp_all add: Pool_Pick_def Let_def)

text \<open>The decision for a request that has a route; the test for a locally unhealthy backend never fires.\<close>

definition forward_ctx :: "Route \<Rightarrow> tunnel_ptr \<Rightarrow> proxyCtx" where
  "forward_ctx route t = \<lparr>pc_tunnel = Some t,
     pc_strip = (if rt_Strip route \<and> rt_PathPrefix route \<noteq> '''' then rt_PathPrefix route else '''')\<rparr>"

lemma servePublic_routed:
  assumes "HostKey (rq_Host r) (sc_RootDomain (sv_cfg sv)) = Inr h"
    and "Match (sv_routes sv) h (url_Path (rq_URL r)) = Inr route"
  shows "servePublic A r sv =
    (case firstAvailable_Pick A (sv_registry sv) (members (sv_registry sv) (rt_Pool route)) of
       None \<Rightarrow> PublicReply (writeHTTPError StatusServiceUnavailable ''no available backend'')
     | Some t \<Rightarrow>
         if tun_MaxStreamsPerTunnel (sc_Tunnel (sv_cfg sv)) \<le> ct_ActiveStreams (rs_tunnels (sv_registry sv) t)
         then PublicReply (writeHTTPError StatusServiceUnavailable ''tunnel stream limit reached'')
         else Forward (forward_ctx route t),
     sv\<lparr>sv_registry := snd (Pool_Pick A (rt_Pool route) (sv_registry sv))\<rparr>)"
proof -
  let ?reg = "sv_registry sv" and ?p = "rt_Pool route"
  have pick: "Pool_Pick A ?p ?reg = (firstAvailable_Pick A ?reg (members ?reg ?p), snd (Pool_Pick A ?p ?reg))"
    using Pool_Pick_result [of A ?p ?reg] by (simp add: prod_eq_iff)
  have healthy: "ct_LocalHealthy (rs_tunnels ?reg t)"
    if "firstAvailable_Pick A ?reg (members ?reg ?p) = Some t" for t
    using fa.pick_sound [OF that] by (simp add: available_def)
  show ?thesis
    unfolding servePublic_def assms sum.case
    by (subst pick) (auto simp: Let_def forward_ctx_def healthy split: option.splits)
qed

lemma servePublic_unrouted:
  assumes "\<And>h route. HostKey (rq_Host r) (sc_RootDomain (sv_cfg sv)) = Inr h \<Longrightarrow>
    Match (sv_routes sv) h (url_Path (rq_URL r)) = Inr route \<Longrightarrow> False"
  shows "servePublic A r sv =
    (PublicReply (if isl (HostKey (rq_Host r) (sc_RootDomain (sv_cfg sv)))
       then writeHTTPError StatusBadRequest ''invalid host''
       else writeHTTPError StatusNotFound ''no route for host/path''), sv)"
  using assms by (auto simp: servePublic_def split: sum.splits)

lemma servePublic_registry:
  "\<exists>reg. snd (servePublic A r sv) = sv\<lparr>sv_registry := reg\<rparr>
     \<and> (reg = sv_registry sv \<or> (\<exists>p. reg = snd (Pool_Pick A p (sv_registry sv))))"
proof (cases "\<exists>h route. HostKey (rq_Host r) (sc_RootDomain (sv_cfg sv)) = Inr h \<and>
    Match (sv_routes sv) h (url_Path (rq_URL r)) = Inr route")
  case True
  then show ?thesis using servePublic_routed [of r sv _ _ A] by fastforce
next
  case False
  then have "snd (servePublic A r sv) = sv\<lparr>sv_registry := sv_registry sv\<rparr>"
    using servePublic_unrouted [of r sv A] by fastforce
  then show ?thesis by blast
qed

lemma servePublic_quiet:
  "srv_inv A sv \<Longrightarrow> srv_inv A (snd (servePublic A r sv)) \<and> same_names sv (snd (servePublic A r sv))"
proof -
  assume inv: "srv_inv A sv"
  obtain reg where reg: "snd (servePublic A r sv) = sv\<lparr>sv_registry := reg\<rparr>"
    "reg = sv_registry sv \<or> (\<exists>p. reg = snd (Pool_Pick A p (sv_registry sv)))"
    using servePublic_registry [of A r sv] by blast
  with inv show ?thesis
    by (intro quiet_registry_step [where reg = reg]) auto
qed

lemma OpenStream_quiet:
  assumes "srv_inv A sv" "sv' = sv\<lparr>sv_registry := snd (OpenStream A t (sv_registry sv))\<rparr>"
  shows "srv_inv A sv' \<and> same_names sv sv'"
proof -
  obtain x f where "snd (OpenStream A t (sv_registry sv)) = upd_tunnel t f ((sv_registry sv)\<lparr>rs_ext := x\<rparr>)"
    "f = id \<or> f = add_streams 1"
    by (rule OpenStream_frame)
  with assms show ?thesis
    by (intro quiet_registry_step [where reg = "snd (OpenStream A t (sv_registry sv))"]) auto
qed

lemma stop_exec_frame:
  "sv_registry (stop_exec st sv) = sv_registry sv" "sv_routes (stop_exec st sv) = sv_routes sv"
  "sv_cfg (stop_exec st sv) = sv_cfg sv" "sv_clients (stop_exec st sv) = sv_clients sv"
  "sv_nextTunnel (stop_exec st sv) = sv_nextTunnel sv"
  by (cases st; simp)+

lemma onPoll_names: "same_names sv (onPoll A pm s hdr sv)"
  by (simp add: onPoll_def same_names_def Let_def)

lemma sys_step_inv:
  assumes "sys_step A P closeStream pm sv sv'" "srv_inv A sv"
  shows "srv_inv A sv' \<and> same_names sv sv'"
  using assms
proof (induction rule: sys_step.cases)
  case (start sv now)
  then show ?case using srv_inv_cong [of A sv "snd (Start now sv)"] by (simp add: Start_frame same_names_def)
next
  case (listen sv now)
  then show ?case using srv_inv_cong [of A sv "StartOnListener now sv"] by (simp add: StartOnListener_def same_names_def)
next
  case (connect sv s now meta)
  then show ?case by (simp add: onConnect_inv onConnect_names)
next
  case (poll sv s hdr)
  then show ?case by (simp add: onPoll_inv onPoll_names)
next
  case (disconnect sv s)
  then show ?case by (simp add: onDisconnect_inv onDisconnect_names)
next
  case (drained old d sv)
  then show ?case by (intro quiet_registry_step [where reg = "fst (Close_tunnel A old (sv_registry sv))"]) simp_all
next
  case (request sv r)
  then show ?case using servePublic_quiet by blast
next
  case (dial sv t)
  then show ?case using OpenStream_quiet by blast
next
  case (close sv c)
  then show ?case
    by (intro quiet_registry_step [where reg = "snd (countedConn_Close closeStream c (sv_registry sv))"])
       (simp_all add: countedConn_Close_def case_prod_beta Let_def)
next
  case (transport sv x)
  then show ?case
    by (intro quiet_registry_step [where reg = "(sv_registry sv)\<lparr>rs_ext := x\<rparr>"]) simp_all
next
  case (stop sv sd)
  then show ?case using Stop_inv Stop_names by blast
next
  case (stop_stmt sv st)
  then show ?case using srv_inv_cong [of A sv "stop_exec st sv"] by (simp add: stop_exec_frame same_names_def)
next
  case (close_session sv s)
  then show ?case using CloseSession_inv CloseSession_names by blast
qed

lemma NewServer_routes_ok:
  assumes srt: "route_sorter srt" and new: "NewServer pm srt heap x cfg = Inr sv"
  shows "routes_ok sv"
proof -
  from NewServer_fields [OF new] obtain reg where
    r: "sv_registry sv = snd (buildRouteTable srt (sv_cfg sv) reg)"
       "sv_routes sv = fst (buildRouteTable srt (sv_cfg sv) reg)" by metis
  define reg0 where "reg0 = fold (\<lambda>b reg. snd (EnsurePool (cb_Subdomain b) reg)) (sc_Clients (sv_cfg sv)) reg"
  have t: "NewRouteTable srt (sc_Clients (sv_cfg sv)) reg0 = (sv_routes sv, sv_registry sv)"
    using r by (simp add: buildRouteTable_def reg0_def)
  show ?thesis unfolding routes_ok_def
  proof (intro allI)
    fix h p
    have m: "case Match (sv_routes sv) h p of
       Inr r \<Rightarrow> \<exists>b. best_binding (sc_Clients (sv_cfg sv)) h (Clean p) b \<and> r = route_of (sv_registry sv) b
     | Inl e \<Rightarrow> e = ErrNoRoute \<and> list_all (\<lambda>b. \<not> binding_matches (Clean p) b) (host_bindings h (sc_Clients (sv_cfg sv)))"
      using route_sorter.match_best [OF srt, where bs = "sc_Clients (sv_cfg sv)" and st = reg0 and h = h and p = p]
      unfolding t fst_conv snd_conv .
    show "case Match (sv_routes sv) h p of
        Inr r \<Rightarrow> Pool (sv_registry sv) h = Some (rt_Pool r)
          \<and> (\<exists>b. best_binding (sc_Clients (sv_cfg sv)) h (Clean p) b
                \<and> rt_PathPrefix r = NormalizePathPrefix (cb_PathPrefix b) \<and> rt_Strip r = cb_StripPrefix b)
      | Inl _ \<Rightarrow> list_all (\<lambda>b. \<not> binding_matches (Clean p) b) (host_bindings h (sc_Clients (sv_cfg sv)))"
      using m Match_named [OF srt t, of h p]
      by (cases "Match (sv_routes sv) h p") (auto simp: route_of_def)
  qed
qed

definition sys_inv :: "'x transport \<Rightarrow> pollmux_consts \<Rightarrow> ServerConfig \<Rightarrow> 'x Server \<Rightarrow> bool" where
  "sys_inv A pm cfg sv \<longleftrightarrow> srv_inv A sv \<and> routes_ok sv \<and> ValidateServer pm cfg = Inr (sv_cfg sv)"

lemma sys_reachable_inv:
  assumes "route_sorter srt" "sys_reachable A P closeStream pm srt cfg sv"
  shows "sys_inv A pm cfg sv"
  using assms(2)
proof induction
  case (init heap x sv)
  then show ?case
    using NewServer_inv NewServer_routes_ok [OF assms(1)] NewServer_fields unfolding sys_inv_def by metis
next
  case (step sv sv')
  then show ?case
    using sys_step_inv routes_ok_same unfolding sys_inv_def same_names_def by metis
qed

section \<open>Properties of the public side\<close>

text \<open>
  C8: whatever sequence of starts, connects, polls, disconnects, requests, stream openings and closings, drain
  ends, transport changes and stops a server goes through, it satisfies the system invariant: the
  registry is consistent, its pools are those of the configuration and hold tunnels of configured
  clients of that subdomain only, no pool outgrows the largest limit of its bindings, and the route
  table answers by longest matching prefix and leads to the pool of the host.
\<close>

theorem reachable_invariant:
  assumes "route_sorter srt" "sys_reachable A P closeStream pm srt cfg sv"
  shows "srv_inv A sv \<and> routes_ok sv \<and> ValidateServer pm cfg = Inr (sv_cfg sv)"
  using sys_reachable_inv [OF assms] by (simp add: sys_inv_def)

lemma forward_cases:
  assumes "servePublic A r sv = (Forward ctx, sv')"
  obtains h route t where "HostKey (rq_Host r) (sc_RootDomain (sv_cfg sv)) = Inr h"
    "Match (sv_routes sv) h (url_Path (rq_URL r)) = Inr route" "ctx = forward_ctx route t"
    "t \<in> set (members (sv_registry sv) (rt_Pool route))" "available A (sv_registry sv) t"
    "ct_ActiveStreams (rs_tunnels (sv_registry sv) t) < tun_MaxStreamsPerTunnel (sc_Tunnel (sv_cfg sv))"
proof (cases "\<exists>h route. HostKey (rq_Host r) (sc_RootDomain (sv_cfg sv)) = Inr h \<and>
    Match (sv_routes sv) h (url_Path (rq_URL r)) = Inr route")
  case True
  then obtain h route where h: "HostKey (rq_Host r) (sc_RootDomain (sv_cfg sv)) = Inr h"
    "Match (sv_routes sv) h (url_Path (rq_URL r)) = Inr route" by blast
  from assms [unfolded servePublic_routed [OF h]] obtain t where
    t: "firstAvailable_Pick A (sv_registry sv) (members (sv_registry sv) (rt_Pool route)) = Some t"
    "ctx = forward_ctx route t"
    "ct_ActiveStreams (rs_tunnels (sv_registry sv) t) < tun_MaxStreamsPerTunnel (sc_Tunnel (sv_cfg sv))"
    by (auto split: option.splits if_splits)
  with that [OF h] show ?thesis using fa.pick_sound [OF t(1)] by blast
next
  case False
  with assms servePublic_unrouted [of r sv A] show ?thesis by fastforce
qed

lemma forward_member:
  assumes "route_sorter srt" "sys_reachable A P closeStream pm srt cfg sv" "servePublic A r sv = (Forward ctx, sv')"
  obtains h t where "HostKey (rq_Host r) (sc_RootDomain (sv_cfg sv)) = Inr h" "pc_tunnel ctx = Some t"
    "member_of (sv_registry sv) h t" "available A (sv_registry sv) t"
    "ct_ActiveStreams (rs_tunnels (sv_registry sv) t) < tun_MaxStreamsPerTunnel (sc_Tunnel (sv_cfg sv))"
proof -
  have routes: "routes_ok sv"
    using sys_reachable_inv [OF assms(1,2)] by (auto simp: sys_inv_def)
  from assms(3) obtain h route t where h: "HostKey (rq_Host r) (sc_RootDomain (sv_cfg sv)) = Inr h"
    and m: "Match (sv_routes sv) h (url_Path (rq_URL r)) = Inr route" and c: "ctx = forward_ctx route t"
    and t: "t \<in> set (members (sv_registry sv) (rt_Pool route))" "available A (sv_registry sv) t"
    "ct_ActiveStreams (rs_tunnels (sv_registry sv) t) < tun_MaxStreamsPerTunnel (sc_Tunnel (sv_cfg sv))"
    by (rule forward_cases)
  have "named (sv_registry sv) h (rt_Pool route)"
    by (rule routes_ok_Inr(1) [OF routes m])
  then have "member_of (sv_registry sv) h t" using t(1) by (rule member_ofI)
  with that [OF h] show ?thesis using c t by (simp add: forward_ctx_def)
qed

text \<open>
  C1: a public request is only ever forwarded to a tunnel that is registered under the host key of its
  Host header, whose client is configured with that subdomain, which is alive, reported healthy and not
  being drained, and which has fewer active streams than the limit.
\<close>

theorem forward_target:
  assumes "route_sorter srt" "sys_reachable A P closeStream pm srt cfg sv"
    and "servePublic A r sv = (Forward ctx, sv')"
  shows "\<exists>h t b. HostKey (rq_Host r) (sc_RootDomain (sv_cfg sv)) = Inr h \<and> pc_tunnel ctx = Some t
    \<and> member_of (sv_registry sv) h t \<and> available A (sv_registry sv) t
    \<and> Lookup (sv_clients sv) (tunnel_ID (sv_registry sv) t) = Some b \<and> cb_Subdomain b = h
    \<and> ct_ActiveStreams (rs_tunnels (sv_registry sv) t) < tun_MaxStreamsPerTunnel (sc_Tunnel (sv_cfg sv))"
proof -
  have "srv_inv A sv"
    using sys_reachable_inv [OF assms(1,2)] by (auto simp: sys_inv_def)
  then show ?thesis
    using forward_member [OF assms] srv_inv_member by metis
qed



section \<open>Paths seen by the backend\<close>

lemma proxy_Rewrite_path:
  "url_Path (rq_URL (proxy_Rewrite (Some ctx) r out)) =
     (if pc_strip ctx \<noteq> '''' then
        (case StripPathPrefix (url_Path (rq_URL out)) (pc_strip ctx) of
           (q, ok) \<Rightarrow> if ok then q else url_Path (rq_URL out))
      else url_Path (rq_URL out))"
  by (auto simp: proxy_Rewrite_def SetXForwarded_def Let_def split: prod.splits bool.splits)

lemma validated_prefix:
  assumes "ValidateServer pm cfg = Inr cfg'" "b \<in> set (sc_Clients cfg')" "NormalizePathPrefix (cb_PathPrefix b) \<noteq> ''''"
  shows "clean_abs (NormalizePathPrefix (cb_PathPrefix b))"
proof -
  have "cb_PathPrefix b = '''' \<or> rooted (cb_PathPrefix b)"
    using assms(1,2) by (auto simp: ValidateServer_Inr server_ok_def bindings_ok_def list_all_iff binding_ok_def)
  with assms(3) show ?thesis by (auto simp: NormalizePathPrefix_eq normalizePathPrefix_clean_abs)
qed

text \<open>A prefix that is stripped is the clean prefix of a binding, and the path of the request is below it.\<close>

lemma forwarded_strip:
  assumes "sys_inv A pm cfg sv" "servePublic A r sv = (Forward ctx, sv')" "pc_strip ctx \<noteq> ''''"
  shows "clean_abs (pc_strip ctx)"
    "pc_strip ctx \<noteq> ''/'' \<Longrightarrow> under_path (Clean (url_Path (rq_URL r))) (pc_strip ctx)"
    "NormalizePathPrefix (pc_strip ctx) = pc_strip ctx"
proof -
  have inv: "routes_ok sv" "ValidateServer pm cfg = Inr (sv_cfg sv)"
    using assms(1) by (auto simp: sys_inv_def)
  let ?p = "url_Path (rq_URL r)"
  from assms(2) obtain h route t where m: "Match (sv_routes sv) h ?p = Inr route"
    and c: "ctx = forward_ctx route t" by (rule forward_cases)
  have s: "pc_strip ctx = rt_PathPrefix route" using c assms(3) by (auto simp: forward_ctx_def split: if_splits)
  from routes_ok_Inr(2) [OF inv(1) m] obtain b where
    b: "best_binding (sc_Clients (sv_cfg sv)) h (Clean ?p) b"
    "rt_PathPrefix route = NormalizePathPrefix (cb_PathPrefix b)" by blast
  have bin: "b \<in> set (sc_Clients (sv_cfg sv))" using b(1) by (auto simp: best_binding_def host_bindings_def)
  show ca: "clean_abs (pc_strip ctx)"
    using validated_prefix [OF inv(2) bin] b(2) s assms(3) by simp
  show "under_path (Clean ?p) (pc_strip ctx)" if "pc_strip ctx \<noteq> ''/''"
    using b assms(3) that by (auto simp: s best_binding_def binding_matches_def Let_def)
  show "NormalizePathPrefix (pc_strip ctx) = pc_strip ctx"
    using ca clean_absD normalizePathPrefix_rooted by (simp add: NormalizePathPrefix_eq)
qed

text \<open>
  C32: what path a backend behind a stripped prefix sees. If a request with a clean path is forwarded with
  a prefix to strip (other than \<^verbatim>\<open>/\<close>), the request path is that prefix followed by the rooted path that
  the backend gets; only the prefix itself becomes \<^verbatim>\<open>/\<close>.
\<close>

theorem forwarded_path:
  assumes "route_sorter srt" "sys_reachable A P closeStream pm srt cfg sv"
    and "servePublic A r sv = (Forward ctx, sv')" "pc_strip ctx \<noteq> ''''" "pc_strip ctx \<noteq> ''/''"
    and "clean_abs (url_Path (rq_URL r))" "url_Path (rq_URL out) = url_Path (rq_URL r)"
  shows "let q = url_Path (rq_URL (proxy_Rewrite (Some ctx) r out))
    in rooted q \<and> (url_Path (rq_URL r) = pc_strip ctx @ q \<or> url_Path (rq_URL r) = pc_strip ctx \<and> q = ''/'')"
proof -
  note strip = forwarded_strip [OF sys_reachable_inv [OF assms(1,2)] assms(3,4)]
  from strip(2) [OF assms(5)] show ?thesis
    unfolding clean_absD(1) [OF assms(6)] using strip(3) assms(4,5,7)
    by (cases rule: under_path_cases)
       (auto simp: proxy_Rewrite_path StripPathPrefix_def Let_def go_string)
qed

text \<open>
  A path that is not clean is matched after cleaning but stripped as it is, so the backend sees the
  prefix.
\<close>

lemma unclean_path_not_stripped:
  "Match example_table ''app'' ''//service/auth/login'' =
     Inr \<lparr>rt_HostKey = ''app'', rt_PathPrefix = ''/service/auth'', rt_Strip = True, rt_Pool = 0\<rparr>
   \<and> StripPathPrefix ''//service/auth/login'' ''/service/auth'' = (''//service/auth/login'', False)"
proof -
  have "Match example_table ''app'' ''//service/auth/login'' =
     Inr \<lparr>rt_HostKey = ''app'', rt_PathPrefix = ''/service/auth'', rt_Strip = True, rt_Pool = 0\<rparr>"
    by code_simp
  moreover have "StripPathPrefix ''//service/auth/login'' ''/service/auth'' = (''//service/auth/login'', False)"
    by code_simp
  ultimately show ?thesis by blast
qed

text \<open>
  The path is replaced without its encoded form: after stripping, an encoded slash reaches the backend
  decoded.
\<close>

lemma strip_loses_encoding:
  "EscapedPath (empty_URL\<lparr>url_Path := ''/app/a/b'', url_RawPath := ''/app/a%2Fb''\<rparr>) = ''/app/a%2Fb''
   \<and> EscapedPath (empty_URL\<lparr>url_Path := ''/a/b'', url_RawPath := ''/app/a%2Fb''\<rparr>) = ''/a/b''"
  by code_simp

section \<open>Streams and connections\<close>

text \<open>The number of connections over a tunnel.\<close>

abbreviation conns_of :: "tunnel_ptr \<Rightarrow> countedConn list \<Rightarrow> int" where
  "conns_of t conns \<equiv> int (length (filter (\<lambda>c. cn_tunnel c = t) conns))"

lemma OpenStream_conn:
  assumes "OpenStream A t reg = (DialConn c, reg')"
  shows "cn_tunnel c = t"
    and "ct_ActiveStreams (rs_tunnels reg' u) = ct_ActiveStreams (rs_tunnels reg u) + (if u = t then 1 else 0)"
  using assms by (auto simp: OpenStream_def split: option.splits prod.splits sum.splits)

lemma OpenStream_error:
  assumes "OpenStream A t reg = (DialError e, reg')"
  shows "rs_tunnels reg' = rs_tunnels reg"
  using assms by (auto simp: OpenStream_def split: option.splits prod.splits sum.splits)

lemma filter_remove1_length:
  "c \<in> set cs \<Longrightarrow> length (filter P cs) = length (filter P (remove1 c cs)) + (if P c then 1 else 0)"
  by (induction cs) auto

text \<open>Closing a connection twice takes its stream off the count twice.\<close>

lemma double_close:
  "ct_ActiveStreams (rs_tunnels (snd (countedConn_Close cs c (snd (countedConn_Close cs c reg)))) (cn_tunnel c)) =
     ct_ActiveStreams (rs_tunnels reg (cn_tunnel c)) - 2"
  by (simp add: countedConn_Close_def case_prod_beta Let_def)

text \<open>
  A reverse-proxy exchange leaves no stream behind: whatever the backend answers, the stream counters
  of all tunnels are the same after the exchange as before it.
\<close>

lemma exchange_balanced:
  "ct_ActiveStreams (rs_tunnels (snd (reverse_proxy A closeStream prepare backend ctx r reg)) t) =
     ct_ActiveStreams (rs_tunnels reg t)"
  by (auto simp: reverse_proxy_def DialContext_def OpenStream_def countedConn_Close_def Let_def
      split: option.splits prod.splits sum.splits dial_result.splits)

section \<open>Witnesses\<close>

definition example_close :: "example_ext \<Rightarrow> nat \<Rightarrow> example_ext \<times> string option" where
  "example_close x n = (x, None)"

definition example_connected :: "example_ext Server" where
  "example_connected = snd (onConnect example_transport 5 0 example_meta example_server)"

lemma example_reachable:
  "sys_reachable example_transport example_store example_close example_consts sort_routes example_cfg example_connected"
  unfolding example_connected_def
  using sys_reachable.step [OF sys_reachable.init [OF example_NewServer] sys_step.connect [OF example_fresh_session(1)]]
  by simp

theorem reachable_invariant_witness: "srv_inv example_transport example_connected"
  using reachable_invariant [OF ins.route_sorter_axioms example_reachable] by blast

text \<open>
  The request is for the prefix of client \<^verbatim>\<open>auth\<close>; it is forwarded to the tunnel of client \<^verbatim>\<open>home\<close>, the only
  one connected on the subdomain that the two share.
\<close>

lemma example_forward:
  "fst (servePublic example_transport (example_request ''GET'' ''/service/auth/login'' ''x'') example_connected) =
     Forward \<lparr>pc_tunnel = Some 0, pc_strip = ''/service/auth''\<rparr>"
  "tunnel_ID (sv_registry example_connected) 0 = ''home''"
proof -
  have "case fst (servePublic example_transport (example_request ''GET'' ''/service/auth/login'' ''x'') example_connected) of
      Forward c \<Rightarrow> c = \<lparr>pc_tunnel = Some 0, pc_strip = ''/service/auth''\<rparr>
    | PublicReply _ \<Rightarrow> False" by code_simp
  then show "fst (servePublic example_transport (example_request ''GET'' ''/service/auth/login'' ''x'') example_connected) =
     Forward \<lparr>pc_tunnel = Some 0, pc_strip = ''/service/auth''\<rparr>" by (simp split: public_result.splits)
  show "tunnel_ID (sv_registry example_connected) 0 = ''home''" by code_simp
qed

lemma example_forward_pair:
  "servePublic example_transport (example_request ''GET'' ''/service/auth/login'' ''x'') example_connected =
     (Forward \<lparr>pc_tunnel = Some 0, pc_strip = ''/service/auth''\<rparr>,
      snd (servePublic example_transport (example_request ''GET'' ''/service/auth/login'' ''x'') example_connected))"
  using example_forward(1) by (simp add: prod_eq_iff)

theorem forward_target_witness:
  "\<exists>h t. pc_tunnel \<lparr>pc_tunnel = Some 0, pc_strip = ''/service/auth''\<rparr> = Some t
     \<and> member_of (sv_registry example_connected) h t"
  using forward_target [OF ins.route_sorter_axioms example_reachable example_forward_pair] by blast

theorem forwarded_path_witness:
  "url_Path (rq_URL (proxy_Rewrite (Some \<lparr>pc_tunnel = Some 0, pc_strip = ''/service/auth''\<rparr>)
     (example_request ''GET'' ''/service/auth/login'' ''x'') (example_request ''GET'' ''/service/auth/login'' ''x'')))
   = ''/login''"
proof -
  have "clean_abs (url_Path (rq_URL (example_request ''GET'' ''/service/auth/login'' ''x'')))" by code_simp
  from forwarded_path [OF ins.route_sorter_axioms example_reachable example_forward_pair _ _ this refl]
  show ?thesis by (simp add: example_request_def Let_def)
qed

text \<open>
  Client \<^verbatim>\<open>auth\<close> cannot connect while \<^verbatim>\<open>home\<close> is connected: with a limit of one, the shared pool is full.
\<close>

lemma shared_pool_conflict:
  "authenticateConnect example_connected
     (example_request ''POST'' ''/tunnel/connect'' ''fedcba9876543210fedcba9876543210'')
     \<lparr>cq_Meta = Some [''client_id'' \<mapsto> ''auth'']\<rparr> =
   Inl (StatusError StatusConflict ''subdomain has reached max_clients'')"
proof -
  have "Lookup (sv_clients example_connected) ''auth'' = Some (example_bindings ! 1)"
    "Pool (sv_registry example_connected) ''app'' = Some 0"
    "Pool_ByID (sv_registry example_connected) 0 ''auth'' = None" "Pool_Len (sv_registry example_connected) 0 = 1"
    "bearerToken (example_request ''POST'' ''/tunnel/connect'' ''fedcba9876543210fedcba9876543210'') =
      ''fedcba9876543210fedcba9876543210''"
    "validToken ''fedcba9876543210fedcba9876543210'' ''fedcba9876543210fedcba9876543210''"
    by code_simp+
  then show ?thesis
    by (simp add: authenticateConnect_def map_get_def example_bindings_def example_binding_def Let_def)
qed

end
