(* ===== verification/Nil_Safety.thy ===== *)
theory Nil_Safety
  imports Proxy
begin

text \<open>
  Typing of the heap of tunnels. Go allows nil where a tunnel refers to its pollmux and yamux sessions, and
  two operations dereference without a check: \<^verbatim>\<open>Snapshot\<close> the session and \<^verbatim>\<open>OpenStream\<close> the yamux session. The
  theory shows that every tunnel that a running server has allocated has both, that what identifies a tunnel
  is written once, and that therefore neither operation panics, however much happens between the choice
  of a tunnel and its use.
\<close>

section \<open>Fields that are written once\<close>

definition static_fields ::
  "ClientTunnel \<Rightarrow> string \<times> string \<times> session_ptr option \<times> yamux_ptr option \<times> int \<times> string" where
  "static_fields c = (ct_ID c, ct_Subdomain c, ct_Session c, ct_Yamux c, ct_ConnectedAt c, ct_RemoteAddr c)"

definition extends_heap :: "'x Server \<Rightarrow> 'x Server \<Rightarrow> bool" where
  "extends_heap sv sv' \<longleftrightarrow>
     sv_nextTunnel sv \<le> sv_nextTunnel sv' \<and>
     (\<forall>t < sv_nextTunnel sv. static_fields (rs_tunnels (sv_registry sv') t) = static_fields (rs_tunnels (sv_registry sv) t))"

definition typed_heap :: "'x Server \<Rightarrow> bool" where
  "typed_heap sv \<longleftrightarrow>
     (\<forall>t < sv_nextTunnel sv. ct_Session (rs_tunnels (sv_registry sv) t) \<noteq> None \<and> ct_Yamux (rs_tunnels (sv_registry sv) t) \<noteq> None)"

lemma extends_heap_refl [simp]: "extends_heap sv sv"
  by (simp add: extends_heap_def)

lemma extends_heap_trans [trans]: "extends_heap a b \<Longrightarrow> extends_heap b c \<Longrightarrow> extends_heap a c"
  unfolding extends_heap_def by (metis less_le_trans order_trans)

lemma extends_heapI:
  assumes "sv_nextTunnel sv' = sv_nextTunnel sv"
    and "\<And>t. static_fields (rs_tunnels (sv_registry sv') t) = static_fields (rs_tunnels (sv_registry sv) t)"
  shows "extends_heap sv sv'"
  using assms by (simp add: extends_heap_def)

section \<open>Every operation keeps them\<close>

named_theorems static \<open>operations that keep the fields that identify a tunnel\<close>

lemma static_upd [static]:
  "static_fields (f (rs_tunnels st t)) = static_fields (rs_tunnels st t) \<Longrightarrow>
   static_fields (rs_tunnels (upd_tunnel t f st) u) = static_fields (rs_tunnels st u)"
  by simp

lemma static_flags [simp]:
  "static_fields (c\<lparr>ct_Draining := b\<rparr>) = static_fields c" "static_fields (c\<lparr>ct_LocalHealthy := b\<rparr>) = static_fields c"
  "static_fields (c\<lparr>ct_Closed := b\<rparr>) = static_fields c" "static_fields (add_streams n c) = static_fields c"
  by (simp_all add: static_fields_def add_streams_def)

lemma EnsurePool_tunnels [simp]: "rs_tunnels (snd (EnsurePool sub st)) = rs_tunnels st"
  by (simp add: EnsurePool_def new_pool_def Let_def split: option.split)

lemma static_Pool_Add [static]:
  "static_fields (rs_tunnels (snd (Pool_Add p t mx d st)) u) = static_fields (rs_tunnels st u)"
  by (simp add: Pool_Add_def split: option.split)

lemma drop_session_tunnels [simp]: "rs_tunnels (drop_session A old st) = rs_tunnels st"
  by (simp add: drop_session_def split: option.split)

lemma static_Register [static]:
  "static_fields (rs_tunnels (snd (Register A t mx st)) u) = static_fields (rs_tunnels st u)"
proof -
  have "static_fields (rs_tunnels (snd (register_in A p t mx st)) u) = static_fields (rs_tunnels st u)" for p st
  proof -
    define st1 where "st1 = drop_session A (Pool_ByID st p (tunnel_ID st t)) st"
    obtain err st2 where add: "Pool_Add p t mx (rs_supersedeDrainTimeout st1) st1 = (err, st2)"
      by fastforce
    have "static_fields (rs_tunnels st2 v) = static_fields (rs_tunnels st v)" for v
      using static_Pool_Add [of p t mx "rs_supersedeDrainTimeout st1" st1 v] by (simp add: add) (simp add: st1_def)
    then show ?thesis
      by (simp add: register_in_def Let_def add [unfolded st1_def] split: option.split)
  qed
  then show ?thesis
    by (simp add: Register_def case_prod_beta Let_def)
qed

lemma static_SetLocalHealth [static]:
  "static_fields (rs_tunnels (SetLocalHealth sub cid ok st) u) = static_fields (rs_tunnels st u)"
  by (simp add: SetLocalHealth_def split: option.split)

lemma RemoveBySessionID_tunnels [simp]: "rs_tunnels (RemoveBySessionID i st) = rs_tunnels st"
  by (simp add: RemoveBySessionID_def Pool_Remove_def Let_def split: option.split)

lemma static_Close_tunnel [static]:
  "static_fields (rs_tunnels (fst (Close_tunnel A t st)) u) = static_fields (rs_tunnels st u)"
  by (simp add: Close_tunnel_def Let_def split: prod.split)

lemma static_OpenStream [static]:
  "static_fields (rs_tunnels (snd (OpenStream A t st)) u) = static_fields (rs_tunnels st u)"
  by (simp add: OpenStream_def split: option.split prod.split sum.split)

lemma static_countedConn_Close [static]:
  "static_fields (rs_tunnels (snd (countedConn_Close closeStream c st)) u) = static_fields (rs_tunnels st u)"
  by (simp add: countedConn_Close_def case_prod_beta Let_def)

lemma extends_onDisconnect: "extends_heap sv (onDisconnect A s sv)"
  by (rule extends_heapI) (simp_all add: onDisconnect_def Let_def split: option.split)

lemma extends_CloseSession: "extends_heap sv (CloseSession A P s sv)"
proof -
  let ?sv = "upd_registry (\<lambda>reg. reg\<lparr>rs_ext := fst (store_Close P (rs_ext (sv_registry sv)) s)\<rparr>) sv"
  have "extends_heap sv ?sv"
    by (rule extends_heapI) simp_all
  then show ?thesis
    using extends_heap_trans [OF _ extends_onDisconnect [of ?sv A s]] by (simp add: CloseSession_def case_prod_beta Let_def)
qed

lemma extends_Stop: "extends_heap sv (snd (Stop A P sd sv))"
proof -
  have fold: "extends_heap sv (fold (CloseSession A P) ss sv)" for ss and sv
    by (induction ss arbitrary: sv) (auto intro: extends_heap_trans extends_CloseSession)
  have "extends_heap (sv\<lparr>sv_stopOnce := True\<rparr>) = extends_heap sv"
    by (simp add: extends_heap_def fun_eq_iff)
  with fold [of "sv\<lparr>sv_stopOnce := True\<rparr>"] show ?thesis
    by (simp add: Stop_def Let_def extends_heap_def)
qed

text \<open>A connect allocates one tunnel, with both sessions.\<close>

lemma onConnect_heap:
  "extends_heap sv (snd (onConnect A now s meta sv)) \<and> (typed_heap sv \<longrightarrow> typed_heap (snd (onConnect A now s meta sv)))"
proof -
  obtain x ys where cs: "ClientSession A (rs_ext (sv_registry sv)) s = (x, ys)"
    by fastforce
  show ?thesis
  proof (cases "\<exists>y b. ys = Inr y \<and> Lookup (sv_clients sv) (map_get meta ''client_id'') = Some b")
    case False
    then show ?thesis
      using cs by (cases ys; cases "Lookup (sv_clients sv) (map_get meta ''client_id'')")
        (simp_all add: onConnect_def extends_heap_def typed_heap_def)
  next
    case True
    then obtain y b where y: "ys = Inr y" "Lookup (sv_clients sv) (map_get meta ''client_id'') = Some b"
      by blast
    let ?t = "sv_nextTunnel sv" and ?sv' = "snd (onConnect A now s meta sv)"
    let ?reg0 = "with_tunnel now (map_get meta ''client_id'') b s y x sv"
    have next': "sv_nextTunnel ?sv' = Suc ?t"
      using onConnect_known [OF cs [unfolded y(1)] y(2), of now]
      by (simp split: prod.split option.split registry_error.split)
    have regs: "static_fields (rs_tunnels (sv_registry ?sv') u) = static_fields (rs_tunnels ?reg0 u)" for u
      using onConnect_known [OF cs [unfolded y(1)] y(2), of now] static_Register [of A ?t "cb_MaxClients b" ?reg0 u]
      by (auto split: prod.splits option.splits)
    have old: "static_fields (rs_tunnels (sv_registry ?sv') u) = static_fields (rs_tunnels (sv_registry sv) u)" if "u < ?t" for u
      using regs [of u] that by simp
    have "ct_Session (rs_tunnels (sv_registry ?sv') ?t) = Some s" "ct_Yamux (rs_tunnels (sv_registry ?sv') ?t) = Some y"
      using regs [of ?t] by (simp_all add: static_fields_def new_tunnel_def)
    with old next' show ?thesis
      unfolding extends_heap_def typed_heap_def by (auto simp: less_Suc_eq static_fields_def)
  qed
qed

lemma typed_heap_extends:
  "typed_heap sv \<Longrightarrow> extends_heap sv sv' \<Longrightarrow> sv_nextTunnel sv' = sv_nextTunnel sv \<Longrightarrow> typed_heap sv'"
  unfolding typed_heap_def extends_heap_def static_fields_def by simp

lemma Stop_nextTunnel: "sv_nextTunnel (snd (Stop A P sd sv)) = sv_nextTunnel sv"
proof -
  have "sv_nextTunnel (fold (CloseSession A P) ss sv) = sv_nextTunnel sv" for ss and sv
    by (induction ss arbitrary: sv) (simp_all add: CloseSession_def onDisconnect_def case_prod_beta Let_def)
  then show ?thesis
    by (simp add: Stop_def Let_def)
qed

lemma sys_step_heap:
  assumes "sys_step A P closeStream pm sv sv'"
  shows "extends_heap sv sv' \<and> (typed_heap sv \<longrightarrow> typed_heap sv')"
proof -
  have quiet: "extends_heap sv sv' \<and> (typed_heap sv \<longrightarrow> typed_heap sv')"
    if "sv_nextTunnel sv' = sv_nextTunnel sv"
      "\<And>t. static_fields (rs_tunnels (sv_registry sv') t) = static_fields (rs_tunnels (sv_registry sv) t)" for sv sv' :: "'a Server"
    using extends_heapI [OF that] typed_heap_extends [OF _ _ that(1)] by blast
  have disc: "sv_nextTunnel (onDisconnect A s sv) = sv_nextTunnel sv" for s and sv :: "'a Server"
    by (simp add: onDisconnect_def)
  have close: "sv_nextTunnel (CloseSession A P s sv) = sv_nextTunnel sv" for s and sv :: "'a Server"
    by (simp add: CloseSession_def disc case_prod_beta Let_def)
  from assms show ?thesis
  proof cases
    case (connect s now meta)
    then show ?thesis by (simp add: onConnect_heap)
  next
    case (disconnect s)
    then show ?thesis using extends_onDisconnect [of sv A s] typed_heap_extends disc by auto
  next
    case (close_session s)
    then show ?thesis using extends_CloseSession [of sv A P s] typed_heap_extends close by metis
  next
    case (stop sd)
    then show ?thesis using extends_Stop [of sv A P sd] typed_heap_extends Stop_nextTunnel by metis
  next
    case (request r)
    obtain reg where "snd (servePublic A r sv) = sv\<lparr>sv_registry := reg\<rparr>"
      "reg = sv_registry sv \<or> (\<exists>p. reg = snd (Pool_Pick A p (sv_registry sv)))"
      using servePublic_registry [of A r sv] by blast
    with request show ?thesis by (intro quiet) auto
  qed (auto intro!: quiet simp: Start_frame stop_exec_frame StartOnListener_def onPoll_def Let_def static)
qed

section \<open>Reachable states\<close>

lemma sys_reachable_typed: "sys_reachable A P closeStream pm srt cfg sv \<Longrightarrow> typed_heap sv"
proof (induction rule: sys_reachable.induct)
  case (init heap x sv)
  then show ?case
    by (auto simp: NewServer_def bind_result_Inr Let_def typed_heap_def case_prod_beta)
next
  case (step sv sv')
  then show ?case using sys_step_heap by blast
qed

lemma sys_steps_extend: "(sys_step A P closeStream pm)\<^sup>*\<^sup>* sv sv' \<Longrightarrow> extends_heap sv sv'"
  by (induction rule: rtranclp_induct) (auto intro: extends_heap_trans dest: sys_step_heap)

lemma reachable_steps:
  "(sys_step A P closeStream pm)\<^sup>*\<^sup>* sv sv' \<Longrightarrow> sys_reachable A P closeStream pm srt cfg sv \<Longrightarrow>
   sys_reachable A P closeStream pm srt cfg sv'"
  by (induction rule: rtranclp_induct) (auto intro: sys_reachable.step)

lemma reachable_Snapshot:
  assumes "route_sorter srt" "sys_reachable A P closeStream pm srt cfg sv"
  shows "Snapshot A (sv_registry sv) \<noteq> Inl e"
proof -
  note inv = sys_reachable_inv [OF assms, unfolded sys_inv_def, THEN conjunct1]
  have "ct_Session (rs_tunnels (sv_registry sv) t) \<noteq> None" if "member_of (sv_registry sv) sub t" for sub t
    using srv_inv_member [OF inv that] sys_reachable_typed [OF assms(2)] by (auto simp: typed_heap_def)
  moreover have "distinct (map fst (rs_byName (sv_registry sv)))"
    using srv_inv_reg [OF inv] by (simp add: reg_inv_def)
  ultimately show ?thesis
    unfolding member_of_def named_def using Snapshot_panics_iff [of A "sv_registry sv"]
    by (cases e) (force simp: split_beta)
qed

lemma forwarded_allocated:
  assumes "route_sorter srt" "sys_reachable A P closeStream pm srt cfg sv" "servePublic A r sv = (Forward ctx, sv')"
  obtains t where "pc_tunnel ctx = Some t" "t < sv_nextTunnel sv"
  using forward_member [OF assms] srv_inv_member [OF sys_reachable_inv [OF assms(1,2), unfolded sys_inv_def, THEN conjunct1]]
  by metis

text \<open>
  C10: no nil pointer is dereferenced. Once a request is forwarded to a tunnel, it may wait while any events
  happen: polls, disconnects, supersession, drains, even \<^verbatim>\<open>Stop\<close>. When the proxy then dials, the exchange gives a
  response and does not panic on a nil yamux session; and at no time does a status request panic on a nil
  session.
\<close>

theorem no_nil_dereference:
  assumes "route_sorter srt" "sys_reachable A P closeStream pm srt cfg sv" "servePublic A r sv = (Forward ctx, sv1)"
    and "(sys_step A P closeStream pm)\<^sup>*\<^sup>* sv1 sv2"
  shows "(\<exists>resp. fst (reverse_proxy A closeStream prepare backend (Some ctx) r (sv_registry sv2)) = Some resp) \<and>
    (\<exists>resp. handleStatus A secs now q sv2 = Inr resp)"
proof
  obtain t where t: "pc_tunnel ctx = Some t" "t < sv_nextTunnel sv"
    by (rule forwarded_allocated [OF assms(1-3)])
  have "sys_step A P closeStream pm sv sv1"
    using sys_step.request [of A P closeStream pm sv r] assms(3) by simp
  then have steps: "(sys_step A P closeStream pm)\<^sup>*\<^sup>* sv sv2"
    using assms(4) by (rule converse_rtranclp_into_rtranclp)
  then have "t < sv_nextTunnel sv2"
    using sys_steps_extend t(2) unfolding extends_heap_def by (metis less_le_trans)
  then obtain y where "ct_Yamux (rs_tunnels (sv_registry sv2) t) = Some y"
    using sys_reachable_typed [OF reachable_steps [OF steps assms(2)]] by (auto simp: typed_heap_def)
  then have "fst (DialContext A (Some ctx) (sv_registry sv2)) \<noteq> DialPanic"
    by (simp add: DialContext_def t(1) OpenStream_def split: prod.split sum.split)
  then show "\<exists>resp. fst (reverse_proxy A closeStream prepare backend (Some ctx) r (sv_registry sv2)) = Some resp"
    by (auto simp: reverse_proxy_def Let_def split: prod.split dial_result.split)
  show "\<exists>resp. handleStatus A secs now q sv2 = Inr resp"
    using reachable_Snapshot [OF assms(1) reachable_steps [OF steps assms(2)]]
    by (cases "Snapshot A (sv_registry sv2)") (auto simp: handleStatus_def bind_result_def)
qed

text \<open>The client disconnects after its tunnel was chosen.\<close>

definition example_picked :: "example_ext Server" where
  "example_picked = snd (servePublic example_transport (example_request ''GET'' ''/service/auth/login'' ''x'') example_connected)"

theorem no_nil_dereference_witness:
  "\<exists>resp. fst (reverse_proxy example_transport example_close (\<lambda>r. r) (\<lambda>_. Inl DeadlineExceeded)
      (Some \<lparr>pc_tunnel = Some 0, pc_strip = ''/service/auth''\<rparr>) (example_request ''GET'' ''/service/auth/login'' ''x'')
      (sv_registry (onDisconnect example_transport 0 example_picked))) = Some resp"
proof -
  have "sys_step example_transport example_store example_close example_consts example_picked
      (onDisconnect example_transport 0 example_picked)"
    using sys_step.disconnect [of example_transport example_store example_close example_consts example_picked 0] by simp
  from no_nil_dereference [OF ins.route_sorter_axioms example_reachable example_forward_pair [folded example_picked_def]
      r_into_rtranclp, OF this]
  show ?thesis
    by blast
qed

end
