(* ===== verification/Drain.thy ===== *)
theory Drain
  imports Nil_Safety
begin

text \<open>
  The goroutine of \<^verbatim>\<open>beginSupersedeDrain\<close> (\<^verbatim>\<open>internal/registry/pool.go\<close>) together with the requests that use the
  superseded tunnel: every interleaving of the goroutine, requests that are admitted, dial and close, other
  operations on the registry, and the clock. The result: a stream of the superseded tunnel is cut off only
  after the drain timeout, unless its request had been admitted and had not dialled yet when the tunnel was
  superseded; for such a request the cut can happen.
\<close>

section \<open>Requests\<close>

text \<open>
  The streams of concurrent requests. A request is admitted by \<^verbatim>\<open>servePublic\<close>, when its tunnel is available and
  below the limit \<open>mx\<close>, and opens its stream later, when the reverse proxy dials; the connection is closed
  once. The state holds the registry, the tunnels of the requests that were admitted and have not dialled, and
  the open connections. At most \<open>K\<close> requests are between admission and dial at any time.
\<close>

type_synonym 'x stream_state = "'x reg_state \<times> tunnel_ptr list \<times> countedConn list"

inductive stream_step ::
  "'x transport \<Rightarrow> ('x \<Rightarrow> nat \<Rightarrow> 'x \<times> string option) \<Rightarrow> int \<Rightarrow> nat \<Rightarrow> 'x stream_state \<Rightarrow> 'x stream_state \<Rightarrow> bool"
  for A closeStream mx K where
  admit: "available A reg t \<Longrightarrow> ct_ActiveStreams (rs_tunnels reg t) < mx \<Longrightarrow> length adm < K \<Longrightarrow>
    stream_step A closeStream mx K (reg, adm, conns) (reg, t # adm, conns)"
| dialled: "t \<in> set adm \<Longrightarrow> OpenStream A t reg = (DialConn c, reg') \<Longrightarrow>
    stream_step A closeStream mx K (reg, adm, conns) (reg', remove1 t adm, c # conns)"
| dial_failed: "t \<in> set adm \<Longrightarrow> OpenStream A t reg = (DialError e, reg') \<Longrightarrow>
    stream_step A closeStream mx K (reg, adm, conns) (reg', remove1 t adm, conns)"
| closed: "c \<in> set conns \<Longrightarrow>
    stream_step A closeStream mx K (reg, adm, conns)
      (snd (countedConn_Close closeStream c reg), adm, remove1 c conns)"

text \<open>Every request that \<^verbatim>\<open>servePublic\<close> forwards is admitted, with the limit of the configuration.\<close>

lemma servePublic_admits:
  assumes "servePublic A r sv = (Forward ctx, sv')" "length adm < K"
  shows "\<exists>t. pc_tunnel ctx = Some t \<and>
    stream_step A closeStream (tun_MaxStreamsPerTunnel (sc_Tunnel (sv_cfg sv))) K
      (sv_registry sv, adm, conns) (sv_registry sv, t # adm, conns)"
  using assms(1)
proof (rule forward_cases)
  fix h route t
  assume "ctx = forward_ctx route t" "available A (sv_registry sv) t"
    "ct_ActiveStreams (rs_tunnels (sv_registry sv) t) < tun_MaxStreamsPerTunnel (sc_Tunnel (sv_cfg sv))"
  with assms(2) show ?thesis
    by (intro exI [of _ t]) (auto simp: forward_ctx_def intro: stream_step.admit)
qed

section \<open>The goroutine and its environment\<close>

text \<open>
  Where the goroutine is: not started; before the deadline is computed, with the timeout; at the loop
  condition; before the load of the counter; asleep until a time; about to close the tunnel, and done, both
  with a flag that tells whether the loop ended because of the deadline.
\<close>

datatype drain_pc =
    Unstarted
  | Started duration
  | Condition int
  | Load int
  | Asleep int int
  | Closing bool
  | Finished bool

record 'x drain_state =
  dr_reg :: "'x reg_state"
  dr_adm :: "tunnel_ptr list"
  dr_conns :: "countedConn list"
  dr_now :: int
  dr_pc :: drain_pc

definition set_streams :: "'x stream_state \<Rightarrow> 'x drain_state \<Rightarrow> 'x drain_state" where
  "set_streams st s = (case st of (reg, adm, conns) \<Rightarrow> s\<lparr>dr_reg := reg, dr_adm := adm, dr_conns := conns\<rparr>)"

abbreviation streams_of :: "'x drain_state \<Rightarrow> 'x stream_state" where
  "streams_of s \<equiv> (dr_reg s, dr_adm s, dr_conns s)"

abbreviation active :: "'x drain_state \<Rightarrow> tunnel_ptr \<Rightarrow> int" where
  "active s t \<equiv> ct_ActiveStreams (rs_tunnels (dr_reg s) t)"

abbreviation draining :: "'x drain_state \<Rightarrow> tunnel_ptr \<Rightarrow> bool" where
  "draining s t \<equiv> ct_Draining (rs_tunnels (dr_reg s) t)"

text \<open>
  \<open>supersede\<close> is the branch of \<^verbatim>\<open>Add\<close> that replaces \<open>old\<close>. \<open>other\<close> stands for everything else that happens to
  the registry: it opens and closes no stream and never clears the draining flag.
\<close>

inductive drain_step ::
  "'x transport \<Rightarrow> ('x \<Rightarrow> nat \<Rightarrow> 'x \<times> string option) \<Rightarrow> int \<Rightarrow> nat \<Rightarrow> tunnel_ptr
     \<Rightarrow> 'x drain_state \<Rightarrow> 'x drain_state \<Rightarrow> bool"
  for A closeStream mx K old where
  stream: "stream_step A closeStream mx K (streams_of s) st \<Longrightarrow> drain_step A closeStream mx K old s (set_streams st s)"
| other: "(\<And>t. ct_ActiveStreams (rs_tunnels reg t) = active s t) \<Longrightarrow>
     (draining s old \<Longrightarrow> ct_Draining (rs_tunnels reg old)) \<Longrightarrow>
     drain_step A closeStream mx K old s (s\<lparr>dr_reg := reg\<rparr>)"
| tick: "dr_now s \<le> now \<Longrightarrow> drain_step A closeStream mx K old s (s\<lparr>dr_now := now\<rparr>)"
| supersede: "dr_pc s = Unstarted \<Longrightarrow> replace_member (tunnel_ID (dr_reg s)) t (members (dr_reg s) p) = Some (old, ms) \<Longrightarrow>
     Pool_Add p t n d (dr_reg s) = (None, reg) \<Longrightarrow>
     drain_step A closeStream mx K old s
       (s\<lparr>dr_reg := reg, dr_pc := Started (if d \<le> 0 then defaultSupersedeDrainTimeout else d)\<rparr>)"
| deadline: "dr_pc s = Started d \<Longrightarrow> drain_step A closeStream mx K old s (s\<lparr>dr_pc := Condition (dr_now s + d)\<rparr>)"
| before: "dr_pc s = Condition dl \<Longrightarrow> dr_now s < dl \<Longrightarrow> drain_step A closeStream mx K old s (s\<lparr>dr_pc := Load dl\<rparr>)"
| expired: "dr_pc s = Condition dl \<Longrightarrow> \<not> dr_now s < dl \<Longrightarrow> drain_step A closeStream mx K old s (s\<lparr>dr_pc := Closing True\<rparr>)"
| idle: "dr_pc s = Load dl \<Longrightarrow> active s old = 0 \<Longrightarrow> drain_step A closeStream mx K old s (s\<lparr>dr_pc := Closing False\<rparr>)"
| busy: "dr_pc s = Load dl \<Longrightarrow> active s old \<noteq> 0 \<Longrightarrow>
     drain_step A closeStream mx K old s (s\<lparr>dr_pc := Asleep (dr_now s + 100 * millisecond) dl\<rparr>)"
| wake: "dr_pc s = Asleep w dl \<Longrightarrow> w \<le> dr_now s \<Longrightarrow> drain_step A closeStream mx K old s (s\<lparr>dr_pc := Condition dl\<rparr>)"
| finish: "dr_pc s = Closing b \<Longrightarrow>
     drain_step A closeStream mx K old s (s\<lparr>dr_reg := fst (Close_tunnel A old (dr_reg s)), dr_pc := Finished b\<rparr>)"

section \<open>Invariant\<close>

lemma set_streams_simps [simp]:
  "dr_reg (set_streams (reg, adm, conns) s) = reg" "dr_adm (set_streams (reg, adm, conns) s) = adm"
  "dr_conns (set_streams (reg, adm, conns) s) = conns" "dr_now (set_streams st s) = dr_now s"
  "dr_pc (set_streams st s) = dr_pc s"
  by (simp_all add: set_streams_def split: prod.split)

text \<open>The counter of every tunnel is the number of its open connections.\<close>

definition counted :: "'x drain_state \<Rightarrow> bool" where
  "counted s \<longleftrightarrow> (\<forall>t. active s t = conns_of t (dr_conns s))"

text \<open>
  The state after the supersession, of which \<open>t0\<close> is the time and \<open>d\<close> the timeout: no request is about to dial
  the old tunnel, the goroutine does not go past the deadline before its time, and when it has seen the
  counter at zero, there is no connection.
\<close>

definition drain_ok :: "tunnel_ptr \<Rightarrow> int \<Rightarrow> duration \<Rightarrow> 'x drain_state \<Rightarrow> bool" where
  "drain_ok old t0 d s \<longleftrightarrow>
     counted s \<and> draining s old \<and> old \<notin> set (dr_adm s) \<and> t0 \<le> dr_now s \<and>
     (case dr_pc s of
        Unstarted \<Rightarrow> False
      | Started d' \<Rightarrow> d' = d
      | Condition dl \<Rightarrow> t0 + d \<le> dl
      | Load dl \<Rightarrow> t0 + d \<le> dl
      | Asleep _ dl \<Rightarrow> t0 + d \<le> dl
      | Closing e \<Rightarrow> if e then t0 + d \<le> dr_now s else conns_of old (dr_conns s) = 0
      | Finished e \<Rightarrow> if e then t0 + d \<le> dr_now s else conns_of old (dr_conns s) = 0)"

lemma stream_step_counted:
  assumes "stream_step A closeStream mx K (reg, adm, conns) (reg', adm', conns')"
    and "\<And>t. ct_ActiveStreams (rs_tunnels reg t) = conns_of t conns"
  shows "ct_ActiveStreams (rs_tunnels reg' t) = conns_of t conns'"
  using assms(1)
proof (cases rule: stream_step.cases)
  case (dialled u c)
  then show ?thesis using OpenStream_conn [OF dialled(4)] assms(2) by auto
next
  case (dial_failed u e)
  then show ?thesis using OpenStream_error [OF dial_failed(4)] assms(2) by simp
next
  case (closed c)
  then show ?thesis
    using filter_remove1_length [OF closed(4), of "\<lambda>c. cn_tunnel c = t"] assms(2) [of t]
    by (auto simp: countedConn_Close_def case_prod_beta Let_def)
qed (use assms(2) in simp)

text \<open>A step of the streams clears no draining flag and admits no request to a tunnel that drains.\<close>

lemma stream_step_draining:
  assumes "stream_step A closeStream mx K (reg, adm, conns) (reg', adm', conns')" "ct_Draining (rs_tunnels reg old)"
  shows "ct_Draining (rs_tunnels reg' old)"
    and "old \<notin> set adm \<Longrightarrow> old \<notin> set adm' \<and> conns_of old conns' \<le> conns_of old conns"
proof -
  have draining: "ct_Draining (rs_tunnels reg'' old)" if "OpenStream A u reg = (r, reg'')" for u r reg''
    using that assms(2) by (auto simp: OpenStream_def add_streams_def split: option.splits prod.splits sum.splits)
  show "ct_Draining (rs_tunnels reg' old)"
    using assms(1)
    by (cases rule: stream_step.cases)
       (use assms(2) draining in \<open>auto simp: countedConn_Close_def add_streams_def case_prod_beta Let_def\<close>)
  assume adm: "old \<notin> set adm"
  show "old \<notin> set adm' \<and> conns_of old conns' \<le> conns_of old conns"
    using assms(1)
  proof (cases rule: stream_step.cases)
    case (admit u)
    then show ?thesis using assms(2) adm by (auto simp: available_def)
  next
    case (dialled u c)
    then show ?thesis using OpenStream_conn(1) [OF dialled(4)] adm by (auto dest: notin_set_remove1)
  next
    case (dial_failed u e)
    then show ?thesis using adm by (auto dest: notin_set_remove1)
  next
    case (closed c)
    then show ?thesis using adm by (auto simp: filter_remove1 length_remove1)
  qed
qed

lemma Pool_Add_superseding:
  assumes "Pool_Add p t n d reg = (None, reg')" "replace_member (tunnel_ID reg) t (members reg p) = Some (old, ms)"
  shows "ct_Draining (rs_tunnels reg' old)" "ct_ActiveStreams (rs_tunnels reg' u) = ct_ActiveStreams (rs_tunnels reg u)"
  using assms by (auto simp: Pool_Add_def)

lemma Pool_Add_streams:
  "Pool_Add p t n d reg = (None, reg') \<Longrightarrow> ct_ActiveStreams (rs_tunnels reg' u) = ct_ActiveStreams (rs_tunnels reg u)"
  by (auto simp: Pool_Add_def split: option.splits if_splits)

lemma Close_tunnel_flags [simp]:
  "ct_ActiveStreams (rs_tunnels (fst (Close_tunnel A t reg)) u) = ct_ActiveStreams (rs_tunnels reg u)"
  "ct_Draining (rs_tunnels (fst (Close_tunnel A t reg)) u) = ct_Draining (rs_tunnels reg u)"
  by (simp_all add: Close_tunnel_def Let_def split: prod.split)

lemma drain_step_counted:
  assumes "drain_step A closeStream mx K old s s'" "counted s"
  shows "counted s'"
  using assms
proof (cases rule: drain_step.cases)
  case (stream st)
  obtain reg adm conns where st: "st = (reg, adm, conns)"
    by (cases st)
  show ?thesis
    using stream_step_counted [OF stream(2) [unfolded st]] assms(2) by (simp add: stream(1) st counted_def)
next
  case (supersede t p ms n d reg)
  then show ?thesis using Pool_Add_streams [OF supersede(4)] assms(2) by (simp add: counted_def)
qed (simp_all add: counted_def)

lemma drain_step_ok:
  assumes "drain_step A closeStream mx K old s s'" "drain_ok old t0 d s"
  shows "drain_ok old t0 d s'"
  using assms(1)
proof (cases rule: drain_step.cases)
  case (stream st)
  obtain reg adm conns where st: "st = (reg, adm, conns)"
    by (cases st)
  have "0 \<le> conns_of old conns"
    by simp
  then show ?thesis
    using stream_step_draining [OF stream(2) [unfolded st], of old] drain_step_counted [OF assms(1)] assms(2)
    unfolding drain_ok_def by (auto simp: stream(1) st split: drain_pc.splits)
next
  case (supersede t p ms n d' reg)
  then show ?thesis using assms(2) by (simp add: drain_ok_def)
next
  case (idle dl)
  then show ?thesis using assms(2) by (simp add: drain_ok_def counted_def)
qed (use assms(2) drain_step_counted [OF assms(1)] in \<open>auto simp: drain_ok_def counted_def split: drain_pc.splits\<close>)

section \<open>Supersession is graceful\<close>

definition drain_timeout :: "duration \<Rightarrow> duration" where
  "drain_timeout d = (if d \<le> 0 then defaultSupersedeDrainTimeout else d)"

lemma drain_steps_counted: "(drain_step A closeStream mx K old)\<^sup>*\<^sup>* s s' \<Longrightarrow> counted s \<Longrightarrow> counted s'"
  by (induction rule: rtranclp_induct) (auto intro: drain_step_counted)

lemma drain_steps_ok: "(drain_step A closeStream mx K old)\<^sup>*\<^sup>* s s' \<Longrightarrow> drain_ok old t0 d s \<Longrightarrow> drain_ok old t0 d s'"
  by (induction rule: rtranclp_induct) (auto intro: drain_step_ok)

text \<open>
  C11: a superseded tunnel is drained, not cut. Let the server run in any way from a state in which the
  stream counters are exact, let \<open>old\<close> be superseded while no request is between the check in \<^verbatim>\<open>servePublic\<close> and its
  dial to \<open>old\<close>, and let everything go on in any interleaving. Then no request is admitted to \<open>old\<close> any more, and
  when the goroutine has closed \<open>old\<close> while a connection over it was open, at least the drain timeout had passed
  since the supersession.
\<close>

theorem graceful_supersession:
  assumes "counted s0" "(drain_step A closeStream mx K old)\<^sup>*\<^sup>* s0 s1"
    and "old \<notin> set (dr_adm s1)" "replace_member (tunnel_ID (dr_reg s1)) t (members (dr_reg s1) p) = Some (old, ms)"
    and "Pool_Add p t n d (dr_reg s1) = (None, reg)"
    and "(drain_step A closeStream mx K old)\<^sup>*\<^sup>* (s1\<lparr>dr_reg := reg, dr_pc := Started (drain_timeout d)\<rparr>) s2"
  shows "old \<notin> set (dr_adm s2) \<and> draining s2 old \<and>
    (dr_pc s2 \<in> range Finished \<longrightarrow>
       conns_of old (dr_conns s2) = 0 \<or> dr_now s1 + drain_timeout d \<le> dr_now s2)"
proof -
  have "counted s1"
    by (rule drain_steps_counted [OF assms(2,1)])
  then have "drain_ok old (dr_now s1) (drain_timeout d) (s1\<lparr>dr_reg := reg, dr_pc := Started (drain_timeout d)\<rparr>)"
    using Pool_Add_superseding [OF assms(5,4)] assms(3) by (simp add: drain_ok_def counted_def)
  from drain_steps_ok [OF assms(6) this] show ?thesis
    by (auto simp: drain_ok_def split: if_splits)
qed

section \<open>Runs\<close>

datatype drain_event = Admit tunnel_ptr | Dial tunnel_ptr | Hangup countedConn | Elapse duration | Goroutine

text \<open>One step of the goroutine, or of its environment, as the event says.\<close>

fun drain_goroutine_exec :: "'x transport \<Rightarrow> tunnel_ptr \<Rightarrow> 'x drain_state \<Rightarrow> 'x drain_state option" where
  "drain_goroutine_exec A old s =
     (case dr_pc s of
        Started d \<Rightarrow> Some (s\<lparr>dr_pc := Condition (dr_now s + d)\<rparr>)
      | Condition dl \<Rightarrow> Some (s\<lparr>dr_pc := if dr_now s < dl then Load dl else Closing True\<rparr>)
      | Load dl \<Rightarrow> Some (s\<lparr>dr_pc := if active s old = 0 then Closing False else Asleep (dr_now s + 100 * millisecond) dl\<rparr>)
      | Asleep w dl \<Rightarrow> if w \<le> dr_now s then Some (s\<lparr>dr_pc := Condition dl\<rparr>) else None
      | Closing b \<Rightarrow> Some (s\<lparr>dr_reg := fst (Close_tunnel A old (dr_reg s)), dr_pc := Finished b\<rparr>)
      | _ \<Rightarrow> None)"

fun drain_exec ::
  "'x transport \<Rightarrow> ('x \<Rightarrow> nat \<Rightarrow> 'x \<times> string option) \<Rightarrow> int \<Rightarrow> nat \<Rightarrow> tunnel_ptr \<Rightarrow> drain_event
     \<Rightarrow> 'x drain_state \<Rightarrow> 'x drain_state option" where
  "drain_exec A closeStream mx K old (Admit t) s =
     (if available A (dr_reg s) t \<and> active s t < mx \<and> length (dr_adm s) < K
      then Some (set_streams (dr_reg s, t # dr_adm s, dr_conns s) s) else None)"
| "drain_exec A closeStream mx K old (Dial t) s =
     (if t \<in> set (dr_adm s) then
        (case OpenStream A t (dr_reg s) of
           (DialConn c, reg) \<Rightarrow> Some (set_streams (reg, remove1 t (dr_adm s), c # dr_conns s) s)
         | (DialError e, reg) \<Rightarrow> Some (set_streams (reg, remove1 t (dr_adm s), dr_conns s) s)
         | (DialPanic, reg) \<Rightarrow> None)
      else None)"
| "drain_exec A closeStream mx K old (Hangup c) s =
     (if c \<in> set (dr_conns s)
      then Some (set_streams (snd (countedConn_Close closeStream c (dr_reg s)), dr_adm s, remove1 c (dr_conns s)) s) else None)"
| "drain_exec A closeStream mx K old (Elapse d) s = (if 0 \<le> d then Some (s\<lparr>dr_now := dr_now s + d\<rparr>) else None)"
| "drain_exec A closeStream mx K old Goroutine s = drain_goroutine_exec A old s"

lemma drain_exec_step: "drain_exec A closeStream mx K old e s = Some s' \<Longrightarrow> drain_step A closeStream mx K old s s'"
  by (cases e)
     (auto split: if_splits prod.splits dial_result.splits drain_pc.splits
       intro: drain_step.intros drain_step.busy [simplified] stream_step.intros)

definition example_drain :: "example_ext drain_state" where
  "example_drain = \<lparr>dr_reg = example_reg1, dr_adm = [], dr_conns = [], dr_now = 0, dr_pc = Unstarted\<rparr>"

abbreviation example_run :: "drain_event list \<Rightarrow> example_ext drain_state \<Rightarrow> example_ext drain_state option" where
  "example_run \<equiv> runs (drain_exec example_transport example_close 4 4 0)"

definition superseded :: "example_ext drain_state \<Rightarrow> example_ext drain_state" where
  "superseded s = s\<lparr>dr_reg := snd (Pool_Add 0 1 1 second (dr_reg s)), dr_pc := Started (drain_timeout second)\<rparr>"

lemma example_steps:
  "example_run es s = Some s' \<Longrightarrow> (drain_step example_transport example_close 4 4 0)\<^sup>*\<^sup>* s s'"
  by (rule runs_rtranclp [OF drain_exec_step])

lemma example_counted: "counted example_drain"
  by (simp add: counted_def example_drain_def example_reg1_def reg_exec)

text \<open>A request is in flight when the tunnel is superseded; the goroutine waits for its end.\<close>

definition example_served :: "example_ext drain_state" where
  "example_served = the (example_run [Admit 0, Dial 0] example_drain)"

definition example_waits :: "drain_event list" where
  "example_waits =
     [Goroutine, Goroutine, Goroutine, Elapse (60 * millisecond), Hangup \<lparr>cn_Conn = 0, cn_tunnel = 0\<rparr>,
      Elapse (40 * millisecond), Goroutine, Goroutine, Goroutine, Goroutine]"

definition example_drained :: "example_ext drain_state" where
  "example_drained = the (example_run example_waits (superseded example_served))"

lemma not_none_the: "\<not> Option.is_none m \<Longrightarrow> m = Some (the m)"
  by (cases m) simp_all

lemma example_drain_runs:
  "example_run [Admit 0, Dial 0] example_drain = Some example_served"
  "example_run example_waits (superseded example_served) = Some example_drained"
proof -
  have "\<not> Option.is_none (example_run [Admit 0, Dial 0] example_drain)"
    by code_simp
  then show "example_run [Admit 0, Dial 0] example_drain = Some example_served"
    unfolding example_served_def by (rule not_none_the)
  have "\<not> Option.is_none (example_run example_waits (superseded example_served))"
    by code_simp
  then show "example_run example_waits (superseded example_served) = Some example_drained"
    unfolding example_drained_def by (rule not_none_the)
qed

theorem graceful_supersession_witness:
  "dr_pc example_drained = Finished False \<and> conns_of 0 (dr_conns example_served) = 1 \<and>
   conns_of 0 (dr_conns example_drained) = 0"
proof -
  have pc: "dr_pc example_drained = Finished False" "dr_now example_drained = 100 * millisecond"
    "dr_now example_served = 0" "conns_of 0 (dr_conns example_served) = 1"
    by code_simp+
  have served: "0 \<notin> set (dr_adm example_served)" "fst (Pool_Add 0 1 1 second (dr_reg example_served)) = None"
    "replace_member (tunnel_ID (dr_reg example_served)) 1 (members (dr_reg example_served) 0) = Some (0, [1])"
    by code_simp+
  then have add: "Pool_Add 0 1 1 second (dr_reg example_served) =
      (None, snd (Pool_Add 0 1 1 second (dr_reg example_served)))"
    by (simp add: prod_eq_iff)
  from graceful_supersession [OF example_counted example_steps [OF example_drain_runs(1)] served(1,3) add
      example_steps [OF example_drain_runs(2), unfolded superseded_def]] pc
  show ?thesis
    by (auto simp: drain_timeout_def)
qed

text \<open>
  Without the hypothesis on requests that have not dialled, the goroutine can see the counter at zero, then
  the request opens its stream, and the tunnel is closed under it although no time has passed.
\<close>

lemma supersession_race:
  "\<exists>s s'. (drain_step example_transport example_close 4 4 0)\<^sup>*\<^sup>* example_drain s \<and> 0 \<in> set (dr_adm s) \<and>
     (drain_step example_transport example_close 4 4 0)\<^sup>*\<^sup>* (superseded s) s' \<and>
     dr_pc s' = Finished False \<and> conns_of 0 (dr_conns s') = 1 \<and> dr_now s' = dr_now s"
proof -
  let ?race = "[Goroutine, Goroutine, Goroutine, Dial 0, Goroutine]"
  have run: "case example_run [Admit 0] example_drain of None \<Rightarrow> False
    | Some s \<Rightarrow> 0 \<in> set (dr_adm s) \<and>
        (case example_run ?race (superseded s) of None \<Rightarrow> False
         | Some s' \<Rightarrow> dr_pc s' = Finished False \<and> conns_of 0 (dr_conns s') = 1 \<and> dr_now s' = dr_now s)"
    by code_simp
  obtain s where s: "example_run [Admit 0] example_drain = Some s"
    using run by (cases "example_run [Admit 0] example_drain") (simp_all only: option.case)
  with run obtain s' where s': "example_run ?race (superseded s) = Some s'"
    by (cases "example_run ?race (superseded s)") (simp_all only: option.case simp_thms)
  from run have "0 \<in> set (dr_adm s) \<and> dr_pc s' = Finished False \<and> conns_of 0 (dr_conns s') = 1 \<and> dr_now s' = dr_now s"
    by (simp only: s s' option.case)
  with example_steps [OF s] example_steps [OF s'] show ?thesis
    by blast
qed

end
