(* ===== verification/Bridge.thy ===== *)
theory Bridge
  imports Go_Http Config "HOL-Library.Sublist"
begin

text \<open>
  Copying between two connections: \<^verbatim>\<open>internal/client/handler.go\<close> and the functions \<^verbatim>\<open>Bridge\<close> and \<^verbatim>\<open>copyOneWay\<close> of
  \<^verbatim>\<open>internal/server/bridge.go\<close>. The goroutines are step relations over a shared state, so that every
  interleaving of the two copy loops, the waiting goroutine and the two peers is covered. The result for
  the client: when the bridge returns nil, every byte was delivered in both directions; without faults of
  the network it always returns nil, and it returns once both peers are done. The bridge of the server
  closes both connections after the first direction ends and may cut off the other one.
\<close>

section \<open>Connections\<close>

text \<open>
  A connection as the program sees it. \<open>cn_sent\<close> is what the peer has written so far, \<open>cn_pos\<close> how much of it
  was read, \<open>cn_fin\<close> says that the peer has ended its direction, \<open>cn_out\<close> is what was written to the peer. The
  last two fields tell whether the dynamic type has the methods \<^verbatim>\<open>CloseWrite\<close> and \<^verbatim>\<open>CloseRead\<close>.
\<close>

record conn =
  cn_sent :: string
  cn_pos :: nat
  cn_fin :: bool
  cn_out :: string
  cn_closed :: bool
  cn_wclosed :: bool
  cn_rclosed :: bool
  cn_CloseWrite :: bool
  cn_CloseRead :: bool

definition Close :: "conn \<Rightarrow> conn" where
  "Close c = c\<lparr>cn_closed := True\<rparr>"

definition CloseWrite :: "conn \<Rightarrow> conn" where
  "CloseWrite c = (if cn_CloseWrite c then c\<lparr>cn_wclosed := True\<rparr> else c)"

definition CloseRead :: "conn \<Rightarrow> conn" where
  "CloseRead c = (if cn_CloseRead c then c\<lparr>cn_rclosed := True\<rparr> else c)"

text \<open>What the peer may do: send bytes until it ends its direction.\<close>

inductive peer_step :: "conn \<Rightarrow> conn \<Rightarrow> bool" where
  send: "\<not> cn_fin c \<Longrightarrow> peer_step c (c\<lparr>cn_sent := cn_sent c @ bs\<rparr>)"
| fin: "peer_step c (c\<lparr>cn_fin := True\<rparr>)"

section \<open>The copy loop\<close>

text \<open>
  \<^verbatim>\<open>io.Copy\<close> alternates reads of a nonempty chunk and writes of the whole chunk until a read reports the
  end or a call fails. A read fails on a closed connection, a write on a connection that is closed or
  whose writing side is; with \<open>faulty\<close> both may fail at any time. A write never blocks: the receive windows of
  the peers are not modelled.
\<close>

datatype phase = Copying string | Copied "string option" | Ended "string option"

inductive copy_step :: "bool \<Rightarrow> conn \<Rightarrow> conn \<Rightarrow> phase \<Rightarrow> conn \<Rightarrow> conn \<Rightarrow> phase \<Rightarrow> bool" for faulty where
  read: "\<not> cn_closed src \<Longrightarrow> 0 < n \<Longrightarrow> cn_pos src + n \<le> length (cn_sent src) \<Longrightarrow>
     copy_step faulty src dst (Copying [])
       (src\<lparr>cn_pos := cn_pos src + n\<rparr>) dst (Copying (take n (drop (cn_pos src) (cn_sent src))))"
| eof: "\<not> cn_closed src \<Longrightarrow> cn_fin src \<Longrightarrow> cn_pos src = length (cn_sent src) \<Longrightarrow>
     copy_step faulty src dst (Copying []) src dst (Copied None)"
| read_error: "faulty \<or> cn_closed src \<Longrightarrow>
     copy_step faulty src dst (Copying []) src dst (Copied (Some e))"
| write_all: "buf \<noteq> [] \<Longrightarrow> \<not> cn_closed dst \<Longrightarrow> \<not> cn_wclosed dst \<Longrightarrow>
     copy_step faulty src dst (Copying buf) src (dst\<lparr>cn_out := cn_out dst @ buf\<rparr>) (Copying [])"
| write_error: "buf \<noteq> [] \<Longrightarrow> faulty \<or> cn_closed dst \<or> cn_wclosed dst \<Longrightarrow> k < length buf \<Longrightarrow>
     copy_step faulty src dst (Copying buf)
       src (dst\<lparr>cn_out := cn_out dst @ take k buf\<rparr>) (Copied (Some e))"

section \<open>The bridge of the client\<close>

text \<open>
  \<^verbatim>\<open>bridgeBidirectional(a, b)\<close>: two goroutines run \<^verbatim>\<open>copyHalfClose\<close>, which after the copy half-closes the
  destination and sends the error to a channel; the caller receives two errors and returns the first one
  that is not nil.
\<close>

record bridge =
  br_a :: conn
  br_b :: conn
  br_ab :: phase
  br_ba :: phase
  br_errCh :: "string option list"
  br_ret :: "string option option"

definition bridge_init :: "conn \<Rightarrow> conn \<Rightarrow> bridge" where
  "bridge_init a b = \<lparr>br_a = a, br_b = b, br_ab = Copying [], br_ba = Copying [], br_errCh = [], br_ret = None\<rparr>"

inductive bridgeBidirectional :: "bool \<Rightarrow> bridge \<Rightarrow> bridge \<Rightarrow> bool" for faulty where
  copy_ab: "copy_step faulty (br_a s) (br_b s) (br_ab s) a b p \<Longrightarrow>
     bridgeBidirectional faulty s (s\<lparr>br_a := a, br_b := b, br_ab := p\<rparr>)"
| copy_ba: "copy_step faulty (br_b s) (br_a s) (br_ba s) b a p \<Longrightarrow>
     bridgeBidirectional faulty s (s\<lparr>br_a := a, br_b := b, br_ba := p\<rparr>)"
| done_ab: "br_ab s = Copied e \<Longrightarrow>
     bridgeBidirectional faulty s
       (s\<lparr>br_b := CloseWrite (br_b s), br_ab := Ended e, br_errCh := br_errCh s @ [e]\<rparr>)"
| done_ba: "br_ba s = Copied e \<Longrightarrow>
     bridgeBidirectional faulty s
       (s\<lparr>br_a := CloseWrite (br_a s), br_ba := Ended e, br_errCh := br_errCh s @ [e]\<rparr>)"
| return: "br_ret s = None \<Longrightarrow> br_errCh s = [err1, err2] \<Longrightarrow>
     bridgeBidirectional faulty s (s\<lparr>br_ret := Some (if err1 \<noteq> None then err1 else err2)\<rparr>)"

text \<open>The bridge and the two peers.\<close>

inductive bridge_step :: "bool \<Rightarrow> bridge \<Rightarrow> bridge \<Rightarrow> bool" for faulty where
  bridge: "bridgeBidirectional faulty s s' \<Longrightarrow> bridge_step faulty s s'"
| peer_a: "peer_step (br_a s) c \<Longrightarrow> bridge_step faulty s (s\<lparr>br_a := c\<rparr>)"
| peer_b: "peer_step (br_b s) c \<Longrightarrow> bridge_step faulty s (s\<lparr>br_b := c\<rparr>)"

section \<open>The stream handler\<close>

record StreamHandler =
  sh_target :: string
  sh_hostRewrite :: string
  sh_dialTimeout :: duration

definition NewStreamHandler :: "LocalConfig \<Rightarrow> duration \<Rightarrow> StreamHandler" where
  "NewStreamHandler local dialTimeout =
     \<lparr>sh_target = lc_Target local, sh_hostRewrite = lc_HostRewrite local,
      sh_dialTimeout = (if dialTimeout = 0 then 10 * second else dialTimeout)\<rparr>"

text \<open>
  What the standard library does with the bytes of a request: \<open>lib_ReadRequest\<close> parses the head and tells
  its length; \<open>lib_Write\<close> takes the request and the bytes after the head, and returns the wire form and the
  number of bytes of the body. Either may fail.
\<close>

record http_lib =
  lib_ReadRequest :: "string \<Rightarrow> string + Request \<times> nat"
  lib_Write :: "Request \<Rightarrow> string \<Rightarrow> string + string \<times> nat"

definition set_host :: "string \<Rightarrow> Request \<Rightarrow> Request" where
  "set_host newHost req = req\<lparr>rq_Host := newHost, rq_Header := Header_Set ''Host'' newHost (rq_Header req)\<rparr>"

definition unread :: "conn \<Rightarrow> string" where
  "unread c = drop (cn_pos c) (cn_sent c)"

text \<open>
  \<^verbatim>\<open>bridgeWithHostRewrite\<close> up to the call of \<^verbatim>\<open>bridgeBidirectional\<close>, with the error it returns, if any. The
  buffered reader has fetched \<open>n\<close> bytes of the stream when the body is written. If that is more than the
  request, \<^verbatim>\<open>io.ReadAll\<close> reads until the peer ends the stream; its error is ignored, so that on a fault it
  returns what it has got.
\<close>

inductive bridgeWithHostRewrite ::
  "http_lib \<Rightarrow> bool \<Rightarrow> string \<Rightarrow> conn \<Rightarrow> conn \<Rightarrow> conn \<Rightarrow> conn \<Rightarrow> string option \<Rightarrow> bool"
  for lib faulty newHost where
  read_failed: "peer_step\<^sup>*\<^sup>* stream stream1 \<Longrightarrow> n \<le> length (unread stream1) \<Longrightarrow>
     lib_ReadRequest lib (unread stream1) = Inl e \<or> faulty \<Longrightarrow>
     bridgeWithHostRewrite lib faulty newHost stream local
       (stream1\<lparr>cn_pos := cn_pos stream + n\<rparr>) local (Some e)"
| write_failed: "peer_step\<^sup>*\<^sup>* stream stream1 \<Longrightarrow> n \<le> length (unread stream1) \<Longrightarrow>
     lib_ReadRequest lib (unread stream1) = Inr (req, h) \<Longrightarrow>
     lib_Write lib (set_host newHost req) (drop h (unread stream1)) = Inl e \<or> faulty \<Longrightarrow>
     bridgeWithHostRewrite lib faulty newHost stream local
       (stream1\<lparr>cn_pos := cn_pos stream + n\<rparr>) local (Some e)"
| request_only: "peer_step\<^sup>*\<^sup>* stream stream1 \<Longrightarrow> h + m \<le> length (unread stream1) \<Longrightarrow>
     lib_ReadRequest lib (unread stream1) = Inr (req, h) \<Longrightarrow>
     lib_Write lib (set_host newHost req) (drop h (unread stream1)) = Inr (wire, m) \<Longrightarrow>
     bridgeWithHostRewrite lib faulty newHost stream local
       (stream1\<lparr>cn_pos := cn_pos stream + h + m\<rparr>) (local\<lparr>cn_out := cn_out local @ wire\<rparr>) None"
| buffered: "peer_step\<^sup>*\<^sup>* stream stream1 \<Longrightarrow> h + m < n \<Longrightarrow> n \<le> length (unread stream1) \<Longrightarrow>
     lib_ReadRequest lib (unread stream1) = Inr (req, h) \<Longrightarrow>
     lib_Write lib (set_host newHost req) (drop h (unread stream1)) = Inr (wire, m) \<Longrightarrow>
     peer_step\<^sup>*\<^sup>* stream1 stream2 \<Longrightarrow>
     n \<le> j \<Longrightarrow> j \<le> length (unread stream2) \<Longrightarrow>
     cn_fin stream2 \<and> j = length (unread stream2) \<or> faulty \<Longrightarrow>
     bridgeWithHostRewrite lib faulty newHost stream local
       (stream2\<lparr>cn_pos := cn_pos stream + j\<rparr>)
       (local\<lparr>cn_out := cn_out local @ wire @ drop (h + m) (take j (unread stream2))\<rparr>) None"
| local_failed: "peer_step\<^sup>*\<^sup>* stream stream1 \<Longrightarrow> n \<le> length (unread stream1) \<Longrightarrow>
     lib_ReadRequest lib (unread stream1) = Inr (req, h) \<Longrightarrow>
     lib_Write lib (set_host newHost req) (drop h (unread stream1)) = Inr (wire, m) \<Longrightarrow> faulty \<Longrightarrow>
     bridgeWithHostRewrite lib faulty newHost stream local
       (stream1\<lparr>cn_pos := cn_pos stream + n\<rparr>) (local\<lparr>cn_out := cn_out local @ part\<rparr>) (Some e)"

text \<open>
  \<^verbatim>\<open>Handle\<close>, from the stream and the result of dialling the target (\<^const>\<open>None\<close> if it fails) to the state of both
  connections after the deferred calls, and the error that is logged.
\<close>

inductive Handle ::
  "http_lib \<Rightarrow> bool \<Rightarrow> StreamHandler \<Rightarrow> conn \<Rightarrow> conn option \<Rightarrow> conn \<Rightarrow> conn option \<Rightarrow> string option \<Rightarrow> bool"
  for lib faulty h where
  dial_failed: "Handle lib faulty h stream None (Close stream) None (Some err)"
| plain: "sh_hostRewrite h = '''' \<Longrightarrow>
     (bridge_step faulty)\<^sup>*\<^sup>* (bridge_init stream local) s \<Longrightarrow> br_ret s = Some err \<Longrightarrow>
     Handle lib faulty h stream (Some local) (Close (br_a s)) (Some (Close (br_b s))) err"
| rewrite_failed: "sh_hostRewrite h \<noteq> '''' \<Longrightarrow>
     bridgeWithHostRewrite lib faulty (sh_hostRewrite h) stream local stream1 local1 (Some err) \<Longrightarrow>
     Handle lib faulty h stream (Some local) (Close stream1) (Some (Close local1)) (Some err)"
| rewritten: "sh_hostRewrite h \<noteq> '''' \<Longrightarrow>
     bridgeWithHostRewrite lib faulty (sh_hostRewrite h) stream local stream1 local1 None \<Longrightarrow>
     (bridge_step faulty)\<^sup>*\<^sup>* (bridge_init stream1 local1) s \<Longrightarrow> br_ret s = Some err \<Longrightarrow>
     Handle lib faulty h stream (Some local) (Close (br_a s)) (Some (Close (br_b s))) err"

section \<open>The bridge of the server\<close>

text \<open>
  \<^verbatim>\<open>Bridge(a, b)\<close> waits for the first direction only, closes both connections, waits for the second one
  and returns the error of the first. \<^verbatim>\<open>copyOneWay\<close> closes the reading side of its source where it can.
\<close>

datatype main_phase = WaitFirst | CloseConns "string option" | WaitSecond "string option" | Returned "string option"

record server_bridge =
  sb_a :: conn
  sb_b :: conn
  sb_ab :: phase
  sb_ba :: phase
  sb_errCh :: "string option list"
  sb_main :: main_phase

definition server_bridge_init :: "conn \<Rightarrow> conn \<Rightarrow> server_bridge" where
  "server_bridge_init a b =
     \<lparr>sb_a = a, sb_b = b, sb_ab = Copying [], sb_ba = Copying [], sb_errCh = [], sb_main = WaitFirst\<rparr>"

inductive Bridge_step :: "bool \<Rightarrow> server_bridge \<Rightarrow> server_bridge \<Rightarrow> bool" for faulty where
  copy_ab: "copy_step faulty (sb_a s) (sb_b s) (sb_ab s) a b p \<Longrightarrow>
     Bridge_step faulty s (s\<lparr>sb_a := a, sb_b := b, sb_ab := p\<rparr>)"
| copy_ba: "copy_step faulty (sb_b s) (sb_a s) (sb_ba s) b a p \<Longrightarrow>
     Bridge_step faulty s (s\<lparr>sb_a := a, sb_b := b, sb_ba := p\<rparr>)"
| done_ab: "sb_ab s = Copied e \<Longrightarrow>
     Bridge_step faulty s
       (s\<lparr>sb_a := CloseRead (sb_a s), sb_ab := Ended e, sb_errCh := sb_errCh s @ [e]\<rparr>)"
| done_ba: "sb_ba s = Copied e \<Longrightarrow>
     Bridge_step faulty s
       (s\<lparr>sb_b := CloseRead (sb_b s), sb_ba := Ended e, sb_errCh := sb_errCh s @ [e]\<rparr>)"
| first: "sb_main s = WaitFirst \<Longrightarrow> sb_errCh s = e # es \<Longrightarrow>
     Bridge_step faulty s (s\<lparr>sb_errCh := es, sb_main := CloseConns e\<rparr>)"
| close: "sb_main s = CloseConns e \<Longrightarrow>
     Bridge_step faulty s (s\<lparr>sb_a := Close (sb_a s), sb_b := Close (sb_b s), sb_main := WaitSecond e\<rparr>)"
| second: "sb_main s = WaitSecond e \<Longrightarrow> sb_errCh s = e' # es \<Longrightarrow>
     Bridge_step faulty s (s\<lparr>sb_errCh := es, sb_main := Returned e\<rparr>)"
| peer_a: "peer_step (sb_a s) c \<Longrightarrow> Bridge_step faulty s (s\<lparr>sb_a := c\<rparr>)"
| peer_b: "peer_step (sb_b s) c \<Longrightarrow> Bridge_step faulty s (s\<lparr>sb_b := c\<rparr>)"

section \<open>Invariant of the bridge\<close>

inductive_cases peer_stepE: "peer_step c c'"

lemma CloseWrite_simps [simp]:
  "cn_sent (CloseWrite c) = cn_sent c" "cn_pos (CloseWrite c) = cn_pos c" "cn_fin (CloseWrite c) = cn_fin c"
  "cn_out (CloseWrite c) = cn_out c" "cn_closed (CloseWrite c) = cn_closed c"
  "cn_wclosed (CloseWrite c) = (cn_wclosed c \<or> cn_CloseWrite c)"
  by (simp_all add: CloseWrite_def)

text \<open>
  What one direction has achieved, when it started at position \<open>p0\<close> of the source with \<open>out0\<close> already
  written to the destination: what was read is written or in the buffer; after an error a prefix of it is
  written; after a clean end all that the peer will ever send.
\<close>

fun relayed :: "nat \<Rightarrow> string \<Rightarrow> conn \<Rightarrow> conn \<Rightarrow> phase \<Rightarrow> bool" where
  "relayed p0 out0 src dst (Copying buf) \<longleftrightarrow>
     p0 \<le> cn_pos src \<and> cn_pos src \<le> length (cn_sent src) \<and>
     cn_out dst @ buf = out0 @ drop p0 (take (cn_pos src) (cn_sent src))"
| "relayed p0 out0 src dst (Copied e) \<longleftrightarrow>
     (\<exists>rest. cn_out dst @ rest = out0 @ drop p0 (cn_sent src)) \<and>
     (e = None \<longrightarrow> cn_fin src \<and> cn_out dst = out0 @ drop p0 (cn_sent src))"
| "relayed p0 out0 src dst (Ended e) \<longleftrightarrow>
     (\<exists>rest. cn_out dst @ rest = out0 @ drop p0 (cn_sent src)) \<and>
     (e = None \<longrightarrow> cn_fin src \<and> cn_out dst = out0 @ drop p0 (cn_sent src))"

fun ended :: "phase \<Rightarrow> string option list" where
  "ended (Ended e) = [e]"
| "ended _ = []"

lemma length_ended [simp]: "length (ended p) \<noteq> 2"
  by (cases p) simp_all

fun clean :: "phase \<Rightarrow> bool" where
  "clean (Copying _) \<longleftrightarrow> True"
| "clean (Copied e) \<longleftrightarrow> e = None"
| "clean (Ended e) \<longleftrightarrow> e = None"

definition first_error :: "string option list \<Rightarrow> string option" where
  "first_error errs = (case errs of [e1, e2] \<Rightarrow> if e1 \<noteq> None then e1 else e2 | _ \<Rightarrow> None)"

definition bridge_inv :: "bool \<Rightarrow> conn \<Rightarrow> conn \<Rightarrow> bridge \<Rightarrow> bool" where
  "bridge_inv faulty a0 b0 s \<longleftrightarrow>
     relayed (cn_pos a0) (cn_out b0) (br_a s) (br_b s) (br_ab s) \<and>
     relayed (cn_pos b0) (cn_out a0) (br_b s) (br_a s) (br_ba s) \<and>
     (br_errCh s = ended (br_ab s) @ ended (br_ba s) \<or> br_errCh s = ended (br_ba s) @ ended (br_ab s)) \<and>
     \<not> cn_closed (br_a s) \<and> \<not> cn_closed (br_b s) \<and>
     (cn_wclosed (br_b s) \<longrightarrow> ended (br_ab s) \<noteq> []) \<and> (cn_wclosed (br_a s) \<longrightarrow> ended (br_ba s) \<noteq> []) \<and>
     (br_ret s \<noteq> None \<longrightarrow> length (br_errCh s) = 2 \<and> br_ret s = Some (first_error (br_errCh s))) \<and>
     (\<not> faulty \<longrightarrow> clean (br_ab s) \<and> clean (br_ba s))"

text \<open>A connection as it is given to the bridge: open, not read past what was sent.\<close>

definition open_conn :: "conn \<Rightarrow> bool" where
  "open_conn c \<longleftrightarrow> \<not> cn_closed c \<and> \<not> cn_wclosed c \<and> cn_pos c \<le> length (cn_sent c)"

lemma bridge_inv_init:
  assumes "open_conn a" "open_conn b"
  shows "bridge_inv faulty a b (bridge_init a b)"
  using assms by (simp add: bridge_inv_def bridge_init_def open_conn_def)

lemma drop_take_extend:
  assumes "p0 \<le> k" "k \<le> length xs"
  shows "drop p0 (take k xs) @ take n (drop k xs) = drop p0 (take (k + n) xs)"
proof -
  have "drop p0 (take (k + n) xs) = drop p0 (take k xs @ take n (drop k xs))"
    by (simp add: take_add)
  then show ?thesis
    using assms by simp
qed

lemma written_prefix:
  assumes "out @ buf = out0 @ drop p0 (take k xs)"
  shows "\<exists>rest. out @ rest = out0 @ drop p0 xs"
proof -
  obtain rest where "drop p0 xs = drop p0 (take k xs) @ rest"
    by (metis append_take_drop_id drop_append)
  with assms have "out @ (buf @ rest) = out0 @ drop p0 xs"
    by (metis append.assoc)
  then show ?thesis ..
qed

text \<open>A copy step keeps the invariant of its own direction.\<close>

lemma copy_step_relayed:
  assumes "copy_step faulty src dst p src' dst' p'" "relayed p0 out0 src dst p"
  shows "relayed p0 out0 src' dst' p'"
  using assms(1)
proof (cases rule: copy_step.cases)
  case (read n)
  then show ?thesis
    using assms(2) drop_take_extend [of p0 "cn_pos src" "cn_sent src" n] by simp
next
  case (write_error buf k e)
  then have "(cn_out dst @ take k buf) @ drop k buf = out0 @ drop p0 (take (cn_pos src) (cn_sent src))"
    using assms(2) by simp
  from written_prefix [OF this] show ?thesis
    using write_error by simp
next
  case (read_error e)
  then show ?thesis
    using assms(2) written_prefix [of "cn_out dst" "[]"] by simp
qed (use assms(2) in auto)

text \<open>What a step of one direction, or of a peer, leaves as the other direction needs it.\<close>

lemma copy_step_frame:
  assumes "copy_step faulty src dst p src' dst' p'"
  shows "cn_closed src' = cn_closed src" "cn_closed dst' = cn_closed dst"
    "cn_wclosed src' = cn_wclosed src" "cn_wclosed dst' = cn_wclosed dst"
    "relayed q0 out1 dst src q \<Longrightarrow> relayed q0 out1 dst' src' q"
    "ended p = []" "ended p' = []"
  using assms by (cases rule: copy_step.cases; cases q; simp)+

lemma copy_step_clean:
  assumes "copy_step False src dst p src' dst' p'" "\<not> cn_closed src" "\<not> cn_closed dst" "\<not> cn_wclosed dst" "clean p"
  shows "clean p'"
  using assms by (cases rule: copy_step.cases) auto

lemma peer_step_frame:
  assumes "peer_step c c'"
  shows "cn_closed c' = cn_closed c" "cn_wclosed c' = cn_wclosed c"
    "relayed p0 out0 c dst p \<Longrightarrow> relayed p0 out0 c' dst p"
    "relayed p0 out0 src c p \<Longrightarrow> relayed p0 out0 src c' p"
proof -
  show "relayed p0 out0 c' dst p" if "relayed p0 out0 c dst p"
    using assms
  proof (cases rule: peer_step.cases)
    case (send bs)
    with that show ?thesis
      by (cases p) (auto simp: append_eq_append_conv2)
  qed (use that in \<open>cases p; simp\<close>)
  show "relayed p0 out0 src c' p" if "relayed p0 out0 src c p"
    using assms that by (cases rule: peer_step.cases; cases p) auto
qed (use assms in \<open>cases rule: peer_step.cases; simp\<close>)+

lemma relayed_CloseWrite [simp]:
  "relayed p0 out0 (CloseWrite c) dst p = relayed p0 out0 c dst p"
  "relayed p0 out0 src (CloseWrite c) p = relayed p0 out0 src c p"
  by (cases p; simp)+

lemma relayed_Ended [simp]: "relayed p0 out0 src dst (Ended e) = relayed p0 out0 src dst (Copied e)"
  by simp

lemma bridge_inv_step:
  assumes "bridgeBidirectional faulty s s'" "bridge_inv faulty a0 b0 s"
  shows "bridge_inv faulty a0 b0 s'"
  using assms(1)
proof (cases rule: bridgeBidirectional.cases)
  case (copy_ab a b p)
  note frame = copy_step_frame [OF copy_ab(2)]
  have "faulty \<or> clean p"
    using copy_step_clean [OF _ _ _ _ ] copy_ab(2) frame(6) assms(2)
    by (cases faulty) (auto simp: bridge_inv_def)
  with frame copy_step_relayed [OF copy_ab(2)] show ?thesis
    using assms(2) copy_ab(1) by (auto simp: bridge_inv_def)
next
  case (copy_ba b a p)
  note frame = copy_step_frame [OF copy_ba(2)]
  have "faulty \<or> clean p"
    using copy_step_clean copy_ba(2) frame(6) assms(2)
    by (cases faulty) (auto simp: bridge_inv_def)
  with frame copy_step_relayed [OF copy_ba(2)] show ?thesis
    using assms(2) copy_ba(1) by (auto simp: bridge_inv_def)
next
  case (done_ab e)
  then show ?thesis
    using assms(2) by (auto simp: bridge_inv_def)
next
  case (done_ba e)
  then show ?thesis
    using assms(2) by (auto simp: bridge_inv_def)
next
  case (return err1 err2)
  then show ?thesis
    using assms(2) by (auto simp: bridge_inv_def first_error_def)
qed

lemma bridge_inv_reachable:
  assumes "(bridge_step faulty)\<^sup>*\<^sup>* (bridge_init a b) s" "open_conn a" "open_conn b"
  shows "bridge_inv faulty a b s"
  using assms(1)
proof (induction rule: rtranclp_induct)
  case (step s s')
  from step(2) show ?case
  proof (cases rule: bridge_step.cases)
    case bridge
    then show ?thesis
      using bridge_inv_step step.IH by blast
  next
    case (peer_a c)
    then show ?thesis
      using peer_step_frame [OF peer_a(2)] step.IH by (auto simp: bridge_inv_def)
  next
    case (peer_b c)
    then show ?thesis
      using peer_step_frame [OF peer_b(2)] step.IH by (auto simp: bridge_inv_def)
  qed
qed (simp add: bridge_inv_init assms)

section \<open>Delivery and termination\<close>

text \<open>Both directions are complete: the peer has ended it, and every byte is at the other end.\<close>

definition delivered :: "conn \<Rightarrow> conn \<Rightarrow> bridge \<Rightarrow> bool" where
  "delivered a b s \<longleftrightarrow>
     cn_fin (br_a s) \<and> cn_out (br_b s) = cn_out b @ drop (cn_pos a) (cn_sent (br_a s)) \<and>
     cn_fin (br_b s) \<and> cn_out (br_a s) = cn_out a @ drop (cn_pos b) (cn_sent (br_b s))"

lemma two_ended:
  assumes "length (ended p @ ended q) = 2"
  obtains e e' where "p = Ended e" "q = Ended e'"
  using assms by (cases p; cases q) auto

lemma returned_ended:
  assumes "bridge_inv faulty a b s" "br_ret s = Some r"
  obtains e e' where "br_ab s = Ended e" "br_ba s = Ended e'" "r = None \<longleftrightarrow> e = None \<and> e' = None"
proof -
  have errs: "length (br_errCh s) = 2" "r = first_error (br_errCh s)"
    "br_errCh s = ended (br_ab s) @ ended (br_ba s) \<or> br_errCh s = ended (br_ba s) @ ended (br_ab s)"
    using assms by (simp_all add: bridge_inv_def)
  then obtain e e' where ends: "br_ab s = Ended e" "br_ba s = Ended e'"
    by (metis add.commute length_append two_ended)
  with errs have "r = None \<longleftrightarrow> e = None \<and> e' = None"
    by (auto simp: first_error_def split: if_splits)
  with ends show ?thesis
    by (rule that)
qed

lemma returned_delivered:
  assumes "bridge_inv faulty a b s" "br_ret s = Some r"
  shows "(r = None \<longrightarrow> delivered a b s) \<and> (\<not> faulty \<longrightarrow> r = None)"
proof -
  from assms obtain e e' where "br_ab s = Ended e" "br_ba s = Ended e'" "r = None \<longleftrightarrow> e = None \<and> e' = None"
    by (rule returned_ended)
  with assms(1) show ?thesis
    unfolding bridge_inv_def delivered_def by simp
qed

text \<open>
  C12: the bridge of the client loses nothing. In every interleaving of the two copy loops and the two
  peers, while the bridge runs neither connection is closed; when \<^verbatim>\<open>bridgeBidirectional\<close> returns nil, both peers have
  ended their direction and each has received every byte the other one sent; and if neither reads nor
  writes fail by themselves, it never returns an error.
\<close>

theorem bridge_delivers:
  assumes "open_conn a" "open_conn b" "(bridge_step faulty)\<^sup>*\<^sup>* (bridge_init a b) s"
  shows "\<not> cn_closed (br_a s) \<and> \<not> cn_closed (br_b s) \<and>
    (case br_ret s of None \<Rightarrow> True
     | Some err \<Rightarrow>
         (err = None \<longrightarrow>
            cn_fin (br_a s) \<and> cn_out (br_b s) = cn_out b @ drop (cn_pos a) (cn_sent (br_a s)) \<and>
            cn_fin (br_b s) \<and> cn_out (br_a s) = cn_out a @ drop (cn_pos b) (cn_sent (br_b s))) \<and>
         (\<not> faulty \<longrightarrow> err = None))"
proof -
  have inv: "bridge_inv faulty a b s"
    using assms bridge_inv_reachable by blast
  then have "\<not> cn_closed (br_a s) \<and> \<not> cn_closed (br_b s)"
    by (simp add: bridge_inv_def)
  with returned_delivered [OF inv] show ?thesis
    by (auto simp: delivered_def split: option.splits)
qed

text \<open>The steps that are left when the peers send nothing more.\<close>

fun dir_work :: "conn \<Rightarrow> phase \<Rightarrow> nat" where
  "dir_work src (Copying buf) = 2 * (length (cn_sent src) - cn_pos src) + (if buf = [] then 2 else 3)"
| "dir_work src (Copied e) = 1"
| "dir_work src (Ended e) = 0"

definition bridge_work :: "bridge \<Rightarrow> nat" where
  "bridge_work s = dir_work (br_a s) (br_ab s) + dir_work (br_b s) (br_ba s) + (if br_ret s = None then 1 else 0)"

lemma dir_work_cong:
  assumes "cn_sent src' = cn_sent src" "cn_pos src' = cn_pos src"
  shows "dir_work src' p = dir_work src p"
  using assms by (cases p) simp_all

lemma dir_work_CloseWrite [simp]: "dir_work (CloseWrite c) p = dir_work c p"
  by (rule dir_work_cong) simp_all

lemma copy_step_work:
  assumes "copy_step faulty src dst p src' dst' p'"
  shows "dir_work src' p' < dir_work src p" "dir_work dst' q = dir_work dst q"
  using assms by (cases rule: copy_step.cases; auto intro!: dir_work_cong)+

lemma bridge_work_decreases:
  assumes "bridgeBidirectional faulty s s'"
  shows "bridge_work s' < bridge_work s"
  using assms
proof (cases rule: bridgeBidirectional.cases)
  case (copy_ab a b p)
  then show ?thesis
    using copy_step_work [OF copy_ab(2)] by (simp add: bridge_work_def)
next
  case (copy_ba b a p)
  then show ?thesis
    using copy_step_work [OF copy_ba(2)] by (simp add: bridge_work_def)
qed (auto simp: bridge_work_def)

lemma copy_step_fin:
  assumes "copy_step faulty src dst p src' dst' p'"
  shows "cn_fin src' = cn_fin src" "cn_fin dst' = cn_fin dst"
  using assms by (cases rule: copy_step.cases; simp)+

lemma bridge_keeps_fin:
  assumes "bridgeBidirectional faulty s s'"
  shows "cn_fin (br_a s') = cn_fin (br_a s)" "cn_fin (br_b s') = cn_fin (br_b s)"
  using assms by (cases rule: bridgeBidirectional.cases; simp add: copy_step_fin)+

lemma copy_step_progress:
  assumes "relayed p0 out0 src dst (Copying buf)" "cn_fin src" "\<not> cn_closed src" "\<not> cn_closed dst" "\<not> cn_wclosed dst"
  shows "\<exists>src' dst' p'. copy_step faulty src dst (Copying buf) src' dst' p'"
proof (cases "buf = []")
  case True
  show ?thesis
  proof (cases "cn_pos src = length (cn_sent src)")
    case True
    with \<open>buf = []\<close> show ?thesis
      using assms copy_step.eof by blast
  next
    case False
    then have "0 < length (cn_sent src) - cn_pos src"
      using assms(1) by simp
    with \<open>buf = []\<close> show ?thesis
      using assms copy_step.read [of src "length (cn_sent src) - cn_pos src" faulty dst] by auto
  qed
qed (use assms copy_step.write_all in blast)

lemma bridge_progress:
  assumes inv: "bridge_inv faulty a b s" and "cn_fin (br_a s)" "cn_fin (br_b s)" "br_ret s = None"
  shows "\<exists>s'. bridgeBidirectional faulty s s'"
proof (cases "br_ab s")
  case (Copying buf)
  then have "\<exists>src' dst' p'. copy_step faulty (br_a s) (br_b s) (Copying buf) src' dst' p'"
    using inv assms(2) by (intro copy_step_progress) (auto simp: bridge_inv_def)
  with Copying show ?thesis
    by (metis bridgeBidirectional.copy_ab)
next
  case (Copied e)
  then show ?thesis
    by (metis bridgeBidirectional.done_ab)
next
  case ab: (Ended e)
  show ?thesis
  proof (cases "br_ba s")
    case (Copying buf)
    then have "\<exists>src' dst' p'. copy_step faulty (br_b s) (br_a s) (Copying buf) src' dst' p'"
      using inv assms(3) by (intro copy_step_progress) (auto simp: bridge_inv_def)
    with Copying show ?thesis
      by (metis bridgeBidirectional.copy_ba)
  next
    case (Copied e)
    then show ?thesis
      by (metis bridgeBidirectional.done_ba)
  next
    case (Ended e')
    with ab inv have "br_errCh s = [e, e'] \<or> br_errCh s = [e', e]"
      by (auto simp: bridge_inv_def)
    with assms(4) show ?thesis
      by (metis bridgeBidirectional.return)
  qed
qed

text \<open>
  C18: the bridge of the client ends. Once both peers have ended their direction, the goroutines make at
  most \<open>bridge_work\<close> further steps, in whatever order they run, and until \<^verbatim>\<open>bridgeBidirectional\<close> has returned one
  of them can make a step: no deadlock. A write is taken to complete or fail: the peers accept what is written
  to them, flow control of the network is not modelled.
\<close>

theorem bridge_returns:
  assumes "open_conn a" "open_conn b" "(bridge_step faulty)\<^sup>*\<^sup>* (bridge_init a b) s"
    and "cn_fin (br_a s)" "cn_fin (br_b s)" "(bridgeBidirectional faulty ^^ k) s s'"
  shows "k \<le> bridge_work s \<and> (br_ret s' = None \<longrightarrow> (\<exists>s''. bridgeBidirectional faulty s' s''))"
proof -
  have "k + bridge_work s' \<le> bridge_work s \<and> bridge_inv faulty a b s' \<and> cn_fin (br_a s') \<and> cn_fin (br_b s')"
    using assms(6)
  proof (induction k arbitrary: s')
    case 0
    then show ?case
      using assms(4,5) bridge_inv_reachable [OF assms(3,1,2)] by simp
  next
    case (Suc k)
    then obtain u where u: "(bridgeBidirectional faulty ^^ k) s u" "bridgeBidirectional faulty u s'"
      by auto
    with Suc.IH [OF u(1)] bridge_inv_step [OF u(2)] bridge_work_decreases [OF u(2)] bridge_keeps_fin [OF u(2)]
    show ?case
      by auto
  qed
  with bridge_progress show ?thesis
    by force
qed

section \<open>The handler\<close>

lemma peer_steps_frame:
  assumes "peer_step\<^sup>*\<^sup>* c c'"
  shows "cn_pos c' = cn_pos c \<and> cn_out c' = cn_out c \<and> cn_closed c' = cn_closed c \<and>
    cn_wclosed c' = cn_wclosed c \<and> prefix (cn_sent c) (cn_sent c')"
  using assms by (induction rule: rtranclp_induct) (auto elim!: peer_stepE simp: prefix_def)

lemma copy_step_sent:
  assumes "copy_step faulty src dst p src' dst' p'"
  shows "cn_sent src' = cn_sent src" "cn_sent dst' = cn_sent dst"
  using assms by (cases rule: copy_step.cases; simp)+

lemma bridge_sent_grows:
  assumes "(bridge_step faulty)\<^sup>*\<^sup>* s s'"
  shows "prefix (cn_sent (br_a s)) (cn_sent (br_a s'))"
  using assms
proof (induction rule: rtranclp_induct)
  case (step s' s'')
  from step(2) have "prefix (cn_sent (br_a s')) (cn_sent (br_a s''))"
    by (cases rule: bridge_step.cases)
       (auto elim!: peer_stepE bridgeBidirectional.cases simp: copy_step_sent)
  with step.IH show ?case
    by (rule prefix_order.trans)
qed simp

lemma unread_prefix:
  assumes "prefix (cn_sent c) bs" "cn_pos c = p"
  shows "prefix (unread c) (drop p bs)"
  using assms by (auto simp: unread_def prefix_def drop_append)

lemma drop_resume:
  assumes "prefix xs (drop p bs)" "k \<le> j" "j \<le> length xs"
  shows "drop k (take j xs) @ drop (p + j) bs = drop k (drop p bs)"
proof -
  have "take j xs = take j (drop p bs)"
    using assms by (auto simp: prefix_def)
  moreover have "take j (drop p bs) @ drop j (drop p bs) = drop p bs"
    by (rule append_take_drop_id)
  ultimately have "drop k (drop p bs) = drop k (take j xs @ drop j (drop p bs))"
    by simp
  also have "\<dots> = drop k (take j xs) @ drop (p + j) bs"
    using assms by (simp add: add.commute)
  finally show ?thesis ..
qed

text \<open>
  The bytes \<open>out\<close> that the local service receives for the bytes \<open>bs\<close> of the stream: the wire form of the
  first request with the new host, and after it the rest of the stream as it is.
\<close>

definition host_rewritten :: "http_lib \<Rightarrow> string \<Rightarrow> string \<Rightarrow> string \<Rightarrow> bool" where
  "host_rewritten lib newHost bs out \<longleftrightarrow>
     (\<exists>seen req h wire m. prefix seen bs \<and> lib_ReadRequest lib seen = Inr (req, h) \<and>
        lib_Write lib (set_host newHost req) (drop h seen) = Inr (wire, m) \<and>
        h + m \<le> length seen \<and> out = wire @ drop (h + m) bs)"

lemma rewrite_then_copy:
  assumes "bridgeWithHostRewrite lib faulty newHost stream local stream1 local1 None"
    and "open_conn stream" "open_conn local" "prefix (cn_sent stream1) bs"
  shows "open_conn stream1 \<and> open_conn local1 \<and> cn_out stream1 = cn_out stream \<and> cn_pos local1 = cn_pos local \<and>
    (\<exists>received. cn_out local1 @ drop (cn_pos stream1) bs = cn_out local @ received \<and>
       host_rewritten lib newHost (drop (cn_pos stream) bs) received)"
  using assms(1)
proof (cases rule: bridgeWithHostRewrite.cases)
  case (request_only stream2 h m req wire)
  note frame = peer_steps_frame [OF request_only(3)]
  have "prefix (unread stream2) (drop (cn_pos stream) bs)"
    using request_only(1) assms(4) frame by (intro unread_prefix) auto
  then have "host_rewritten lib newHost (drop (cn_pos stream) bs) (wire @ drop (cn_pos stream1) bs)"
    unfolding host_rewritten_def using request_only
    by (intro exI [of _ "unread stream2"] exI [of _ req] exI [of _ h] exI [of _ wire] exI [of _ m])
       (simp add: add.commute add.left_commute)
  with request_only frame assms(2,3) show ?thesis
    by (auto simp: open_conn_def unread_def dest: prefix_length_le)
next
  case (buffered stream2 h m n req wire stream3 j)
  note frame = peer_steps_frame [OF buffered(3)] peer_steps_frame [OF buffered(8)]
  have pre: "prefix (unread stream2) (drop (cn_pos stream) bs)" "prefix (unread stream3) (drop (cn_pos stream) bs)"
    using buffered(1) assms(4) frame by (auto intro!: unread_prefix dest: prefix_order.trans)
  then have rest: "drop (h + m) (take j (unread stream3)) @ drop (cn_pos stream + j) bs = drop (h + m) (drop (cn_pos stream) bs)"
    using buffered by (intro drop_resume) auto
  have "host_rewritten lib newHost (drop (cn_pos stream) bs) (wire @ drop (h + m) (drop (cn_pos stream) bs))"
    unfolding host_rewritten_def using buffered pre
    by (intro exI [of _ "unread stream2"] exI [of _ req] exI [of _ h] exI [of _ wire] exI [of _ m]) simp
  with buffered frame assms(2,3) rest show ?thesis
    by (auto simp: open_conn_def unread_def dest!: prefix_length_le)
qed

lemma run_delivers:
  assumes "open_conn a" "open_conn b" "(bridge_step faulty)\<^sup>*\<^sup>* (bridge_init a b) s" "br_ret s = Some None"
  shows "delivered a b s"
  using bridge_inv_reachable [OF assms(3,1,2)] returned_delivered assms(4) by blast

lemma Close_simps [simp]:
  "cn_sent (Close c) = cn_sent c" "cn_fin (Close c) = cn_fin c" "cn_out (Close c) = cn_out c" "cn_closed (Close c)"
  by (simp_all add: Close_def)

lemma Handle_complete:
  assumes "open_conn stream" "open_conn local" "Handle lib faulty h stream (Some local) stream' local' None"
  shows "\<exists>l received. local' = Some l \<and> cn_closed stream' \<and> cn_closed l \<and> cn_fin stream' \<and> cn_fin l \<and>
    cn_out stream' = cn_out stream @ drop (cn_pos local) (cn_sent l) \<and>
    cn_out l = cn_out local @ received \<and>
    (let bs = drop (cn_pos stream) (cn_sent stream')
     in if sh_hostRewrite h = '''' then received = bs else host_rewritten lib (sh_hostRewrite h) bs received)"
  using assms(3)
proof (cases rule: Handle.cases)
  case (plain s)
  with run_delivers [OF assms(1,2) plain(4)] show ?thesis
    by (simp add: delivered_def)
next
  case (rewritten stream1 local1 s)
  note pre = bridge_sent_grows [OF rewritten(5)]
  note rw = rewrite_then_copy [OF rewritten(4) assms(1,2), of "cn_sent (br_a s)"]
  have "delivered stream1 local1 s"
    using rw pre rewritten(5,6) by (intro run_delivers) (simp_all add: bridge_init_def)
  with rw pre rewritten show ?thesis
    by (auto simp: delivered_def bridge_init_def)
qed

text \<open>
  C19: a handled stream is complete. When \<^verbatim>\<open>Handle\<close> has dialled the local service and ends without an error, both
  connections are closed, both peers had ended their direction, the stream has received every byte of the
  local service, and the local service has received every byte of the stream: as it was sent, or, when a
  host rewrite is configured, with the first request replaced by its wire form with the new host and
  everything after it, bytes that the buffered reader had fetched ahead included, as it was sent.
\<close>

theorem Handle_delivers:
  assumes "open_conn stream" "open_conn local" "Handle lib faulty h stream (Some local) stream' local' None"
  shows "\<exists>l received. local' = Some l \<and> cn_closed stream' \<and> cn_closed l \<and> cn_fin stream' \<and> cn_fin l \<and>
    cn_out stream' = cn_out stream @ drop (cn_pos local) (cn_sent l) \<and>
    cn_out l = cn_out local @ received \<and>
    (let bs = drop (cn_pos stream) (cn_sent stream')
     in if sh_hostRewrite h = '''' then received = bs else host_rewritten lib (sh_hostRewrite h) bs received)"
  by (rule Handle_complete [OF assms])

section \<open>Executable runs\<close>

text \<open>
  A scheduler that picks one enabled step: reads fetch all there is, writes and half-closes follow. A run
  over a list of choices is an execution of the step relations.
\<close>

fun copy_exec :: "conn \<Rightarrow> conn \<Rightarrow> phase \<Rightarrow> (conn \<times> conn \<times> phase) option" where
  "copy_exec src dst (Copying []) =
     (if cn_closed src then Some (src, dst, Copied (Some ''use of closed network connection''))
      else if cn_pos src < length (cn_sent src)
      then Some (src\<lparr>cn_pos := length (cn_sent src)\<rparr>, dst, Copying (drop (cn_pos src) (cn_sent src)))
      else if cn_fin src \<and> cn_pos src = length (cn_sent src) then Some (src, dst, Copied None)
      else None)"
| "copy_exec src dst (Copying buf) =
     (if cn_closed dst \<or> cn_wclosed dst then Some (src, dst, Copied (Some ''use of closed network connection''))
      else Some (src, dst\<lparr>cn_out := cn_out dst @ buf\<rparr>, Copying []))"
| "copy_exec src dst _ = None"

lemma copy_exec_step:
  assumes "copy_exec src dst p = Some (src', dst', p')"
  shows "copy_step faulty src dst p src' dst' p'"
  using assms
proof (cases rule: copy_exec.cases [of "(src, dst, p)"])
  case (1 src dst)
  then show ?thesis
    using assms copy_step.read [of src "length (cn_sent src) - cn_pos src" faulty dst]
    by (auto split: if_splits intro: copy_step.eof copy_step.read_error)
next
  case (2 src dst c buf)
  have "copy_step faulty src dst (Copying (c # buf)) src dst (Copied (Some e))" if "cn_closed dst \<or> cn_wclosed dst" for e
    using copy_step.write_error [of "c # buf" faulty dst 0 src e] that by simp
  with 2 show ?thesis
    using assms by (auto split: if_splits intro: copy_step.write_all)
qed auto

datatype choice = AB | BA | Main

fun bridge_exec :: "choice \<Rightarrow> bridge \<Rightarrow> bridge option" where
  "bridge_exec AB s =
     (case br_ab s of
        Copied e \<Rightarrow> Some (s\<lparr>br_b := CloseWrite (br_b s), br_ab := Ended e, br_errCh := br_errCh s @ [e]\<rparr>)
      | p \<Rightarrow> map_option (\<lambda>(a, b, p). s\<lparr>br_a := a, br_b := b, br_ab := p\<rparr>) (copy_exec (br_a s) (br_b s) p))"
| "bridge_exec BA s =
     (case br_ba s of
        Copied e \<Rightarrow> Some (s\<lparr>br_a := CloseWrite (br_a s), br_ba := Ended e, br_errCh := br_errCh s @ [e]\<rparr>)
      | p \<Rightarrow> map_option (\<lambda>(b, a, p). s\<lparr>br_a := a, br_b := b, br_ba := p\<rparr>) (copy_exec (br_b s) (br_a s) p))"
| "bridge_exec Main s =
     (case (br_ret s, br_errCh s) of
        (None, [err1, err2]) \<Rightarrow> Some (s\<lparr>br_ret := Some (if err1 \<noteq> None then err1 else err2)\<rparr>)
      | _ \<Rightarrow> None)"

lemma bridge_first_error:
  assumes "br_ret s = None"
  shows "br_errCh s = [Some e, err] \<Longrightarrow> bridgeBidirectional faulty s (s\<lparr>br_ret := Some (Some e)\<rparr>)"
    "br_errCh s = [None, err] \<Longrightarrow> bridgeBidirectional faulty s (s\<lparr>br_ret := Some err\<rparr>)"
  using bridgeBidirectional.return [OF assms, of "Some e" err] bridgeBidirectional.return [OF assms, of None err]
  by simp_all

lemma bridge_exec_step:
  assumes "bridge_exec ch s = Some s'"
  shows "bridgeBidirectional faulty s s'"
  using assms
  by (cases "(ch, s)" rule: bridge_exec.cases)
     (auto split: phase.splits option.splits list.splits prod.splits dest!: copy_exec_step [where faulty = faulty]
       intro: bridgeBidirectional.intros bridge_first_error)

lemma bridge_runs:
  assumes "runs bridge_exec cs s = Some s'"
  shows "(bridgeBidirectional faulty ^^ length cs) s s'" "(bridge_step faulty)\<^sup>*\<^sup>* s s'"
proof -
  show "(bridgeBidirectional faulty ^^ length cs) s s'"
    by (rule runs_relpow [OF bridge_exec_step assms])
  have "(bridge_step faulty ^^ length cs) s s'"
    by (rule runs_relpow [OF bridge_step.bridge [OF bridge_exec_step] assms])
  then show "(bridge_step faulty)\<^sup>*\<^sup>* s s'"
    by (rule relpowp_imp_rtranclp)
qed

definition example_conn :: "string \<Rightarrow> conn" where
  "example_conn bs =
     \<lparr>cn_sent = bs, cn_pos = 0, cn_fin = True, cn_out = '''', cn_closed = False, cn_wclosed = False,
      cn_rclosed = False, cn_CloseWrite = True, cn_CloseRead = True\<rparr>"

definition example_bridge :: bridge where
  "example_bridge = bridge_init (example_conn ''ping'') (example_conn ''pong'')"

definition example_schedule :: "choice list" where
  "example_schedule = [AB, BA, BA, BA, BA, AB, AB, AB, Main]"

lemma example_run:
  "\<exists>s. runs bridge_exec example_schedule example_bridge = Some s \<and> br_ret s = Some None"
  by (simp add: example_schedule_def example_bridge_def bridge_init_def example_conn_def CloseWrite_def)

lemma example_open [simp]: "open_conn (example_conn bs)"
  by (simp add: open_conn_def example_conn_def)

theorem bridge_delivers_witness:
  "\<exists>s. (bridge_step False)\<^sup>*\<^sup>* (bridge_init (example_conn ''ping'') (example_conn ''pong'')) s \<and>
     br_ret s = Some None \<and> cn_out (br_b s) = cn_sent (br_a s) \<and> cn_out (br_a s) = cn_sent (br_b s)"
proof -
  obtain s where s: "runs bridge_exec example_schedule example_bridge = Some s" "br_ret s = Some None"
    using example_run by blast
  then have "(bridge_step False)\<^sup>*\<^sup>* (bridge_init (example_conn ''ping'') (example_conn ''pong'')) s"
    using bridge_runs(2) by (simp add: example_bridge_def)
  with bridge_delivers [OF example_open example_open this] s(2) show ?thesis
    by (auto simp: example_conn_def)
qed

theorem bridge_returns_witness:
  "\<exists>s. (bridgeBidirectional False ^^ 9) (bridge_init (example_conn ''ping'') (example_conn ''pong'')) s \<and>
     9 \<le> bridge_work (bridge_init (example_conn ''ping'') (example_conn ''pong''))"
proof -
  obtain s where "runs bridge_exec example_schedule example_bridge = Some s"
    using example_run by blast
  then have "(bridgeBidirectional False ^^ 9) (bridge_init (example_conn ''ping'') (example_conn ''pong'')) s"
    using bridge_runs(1) [of example_schedule example_bridge s False]
    by (simp add: example_schedule_def example_bridge_def eval_nat_numeral)
  with bridge_returns [OF example_open example_open rtranclp.rtrancl_refl _ _ this] show ?thesis
    by (auto simp: bridge_init_def example_conn_def)
qed

definition example_handler :: StreamHandler where
  "example_handler = NewStreamHandler \<lparr>lc_Target = ''127.0.0.1:8080'', lc_HostRewrite = ''local''\<rparr> 0"

text \<open>A request line of four bytes; the wire form shows the host.\<close>

definition example_lib :: http_lib where
  "example_lib =
     \<lparr>lib_ReadRequest = (\<lambda>bs.
        if length bs < 4 then Inl ''unexpected EOF''
        else Inr (\<lparr>rq_Method = take 4 bs, rq_Host = ''public'', rq_URL = empty_URL, rq_Header = (\<lambda>k. []),
                   rq_RemoteAddr = '''', rq_TLS = False\<rparr>, 4)),
      lib_Write = (\<lambda>r bs. Inr (rq_Method r @ rq_Host r, 0))\<rparr>"

lemma example_rewrite:
  "bridgeWithHostRewrite example_lib False ''local'' (example_conn ''pingrest'') (example_conn ''pong'')
     ((example_conn ''pingrest'')\<lparr>cn_pos := 4\<rparr>) ((example_conn ''pong'')\<lparr>cn_out := ''pinglocal''\<rparr>) None"
  using bridgeWithHostRewrite.request_only [of "example_conn ''pingrest''" "example_conn ''pingrest''" 4 0 example_lib
      _ "''local''" "''pinglocal''" False "example_conn ''pong''"]
  by (simp add: example_lib_def example_conn_def unread_def set_host_def)

theorem Handle_delivers_witness:
  "\<exists>stream' l. Handle example_lib False example_handler (example_conn ''pingrest'') (Some (example_conn ''pong'')) stream' (Some l) None \<and>
     cn_closed l \<and> cn_out stream' = cn_sent l \<and>
     host_rewritten example_lib ''local'' (cn_sent stream') (cn_out l)"
proof -
  let ?a = "(example_conn ''pingrest'')\<lparr>cn_pos := 4\<rparr>" and ?b = "(example_conn ''pong'')\<lparr>cn_out := ''pinglocal''\<rparr>"
  obtain s where s: "runs bridge_exec example_schedule (bridge_init ?a ?b) = Some s" "br_ret s = Some None"
    by (simp add: example_schedule_def bridge_init_def example_conn_def CloseWrite_def)
  then have "(bridge_step False)\<^sup>*\<^sup>* (bridge_init ?a ?b) s"
    using bridge_runs(2) by blast
  with s(2) example_rewrite have H: "Handle example_lib False example_handler (example_conn ''pingrest'')
      (Some (example_conn ''pong'')) (Close (br_a s)) (Some (Close (br_b s))) None"
    by (intro Handle.rewritten) (simp_all add: example_handler_def NewStreamHandler_def)
  have "cn_out (example_conn bs) = []" "cn_pos (example_conn bs) = 0" "sh_hostRewrite example_handler = ''local''" for bs
    by (simp_all add: example_conn_def example_handler_def NewStreamHandler_def)
  with H Handle_delivers [OF example_open example_open H] show ?thesis
    by (intro exI [of _ "Close (br_a s)"] exI [of _ "Close (br_b s)"]) (simp add: Let_def)
qed

section \<open>What the server's bridge may cut off\<close>

text \<open>
  Without any fault of the network, \<^verbatim>\<open>Bridge\<close> of the server can return nil although the answer of the backend
  was not delivered: the request side ends first, both connections are closed, and the copy of the answer
  fails. The comment on \<^verbatim>\<open>bridgeBidirectional\<close> of the client describes this as a bug that was fixed there.
\<close>

fun Bridge_exec :: "choice \<Rightarrow> server_bridge \<Rightarrow> server_bridge option" where
  "Bridge_exec AB s =
     (case sb_ab s of
        Copied e \<Rightarrow> Some (s\<lparr>sb_a := CloseRead (sb_a s), sb_ab := Ended e, sb_errCh := sb_errCh s @ [e]\<rparr>)
      | p \<Rightarrow> map_option (\<lambda>(a, b, p). s\<lparr>sb_a := a, sb_b := b, sb_ab := p\<rparr>) (copy_exec (sb_a s) (sb_b s) p))"
| "Bridge_exec BA s =
     (case sb_ba s of
        Copied e \<Rightarrow> Some (s\<lparr>sb_b := CloseRead (sb_b s), sb_ba := Ended e, sb_errCh := sb_errCh s @ [e]\<rparr>)
      | p \<Rightarrow> map_option (\<lambda>(b, a, p). s\<lparr>sb_a := a, sb_b := b, sb_ba := p\<rparr>) (copy_exec (sb_b s) (sb_a s) p))"
| "Bridge_exec Main s =
     (case (sb_main s, sb_errCh s) of
        (WaitFirst, e # es) \<Rightarrow> Some (s\<lparr>sb_errCh := es, sb_main := CloseConns e\<rparr>)
      | (CloseConns e, _) \<Rightarrow>
          Some (s\<lparr>sb_a := Close (sb_a s), sb_b := Close (sb_b s), sb_main := WaitSecond e\<rparr>)
      | (WaitSecond e, _ # es) \<Rightarrow> Some (s\<lparr>sb_errCh := es, sb_main := Returned e\<rparr>)
      | _ \<Rightarrow> None)"

lemma Bridge_exec_step:
  assumes "Bridge_exec ch s = Some s'"
  shows "Bridge_step faulty s s'"
  using assms
  by (cases "(ch, s)" rule: Bridge_exec.cases)
     (auto split: phase.splits main_phase.splits list.splits prod.splits dest!: copy_exec_step [where faulty = faulty]
       intro: Bridge_step.intros)

lemma server_bridge_truncates:
  "\<exists>s. (Bridge_step False)\<^sup>*\<^sup>* (server_bridge_init (example_conn ''GET'') (example_conn ''answer'')) s \<and>
     sb_main s = Returned None \<and> cn_sent (sb_b s) = ''answer'' \<and> cn_out (sb_a s) = ''''"
proof -
  let ?init = "server_bridge_init (example_conn ''GET'') (example_conn ''answer'')"
  obtain s where s: "runs Bridge_exec [AB, AB, AB, AB, Main, Main, BA, BA, Main] ?init = Some s"
    "sb_main s = Returned None \<and> cn_sent (sb_b s) = ''answer'' \<and> cn_out (sb_a s) = ''''"
    by (simp add: server_bridge_init_def example_conn_def CloseRead_def Close_def)
  have "(Bridge_step False ^^ 9) ?init s"
    using runs_relpow [of Bridge_exec "Bridge_step False", OF Bridge_exec_step s(1)] by (simp add: eval_nat_numeral)
  from relpowp_imp_rtranclp [OF this] s(2) show ?thesis
    by blast
qed

text \<open>
  With bytes fetched ahead, the host rewrite waits for the end of the stream before anything reaches the
  local service: a client that sends early data on an upgraded connection and keeps it open is stuck.
\<close>

lemma host_rewrite_waits_for_eof:
  assumes "bridgeWithHostRewrite lib False newHost stream local stream1 local1 None"
    and "\<And>bs req h wire m. lib_ReadRequest lib bs = Inr (req, h) \<Longrightarrow>
           lib_Write lib (set_host newHost req) (drop h bs) = Inr (wire, m) \<Longrightarrow> h + m = size_of_request"
    and "cn_pos stream1 \<noteq> cn_pos stream + size_of_request"
  shows "cn_fin stream1"
  using assms(1)
proof (cases rule: bridgeWithHostRewrite.cases)
  case (request_only stream2 h m req wire)
  then show ?thesis
    using assms(2) [OF request_only(5,6)] assms(3) by (simp add: add.assoc)
qed auto

end
