(* ===== verification/Client.thy ===== *)
theory Client
  imports Config_Load Bridge
begin

text \<open>
  The client: \<^verbatim>\<open>internal/client/client.go\<close> (health checker, connector, session loop), \<^verbatim>\<open>diagnostics.go\<close>,
  \<^verbatim>\<open>session_detail.go\<close> and the supervisor loop of \<^verbatim>\<open>cmd/client/main.go\<close>. What
  the network and the pollmux library answer is an argument; log entries are values. The results: the
  checker reports the last probe and logs exactly the changes; the supervisor restarts a service exactly
  while it is superseded and not shut down; the diagnostics count the failures of the current wave.
  The streams that a session accepts are handled by \<^const>\<open>Handle\<close> of the theory of bridges.
\<close>

section \<open>The health checker\<close>

record Checker =
  ck_target :: string
  ck_mode :: string
  ck_path :: string
  ck_interval :: duration
  ck_timeout :: duration
  ck_healthy :: bool

definition NewChecker :: "HealthConfig \<Rightarrow> string \<Rightarrow> Checker" where
  "NewChecker cfg target =
     \<lparr>ck_target = target, ck_mode = hc_Mode cfg, ck_path = hc_Path cfg,
      ck_interval = hc_Interval cfg, ck_timeout = hc_Timeout cfg, ck_healthy = False\<rparr>"

definition Healthy :: "Checker \<Rightarrow> bool" where
  "Healthy c = ck_healthy c"

text \<open>The network at one moment: the status of a GET or an error, and whether a TCP dial succeeds.\<close>

record network =
  http_Get :: "string \<Rightarrow> duration \<Rightarrow> string + int"
  DialTimeout :: "string \<Rightarrow> duration \<Rightarrow> bool"

definition check_health :: "network \<Rightarrow> Checker \<Rightarrow> bool" where
  "check_health net c =
     (if ck_mode c = ''http'' then
        (case http_Get net (''http://'' @ ck_target c @ ck_path c) (ck_timeout c) of
           Inl _ \<Rightarrow> False
         | Inr status \<Rightarrow> 200 \<le> status \<and> status < 400)
      else DialTimeout net (ck_target c) (ck_timeout c))"

text \<open>A probe stores the result and logs the new state if it differs from the old one.\<close>

definition probe :: "network \<Rightarrow> Checker \<Rightarrow> string list \<times> Checker" where
  "probe net c =
     (let ok = check_health net c;
          prev = ck_healthy c;
          c = c\<lparr>ck_healthy := ok\<rparr>
      in (if ok \<noteq> prev then [if ok then ''ok'' else ''down''] else [], c))"

text \<open>
  \<^verbatim>\<open>Checker.Run\<close>: a first probe, then one per tick until the context is done. A ticker with a
  non-positive interval panics.
\<close>

datatype tick_event = Tick network | CtxDone

datatype client_panic = NonPositiveTicker

fun checker_loop :: "Checker \<Rightarrow> tick_event list \<Rightarrow> string list \<times> Checker" where
  "checker_loop c [] = ([], c)"
| "checker_loop c (CtxDone # es) = ([], c)"
| "checker_loop c (Tick net # es) =
     (let (log, c) = probe net c; (log', c) = checker_loop c es in (log @ log', c))"

definition checker_Run :: "network \<Rightarrow> tick_event list \<Rightarrow> Checker \<Rightarrow> client_panic + string list \<times> Checker" where
  "checker_Run net es c =
     (let (log, c) = probe net c
      in if ck_interval c \<le> 0 then Inl NonPositiveTicker
         else Inr (let (log', c) = checker_loop c es in (log @ log', c)))"

section \<open>The connector\<close>

record Connector =
  cn_BaseURL :: string
  cn_PathPrefix :: string
  cn_AuthToken :: string
  cn_Meta :: "string \<rightharpoonup> string"
  cn_PollInterval :: duration
  cn_PollGrace :: duration
  cn_SendTimeout :: duration
  cn_CoalesceWindow :: duration
  cn_MaxSendChunk :: int
  cn_PreferStream :: bool
  cn_UploadStreamPreference :: string
  cn_UploadProbeTimeout :: duration
  cn_PreferWebSocket :: bool
  cn_PreferResume :: bool
  cn_MaxReplayBytes :: int
  cn_LocalHealth :: "(Checker \<Rightarrow> bool) option"
  cn_InsecureSkipVerify :: bool

definition buildConnector :: "ClientConfig \<Rightarrow> Connector" where
  "buildConnector cfg =
     (let srv = cc_Server cfg; tr = cc_Transport cfg
      in \<lparr>cn_BaseURL = sr_URL srv,
          cn_PathPrefix = sr_ControlPath srv,
          cn_AuthToken = sr_Token srv,
          cn_Meta = [''client_id'' \<mapsto> cc_ClientID cfg],
          cn_PollInterval = tr_PollInterval tr,
          cn_PollGrace = tr_PollGrace tr,
          cn_SendTimeout = tr_SendTimeout tr,
          cn_CoalesceWindow = tr_CoalesceWindow tr,
          cn_MaxSendChunk = tr_MaxSendChunk tr,
          cn_PreferStream = tr_PreferStream tr,
          cn_UploadStreamPreference = tr_UploadStreamPreference tr,
          cn_UploadProbeTimeout = tr_UploadProbeTimeout tr,
          cn_PreferWebSocket = tr_PreferWebSocket tr,
          cn_PreferResume = tr_PreferResume tr,
          cn_MaxReplayBytes = tr_MaxReplayBytes tr,
          cn_LocalHealth = (if hc_Enabled (cc_Health cfg) then Some Healthy else None),
          cn_InsecureSkipVerify = sr_InsecureSkipVerify srv\<rparr>)"

section \<open>Diagnostics\<close>

text \<open>The outcomes of pollmux that the switch statements name; any other value takes no branch.\<close>

datatype Outcome = OutcomeShutdown | OutcomeSuperseded | OutcomePeerClosed | OutcomeTransportFailed | OutcomeOther int

record sessionDiagnostics =
  sd_lastEndedAt :: "int option"
  sd_consecutiveFast :: int

definition reconnectWaveGap :: duration where
  "reconnectWaveGap = 5 * second"

definition newSessionDiagnostics :: sessionDiagnostics where
  "newSessionDiagnostics = \<lparr>sd_lastEndedAt = None, sd_consecutiveFast = 0\<rparr>"

datatype diag_log =
    LogSuperseded
  | LogWaveStart
  | LogFastLoop int
  | LogPeerClosed
  | LogShutdown

text \<open>
  \<^verbatim>\<open>record\<close> reads the clock twice: \<open>now\<close> for the gap and \<open>now'\<close> for the new end time. The entry has the message,
  if the outcome has one, and the fields of the source: the gap only if it is positive, the detail only if it
  is not empty.
\<close>

record diag_entry =
  de_event :: "diag_log option"
  de_client_id :: string
  de_session_id :: string
  de_served_for :: duration
  de_outcome :: Outcome
  de_gap :: "duration option"
  de_detail :: "string option"

definition diag_record ::
  "int \<Rightarrow> int \<Rightarrow> string \<Rightarrow> string \<Rightarrow> duration \<Rightarrow> Outcome \<Rightarrow> string \<Rightarrow> sessionDiagnostics
     \<Rightarrow> diag_entry \<times> sessionDiagnostics" where
  "diag_record now now' clientID sessionID served outcome detail d =
     (let gap = (case sd_lastEndedAt d of None \<Rightarrow> 0 | Some t \<Rightarrow> now - t);
          d = d\<lparr>sd_lastEndedAt := Some now'\<rparr>;
          entry = \<lparr>de_event = None, de_client_id = clientID, de_session_id = sessionID, de_served_for = served,
                   de_outcome = outcome, de_gap = (if 0 < gap then Some gap else None),
                   de_detail = (if detail \<noteq> '''' then Some detail else None)\<rparr>
      in case outcome of
           OutcomeSuperseded \<Rightarrow> (entry\<lparr>de_event := Some LogSuperseded\<rparr>, d\<lparr>sd_consecutiveFast := 0\<rparr>)
         | OutcomeTransportFailed \<Rightarrow>
             if gap = 0 \<or> reconnectWaveGap \<le> gap
             then (entry\<lparr>de_event := Some LogWaveStart\<rparr>, d\<lparr>sd_consecutiveFast := 1\<rparr>)
             else let n = sd_consecutiveFast d + 1
                  in (entry\<lparr>de_event := Some (LogFastLoop n)\<rparr>, d\<lparr>sd_consecutiveFast := n\<rparr>)
         | OutcomePeerClosed \<Rightarrow> (entry\<lparr>de_event := Some LogPeerClosed\<rparr>, d\<lparr>sd_consecutiveFast := 0\<rparr>)
         | OutcomeShutdown \<Rightarrow> (entry\<lparr>de_event := Some LogShutdown\<rparr>, d\<lparr>sd_consecutiveFast := 0\<rparr>)
         | OutcomeOther _ \<Rightarrow> (entry, d))"

definition em_dash :: string where
  "em_dash = [CHR 0xE2, CHR 0x80, CHR 0x94]"

text \<open>
  A channel of empty structs: whether it is closed and how many values wait in it. \<^verbatim>\<open>channelClosed\<close> receives without
  blocking, so it also answers true, and takes the value, where one waits; the channels that it is asked for
  are only ever closed.
\<close>

record chan =
  ch_closed :: bool
  ch_waiting :: nat

definition channelClosed :: "chan \<Rightarrow> bool" where
  "channelClosed ch \<longleftrightarrow> 0 < ch_waiting ch \<or> ch_closed ch"

text \<open>
  The detail of the end of a session, from the cause of the context and the channels of the connection that
  report supersession and transport failure.
\<close>

definition sessionEndDetail :: "string option \<Rightarrow> chan \<Rightarrow> chan \<Rightarrow> Outcome \<Rightarrow> string" where
  "sessionEndDetail cause superseded transportFailed outcome =
     (case outcome of
        OutcomeShutdown \<Rightarrow>
          (case cause of Some err \<Rightarrow> err | None \<Rightarrow> ''client process shutting down'')
      | OutcomeSuperseded \<Rightarrow>
          ''session superseded by a newer connect with the same client_id '' @
          ''(duplicate httphop-client process or overlapping reconnect)''
      | OutcomePeerClosed \<Rightarrow>
          ''yamux session closed while HTTP transport was still healthy (server-side session end)''
      | OutcomeTransportFailed \<Rightarrow>
          (if channelClosed superseded then
             ''HTTP transport failed after session superseded '' @ em_dash @ '' check for duplicate httphop-client using the same client_id''
           else if channelClosed transportFailed then
             ''HTTP transport failed (poll/send network error, timeout, or server 410 session closed)''
           else ''transport failed (see pollmux transport problem logs above for the exact HTTP error)'')
      | OutcomeOther _ \<Rightarrow> '''')"

section \<open>Sessions\<close>

text \<open>
  \<^verbatim>\<open>serveSession\<close>: the yamux session is opened (or fails), the accept loop of pollmux runs to its outcome,
  the end is recorded once, and the session is closed. \<open>se_start\<close>, \<open>se_end\<close>, \<open>se_now\<close> and \<open>se_now'\<close> are the readings
  of the clock, in their order; the boolean of the result tells whether \<^verbatim>\<open>sess.Close\<close> ran.
\<close>

record session_env =
  se_SessionID :: string
  se_start :: int
  se_end :: int
  se_opened :: "string option"
  se_outcome :: Outcome
  se_cause :: "string option"
  se_superseded :: chan
  se_transportFailed :: chan
  se_now :: int
  se_now' :: int

definition serveSession ::
  "ClientConfig \<Rightarrow> session_env \<Rightarrow> sessionDiagnostics \<Rightarrow> Outcome \<times> bool \<times> diag_entry \<times> sessionDiagnostics" where
  "serveSession cfg env d =
     (case se_opened env of
        Some err \<Rightarrow>
          (let (entry, d) = diag_record (se_now env) (se_now' env) (cc_ClientID cfg) (se_SessionID env)
                 (se_end env - se_start env) OutcomeTransportFailed err d
           in (OutcomeTransportFailed, False, entry, d))
      | None \<Rightarrow>
          (let detail = sessionEndDetail (se_cause env) (se_superseded env) (se_transportFailed env) (se_outcome env);
               (entry, d) = diag_record (se_now env) (se_now' env) (cc_ClientID cfg) (se_SessionID env)
                 (se_end env - se_start env) (se_outcome env) detail d
           in (se_outcome env, True, entry, d)))"

section \<open>The client\<close>

record Client =
  cl_cfg :: ClientConfig
  cl_handler :: StreamHandler
  cl_health :: Checker
  cl_diagnostics :: sessionDiagnostics

definition New :: "ClientConfig \<Rightarrow> Client" where
  "New cfg =
     \<lparr>cl_cfg = cfg,
      cl_handler = NewStreamHandler (cc_Local cfg) (tr_DialTimeout (cc_Transport cfg)),
      cl_health = NewChecker (cc_Health cfg) (lc_Target (cc_Local cfg)),
      cl_diagnostics = newSessionDiagnostics\<rparr>"

text \<open>
  \<^verbatim>\<open>Run\<close> starts the goroutine of the health checker, if it is enabled, and runs the reconnect loop of pollmux
  on the connector and \<^const>\<open>serveSession\<close>. The loop returns nil when the client was superseded, and an error
  otherwise. The result has the checker goroutine that was started.
\<close>

datatype run_error = ContextCanceled | RunError string

type_synonym reconnect_loop =
  "Connector \<Rightarrow> (session_env \<Rightarrow> sessionDiagnostics \<Rightarrow> Outcome \<times> bool \<times> diag_entry \<times> sessionDiagnostics)
     \<Rightarrow> sessionDiagnostics \<Rightarrow> run_error option \<times> sessionDiagnostics"

definition Run :: "reconnect_loop \<Rightarrow> Client \<Rightarrow> run_error option \<times> Checker list \<times> Client" where
  "Run loop c =
     (let checkers = (if hc_Enabled (cc_Health (cl_cfg c)) then [cl_health c] else []);
          (err, d) = loop (buildConnector (cl_cfg c)) (serveSession (cl_cfg c)) (cl_diagnostics c)
      in (err, checkers, c\<lparr>cl_diagnostics := d\<rparr>))"

section \<open>The supervisor\<close>

text \<open>
  The goroutine of \<^verbatim>\<open>main\<close> for one service. Each round makes a new client and runs it; after nil the goroutine
  waits a second unless the context is done first (\<open>stopped k\<close> in round \<open>k\<close>). The result is the number of
  rounds, the error that ended the loop (\<^const>\<open>None\<close> when the context did), and the checker goroutines that were
  started; they run until the context is done. The outer option is \<^const>\<open>None\<close> when the fuel is used up.
\<close>

fun supervise ::
  "(nat \<Rightarrow> reconnect_loop) \<Rightarrow> (nat \<Rightarrow> bool) \<Rightarrow> ClientConfig \<Rightarrow> nat \<Rightarrow> Checker list \<Rightarrow> nat
     \<Rightarrow> (nat \<times> run_error option \<times> Checker list) option" where
  "supervise loops stopped cfg k checkers 0 = None"
| "supervise loops stopped cfg k checkers (Suc fuel) =
     (case Run (loops k) (New cfg) of (err, started, _) \<Rightarrow>
        (case err of
           Some e \<Rightarrow> Some (Suc k, Some e, checkers @ started)
         | None \<Rightarrow>
             if stopped k then Some (Suc k, None, checkers @ started)
             else supervise loops stopped cfg (Suc k) (checkers @ started) fuel))"

section \<open>Health\<close>

text \<open>The probes of a run: one at the start, one per tick until the context is done.\<close>

fun ticks :: "tick_event list \<Rightarrow> network list" where
  "ticks (Tick net # es) = net # ticks es"
| "ticks _ = []"

fun changes :: "bool \<Rightarrow> bool list \<Rightarrow> bool list" where
  "changes prev [] = []"
| "changes prev (r # rs) = (if r \<noteq> prev then [r] else []) @ changes r rs"

definition state_text :: "bool \<Rightarrow> string" where
  "state_text ok = (if ok then ''ok'' else ''down'')"

lemma check_health_update [simp]: "check_health net (c\<lparr>ck_healthy := b\<rparr>) = check_health net c"
  by (simp add: check_health_def)

lemma checker_loop_spec:
  "checker_loop c es =
     (let rs = map (\<lambda>net. check_health net c) (ticks es)
      in (map state_text (changes (ck_healthy c) rs), c\<lparr>ck_healthy := last (ck_healthy c # rs)\<rparr>))"
  by (induction c es rule: checker_loop.induct)
     (simp_all add: probe_def state_text_def Let_def o_def split: prod.splits)

lemma changes_alternate: "successively (\<noteq>) (prev # changes prev rs)"
proof (induction rs arbitrary: prev)
  case (Cons r rs)
  from Cons [of r] show ?case
    by (auto simp: successively_Cons)
qed simp

lemma successively_state_text: "successively (\<noteq>) bs \<Longrightarrow> successively (\<noteq>) (map state_text bs)"
  by (induction bs rule: induct_list012) (auto simp: state_text_def split: if_splits)

lemma changes_successively: "successively (\<noteq>) (map state_text (changes prev rs))"
  using changes_alternate [of prev rs] by (intro successively_state_text) (auto simp: successively_Cons)

text \<open>
  C30: the health checker reports the last probe and logs exactly the changes. With a positive interval,
  after the probes \<open>rs\<close> of a run the flag that \<^verbatim>\<open>Healthy\<close> returns is the last result, and the log has one
  entry for each result that differs from the one before it, the state before the first probe being down;
  so the entries alternate. An interval that is not positive makes the ticker panic.
\<close>

theorem checker_tracks_health:
  "checker_Run net es c =
     (let rs = map (\<lambda>net. check_health net c) (net # ticks es)
      in if 0 < ck_interval c
         then Inr (map state_text (changes (ck_healthy c) rs), c\<lparr>ck_healthy := last rs\<rparr>)
         else Inl NonPositiveTicker) \<and>
   successively (\<noteq>) (map state_text (changes (ck_healthy c) (map (\<lambda>net. check_health net c) (net # ticks es))))"
  by (rule conjI [OF _ changes_successively])
     (auto simp: checker_Run_def checker_loop_spec probe_def state_text_def Let_def)

section \<open>Reconnect waves\<close>

text \<open>An ended session: the arguments of a call of \<^verbatim>\<open>record\<close> and the two readings of the clock in it.\<close>

record session_end =
  en_now :: int
  en_now' :: int
  en_clientID :: string
  en_sessionID :: string
  en_served :: duration
  en_outcome :: Outcome
  en_detail :: string

definition record_end :: "session_end \<Rightarrow> sessionDiagnostics \<Rightarrow> sessionDiagnostics" where
  "record_end e d =
     snd (diag_record (en_now e) (en_now' e) (en_clientID e) (en_sessionID e) (en_served e) (en_outcome e) (en_detail e) d)"

definition diag_run :: "session_end list \<Rightarrow> sessionDiagnostics \<Rightarrow> sessionDiagnostics" where
  "diag_run = fold record_end"

definition failed :: "session_end \<Rightarrow> bool" where
  "failed e \<longleftrightarrow> en_outcome e = OutcomeTransportFailed"

definition known_outcome :: "session_end \<Rightarrow> bool" where
  "known_outcome e \<longleftrightarrow> (\<forall>k. en_outcome e \<noteq> OutcomeOther k)"

text \<open>A session that ended less than the wave gap after the previous one; a gap of zero counts as none.\<close>

definition fast :: "session_end \<Rightarrow> session_end \<Rightarrow> bool" where
  "fast e e' \<longleftrightarrow> en_now e' - en_now' e \<noteq> 0 \<and> en_now e' - en_now' e < reconnectWaveGap"

lemma diag_run_snoc: "diag_run (es @ [e]) d = record_end e (diag_run es d)"
  by (simp add: diag_run_def)

lemmas record_end_simps = record_end_def diag_record_def Let_def

lemma diag_run_last:
  "sd_lastEndedAt (diag_run es newSessionDiagnostics) = (if es = [] then None else Some (en_now' (last es)))"
  by (cases es rule: rev_cases)
     (auto simp: diag_run_snoc record_end_simps diag_run_def newSessionDiagnostics_def split: Outcome.split)

definition current_wave :: "session_end list \<Rightarrow> session_end list \<Rightarrow> session_end list \<Rightarrow> bool" where
  "current_wave hist pre wave \<longleftrightarrow>
     hist = pre @ wave \<and> list_all failed wave \<and> successively fast wave \<and>
     (pre = [] \<or> (if wave = [] then \<not> failed (last pre) else \<not> (failed (last pre) \<and> fast (last pre) (hd wave))))"

lemma wave_extend:
  assumes "current_wave hist pre wave" "failed e"
  shows "hist \<noteq> [] \<Longrightarrow> fast (last hist) e \<Longrightarrow> current_wave (hist @ [e]) pre (wave @ [e])"
    "hist = [] \<or> \<not> fast (last hist) e \<Longrightarrow> current_wave (hist @ [e]) hist [e]"
  using assms by (auto simp: current_wave_def successively_append_iff hd_append split: if_splits)

lemma wave_break:
  assumes "\<not> failed e"
  shows "current_wave (hist @ [e]) (hist @ [e]) []"
  using assms by (simp add: current_wave_def)

lemma diag_wave:
  assumes "list_all known_outcome hist"
  shows "\<exists>pre wave. current_wave hist pre wave \<and>
    sd_consecutiveFast (diag_run hist newSessionDiagnostics) = int (length wave)"
  using assms
proof (induction hist rule: rev_induct)
  case Nil
  have "current_wave [] [] []"
    by (simp add: current_wave_def)
  then show ?case
    by (force simp: newSessionDiagnostics_def diag_run_def)
next
  case (snoc e hist)
  then obtain pre wave where IH: "current_wave hist pre wave"
    "sd_consecutiveFast (diag_run hist newSessionDiagnostics) = int (length wave)"
    by auto
  show ?case
  proof (cases "failed e")
    case False
    with snoc.prems have "sd_consecutiveFast (diag_run (hist @ [e]) newSessionDiagnostics) = 0"
      by (auto simp: diag_run_snoc record_end_simps failed_def known_outcome_def split: Outcome.split)
    with wave_break [OF False] show ?thesis
      by force
  next
    case True
    note count = diag_run_snoc record_end_simps failed_def diag_run_last fast_def IH(2)
    show ?thesis
    proof (cases "hist \<noteq> [] \<and> fast (last hist) e")
      case fast: True
      with True have "sd_consecutiveFast (diag_run (hist @ [e]) newSessionDiagnostics) = int (length (wave @ [e]))"
        by (auto simp: count)
      with wave_extend(1) [OF IH(1) True] fast show ?thesis
        by blast
    next
      case slow: False
      with True have "sd_consecutiveFast (diag_run (hist @ [e]) newSessionDiagnostics) = int (length [e])"
        by (auto simp: count)
      with wave_extend(2) [OF IH(1) True] slow show ?thesis
        by blast
    qed
  qed
qed

text \<open>
  C31: the counter of fast failures is the length of the current reconnect wave. After any history of ended
  sessions with outcomes that pollmux defines, the last sessions of the history, as many as the counter
  says, all ended with a transport failure and each followed the one before it within the wave gap; and
  they are all such sessions: the one before them, if any, did not fail, or was further away, or was recorded at
  the same reading of the clock, since the code takes a gap of zero as a break of the wave.
\<close>

theorem fast_failures_are_the_wave:
  assumes "list_all known_outcome hist"
  shows "\<exists>pre wave. hist = pre @ wave \<and>
    sd_consecutiveFast (diag_run hist newSessionDiagnostics) = int (length wave) \<and>
    list_all failed wave \<and> successively fast wave \<and>
    (pre = [] \<or> (if wave = [] then \<not> failed (last pre) else \<not> (failed (last pre) \<and> fast (last pre) (hd wave))))"
  using diag_wave [OF assms] unfolding current_wave_def by blast

definition example_end :: "int \<Rightarrow> Outcome \<Rightarrow> string \<Rightarrow> session_end" where
  "example_end now outcome detail =
     \<lparr>en_now = now, en_now' = now, en_clientID = ''home'', en_sessionID = ''s'', en_served = second,
      en_outcome = outcome, en_detail = detail\<rparr>"

definition example_history :: "session_end list" where
  "example_history =
     [example_end 0 OutcomePeerClosed '''', example_end (10 * second) OutcomeTransportFailed ''eof'',
      example_end (11 * second) OutcomeTransportFailed ''eof'']"

theorem fast_failures_are_the_wave_witness:
  "list_all known_outcome example_history \<and>
   sd_consecutiveFast (diag_run example_history newSessionDiagnostics) = 2 \<and>
   (\<exists>pre wave. example_history = pre @ wave \<and> list_all failed wave \<and> length wave = 2)"
proof -
  have known: "list_all known_outcome example_history"
    by (simp add: example_history_def example_end_def known_outcome_def)
  moreover have "sd_consecutiveFast (diag_run example_history newSessionDiagnostics) = 2"
    by (simp add: example_history_def example_end_def diag_run_def record_end_simps newSessionDiagnostics_def reconnectWaveGap_def)
  ultimately show ?thesis
    using fast_failures_are_the_wave [OF known] by auto
qed

section \<open>Restarts\<close>

abbreviation round_error :: "(nat \<Rightarrow> reconnect_loop) \<Rightarrow> ClientConfig \<Rightarrow> nat \<Rightarrow> run_error option" where
  "round_error loops cfg k \<equiv> fst (Run (loops k) (New cfg))"

definition checker_goroutines :: "ClientConfig \<Rightarrow> Checker list" where
  "checker_goroutines cfg = (if hc_Enabled (cc_Health cfg) then [cl_health (New cfg)] else [])"

lemma Run_checkers: "fst (snd (Run loop (New cfg))) = checker_goroutines cfg"
  by (simp add: Run_def checker_goroutines_def New_def split: prod.split)

lemma supervise_rounds:
  "supervise loops stopped cfg k checkers fuel = Some r \<longleftrightarrow>
     (\<exists>m<fuel. (\<forall>j<m. round_error loops cfg (k + j) = None \<and> \<not> stopped (k + j)) \<and>
        (round_error loops cfg (k + m) \<noteq> None \<or> stopped (k + m)) \<and>
        r = (Suc (k + m), round_error loops cfg (k + m), checkers @ concat (replicate (Suc m) (checker_goroutines cfg))))"
proof (induction fuel arbitrary: k checkers)
  case (Suc fuel)
  let ?g = "checker_goroutines cfg"
  have unfold: "supervise loops stopped cfg k checkers (Suc fuel) =
      (if round_error loops cfg k \<noteq> None \<or> stopped k then Some (Suc k, round_error loops cfg k, checkers @ ?g)
       else supervise loops stopped cfg (Suc k) (checkers @ ?g) fuel)"
    using Run_checkers [of "loops k" cfg] by (auto split: prod.split option.split)
  show ?case
  proof (cases "round_error loops cfg k \<noteq> None \<or> stopped k")
    case True
    then show ?thesis
      unfolding unfold Ex_less_Suc2 by (simp add: All_less_Suc2 eq_commute) blast
  next
    case False
    then show ?thesis
      unfolding unfold Ex_less_Suc2 using Suc.IH [of "Suc k" "checkers @ ?g"] by (simp add: All_less_Suc2)
  qed
qed simp

text \<open>
  C29: the supervisor restarts a service exactly while it is superseded. The loop of \<^verbatim>\<open>main\<close> ends after \<open>n\<close>
  rounds with \<open>err\<close> exactly if all rounds before the last returned nil without the context being done, and
  in the last one \<^verbatim>\<open>Run\<close> returned the error \<open>err\<close>, or nil while the context was done; fuel for \<open>n\<close> rounds is
  enough to see it. Every round starts a checker goroutine of its own when health checks are enabled.
\<close>

theorem supervise_exact:
  "supervise loops stopped cfg 0 [] fuel = Some (n, err, checkers) \<longleftrightarrow>
     (\<exists>m<fuel. n = Suc m \<and>
        list_all (\<lambda>j. round_error loops cfg j = None \<and> \<not> stopped j) [0..<m] \<and>
        \<not> (round_error loops cfg m = None \<and> \<not> stopped m) \<and> err = round_error loops cfg m \<and>
        checkers = concat (replicate n (checker_goroutines cfg)))"
  using supervise_rounds [of loops stopped cfg 0 "[]" fuel "(n, err, checkers)"] by (auto simp: list_all_iff)

text \<open>
  The checkers of earlier rounds are not stopped: they run until the context is done. After \<open>m\<close>
  supersessions \<open>m + 1\<close> of them probe the same target.
\<close>

lemma checkers_accumulate:
  assumes "hc_Enabled (cc_Health cfg)" "supervise loops stopped cfg 0 [] fuel = Some (n, err, checkers)"
  shows "checkers = replicate n (cl_health (New cfg))"
proof -
  have "concat (replicate n [x]) = replicate n x" for n and x :: Checker
    by (induction n) simp_all
  with assms show ?thesis
    unfolding supervise_rounds by (auto simp: checker_goroutines_def)
qed

text \<open>A negative interval passes the validation of the client and makes the checker panic.\<close>

definition example_client :: ClientConfig where
  "example_client = (DefaultClient example_consts)\<lparr>
     cc_ClientID := ''home'',
     cc_Server := \<lparr>sr_URL = ''https://example.com'', sr_Token = example_token, sr_TokenFile = '''',
                   sr_ControlPath = ''/tunnel'', sr_InsecureSkipVerify = False\<rparr>,
     cc_Local := \<lparr>lc_Target = ''127.0.0.1:8080'', lc_HostRewrite = ''''\<rparr>\<rparr>"

lemma negative_interval_panics:
  "let cfg = example_client\<lparr>cc_Health := (cc_Health example_client)\<lparr>hc_Interval := - 1\<rparr>\<rparr>
   in ValidateClient example_consts (applyClientDefaults example_consts cfg) = Inr () \<and>
      checker_Run net es (cl_health (New (applyClientDefaults example_consts cfg))) = Inl NonPositiveTicker"
  by (simp add: example_client_def applyClientDefaults_def ValidateClient_def DefaultClient_def example_consts_def
      example_token_def or_default_def New_def NewChecker_def checker_Run_def probe_def Let_def check_def bind_result_def)

end
