(* ===== verification/Preflight.thy ===== *)
theory Preflight
  imports Go_Url
begin

text \<open>
  The single-instance check of the client: \<^verbatim>\<open>internal/client/preflight.go\<close> (the lock file) and
  \<^verbatim>\<open>preflight_pgrep.go\<close> (process IDs from \<^verbatim>\<open>pgrep\<close> and from the lock file). \<^verbatim>\<open>AcquireProcessLock\<close> and the release
  function it returns are a state machine per process over a file system with inodes and advisory locks,
  so that every interleaving of the system calls of any number of processes is covered. Processes are
  named by their process ID. The results: until a process has removed the file, at most one process holds
  the lock and the file names it; the removal, which comes after the unlock, can break the exclusion;
  printed process IDs are read back.
\<close>

section \<open>Reading numbers\<close>

text \<open>\<^verbatim>\<open>strconv.Atoi\<close>: an optional sign and at least one digit, within the range of a 64-bit integer.\<close>

definition digits_value :: "string \<Rightarrow> int" where
  "digits_value ds = foldl (\<lambda>n c. 10 * n + int (byte c - 48)) 0 ds"

definition Atoi :: "string \<Rightarrow> int option" where
  "Atoi s =
     (let (neg, ds) = (case s of
            [] \<Rightarrow> (False, s)
          | c # cs \<Rightarrow> if c = CHR ''-'' then (True, cs) else if c = CHR ''+'' then (False, cs) else (False, s));
          n = (if neg then - digits_value ds else digits_value ds)
      in if ds = [] \<or> \<not> list_all is_digit ds \<or> \<not> in_int64 n then None else Some n)"

section \<open>The functions of the two files\<close>

text \<open>The environment variable and the temporary directory are arguments.\<close>

definition lockFilePath :: "string \<Rightarrow> string \<Rightarrow> string" where
  "lockFilePath env tmpDir = (if env \<noteq> '''' then env else Join_path tmpDir ''httphop-client.lock'')"

definition LockFilePath :: "string \<Rightarrow> string \<Rightarrow> string" where
  "LockFilePath env tmpDir = lockFilePath env tmpDir"

definition lockFileDir :: "string \<Rightarrow> string \<Rightarrow> string" where
  "lockFileDir env tmpDir = Dir (lockFilePath env tmpDir)"

fun stringsTrim :: "string \<Rightarrow> string" where
  "stringsTrim [] = []"
| "stringsTrim (c # cs) = (if c = CHR 0x0A \<or> c = CHR '' '' then [] else c # stringsTrim cs)"

text \<open>What \<^verbatim>\<open>pgrep\<close> gives: its output, an exit code other than zero, or an error of running it.\<close>

datatype pgrep_result = Output string | ExitError int | ExecError string

fun parse_pids :: "string list \<Rightarrow> int list" where
  "parse_pids [] = []"
| "parse_pids (line # lines) =
     (let line = TrimSpace line
      in if line = '''' then parse_pids lines
         else case Atoi line of None \<Rightarrow> parse_pids lines | Some pid \<Rightarrow> pid # parse_pids lines)"

definition listClientPIDs :: "pgrep_result \<Rightarrow> pgrep_result + int list" where
  "listClientPIDs r =
     (case r of
        Output out \<Rightarrow> Inr (parse_pids (Split (TrimSpace out) (CHR 0x0A)))
      | ExitError code \<Rightarrow> if code = 1 then Inr [] else Inl r
      | ExecError _ \<Rightarrow> Inl r)"

definition RunningClientPIDs :: "pgrep_result \<Rightarrow> pgrep_result + int list" where
  "RunningClientPIDs r = listClientPIDs r"

text \<open>\<^verbatim>\<open>LockHolderPID\<close> on the contents of the lock file, \<^const>\<open>None\<close> if it cannot be read.\<close>

definition LockHolderPID :: "string option \<Rightarrow> int option" where
  "LockHolderPID data =
     (case data of
        None \<Rightarrow> None
      | Some b \<Rightarrow>
          (case Atoi (stringsTrim b) of
             None \<Rightarrow> None
           | Some pid \<Rightarrow> if pid \<le> 0 then None else Some pid))"

section \<open>The lock as a state machine\<close>

type_synonym pid = nat
type_synonym inode = nat

text \<open>
  Where a process is in \<^verbatim>\<open>AcquireProcessLock\<close> and in the release function. \<open>Holding\<close> is the time between
  the two: the client runs.
\<close>

datatype pc =
    Begin
  | Opened inode
  | Locked inode
  | Truncated inode
  | Holding inode
  | Busy
  | Refused string
  | LockError
  | Skipped
  | Unlocked
  | FileClosed
  | Removed
  | Exited

record lock_state =
  ls_path :: "inode option"
  ls_data :: "inode \<Rightarrow> string"
  ls_flock :: "inode \<Rightarrow> pid option"
  ls_next :: inode
  ls_pc :: "pid \<Rightarrow> pc"

definition lock_init :: lock_state where
  "lock_init = \<lparr>ls_path = None, ls_data = (\<lambda>_. ''''), ls_flock = (\<lambda>_. None), ls_next = 0, ls_pc = (\<lambda>_. Begin)\<rparr>"

definition lock_file :: "lock_state \<Rightarrow> string option" where
  "lock_file s = map_option (ls_data s) (ls_path s)"

definition set_pc :: "pid \<Rightarrow> pc \<Rightarrow> lock_state \<Rightarrow> lock_state" where
  "set_pc p x s = s\<lparr>ls_pc := (ls_pc s)(p := x)\<rparr>"

text \<open>
  The system calls in the order of the code. \<^verbatim>\<open>OpenFile\<close> with \<^verbatim>\<open>O_CREATE\<close> opens the file at the path or
  creates it; \<^verbatim>\<open>Flock\<close> with \<^verbatim>\<open>LOCK_NB\<close> takes the lock of the inode or reports that it is held; then the file is
  truncated and the process ID written; the code ignores errors of these two calls, and the model takes them
  to succeed. The release unlocks, closes the file and removes the path. A
  process may also end at any time, by which its locks are released and the file stays.
\<close>

inductive lock_step :: "(pid \<Rightarrow> bool) \<Rightarrow> lock_state \<Rightarrow> lock_state \<Rightarrow> bool" for allowDuplicate where
  skip: "ls_pc s p = Begin \<Longrightarrow> allowDuplicate p \<Longrightarrow> lock_step allowDuplicate s (set_pc p Skipped s)"
| open_existing: "ls_pc s p = Begin \<Longrightarrow> \<not> allowDuplicate p \<Longrightarrow> ls_path s = Some i \<Longrightarrow>
     lock_step allowDuplicate s (set_pc p (Opened i) s)"
| open_new: "ls_pc s p = Begin \<Longrightarrow> \<not> allowDuplicate p \<Longrightarrow> ls_path s = None \<Longrightarrow>
     lock_step allowDuplicate s (set_pc p (Opened (ls_next s))
       (s\<lparr>ls_path := Some (ls_next s), ls_data := (ls_data s)(ls_next s := ''''), ls_next := Suc (ls_next s)\<rparr>))"
| error: "ls_pc s p = Begin \<or> ls_pc s p = Opened i \<Longrightarrow> \<not> allowDuplicate p \<Longrightarrow>
     lock_step allowDuplicate s (set_pc p LockError s)"
| flock: "ls_pc s p = Opened i \<Longrightarrow> ls_flock s i = None \<Longrightarrow>
     lock_step allowDuplicate s (set_pc p (Locked i) (s\<lparr>ls_flock := (ls_flock s)(i := Some p)\<rparr>))"
| would_block: "ls_pc s p = Opened i \<Longrightarrow> ls_flock s i = Some q \<Longrightarrow>
     lock_step allowDuplicate s (set_pc p Busy s)"
| refuse: "ls_pc s p = Busy \<Longrightarrow>
     lock_step allowDuplicate s
       (set_pc p (Refused (case lock_file s of None \<Rightarrow> '''' | Some b \<Rightarrow> stringsTrim b)) s)"
| truncate: "ls_pc s p = Locked i \<Longrightarrow>
     lock_step allowDuplicate s (set_pc p (Truncated i) (s\<lparr>ls_data := (ls_data s)(i := '''')\<rparr>))"
| write_pid: "ls_pc s p = Truncated i \<Longrightarrow>
     lock_step allowDuplicate s (set_pc p (Holding i) (s\<lparr>ls_data := (ls_data s)(i := show_nat p @ [CHR 0x0A])\<rparr>))"
| unlock: "ls_pc s p = Holding i \<Longrightarrow>
     lock_step allowDuplicate s (set_pc p Unlocked (s\<lparr>ls_flock := (ls_flock s)(i := None)\<rparr>))"
| close: "ls_pc s p = Unlocked \<Longrightarrow> lock_step allowDuplicate s (set_pc p FileClosed s)"
| remove: "ls_pc s p = FileClosed \<Longrightarrow>
     lock_step allowDuplicate s (set_pc p Removed (s\<lparr>ls_path := None\<rparr>))"
| exit: "ls_pc s p \<noteq> Removed \<Longrightarrow>
     lock_step allowDuplicate s
       (set_pc p Exited (s\<lparr>ls_flock := (\<lambda>i. if ls_flock s i = Some p then None else ls_flock s i)\<rparr>))"

section \<open>Printing and reading process IDs\<close>

lemma byte_digit [simp]: "n < 10 \<Longrightarrow> byte (char_of (n + 48)) = n + 48"
  by simp

lemma show_nat_digits: "show_nat n \<noteq> [] \<and> list_all is_digit (show_nat n)"
proof (induction n rule: show_nat.induct)
  case (1 n)
  have "is_digit (char_of (k + 48))" if "k < 10" for k :: nat
    using that by (simp add: is_digit_def)
  with 1 show ?case
    by (subst (1 2) show_nat.simps) auto
qed

lemma digits_value_snoc: "digits_value (ds @ [c]) = 10 * digits_value ds + int (byte c - 48)"
  by (simp add: digits_value_def)

lemma digits_value_show [simp]: "digits_value (show_nat n) = int n"
proof (induction n rule: show_nat.induct)
  case (1 n)
  show ?case
  proof (cases "n < 10")
    case True
    then show ?thesis
      by (subst show_nat.simps) (simp add: digits_value_def)
  next
    case False
    with 1 show ?thesis
      by (subst show_nat.simps) (simp add: digits_value_snoc zdiv_int zmod_int)
  qed
qed

lemma digit_no_space:
  assumes "is_digit c"
  shows "\<not> is_space c" "c \<noteq> CHR 0x0A" "c \<noteq> CHR '' ''" "c \<noteq> CHR ''-''" "c \<noteq> CHR ''+''"
  using assms by (auto simp: is_digit_def is_space_def)

lemma Atoi_show:
  assumes "n < 2 ^ 63"
  shows "Atoi (show_nat n) = Some (int n)"
proof -
  obtain c cs where s: "show_nat n = c # cs"
    using show_nat_digits [of n] by (cases "show_nat n") auto
  then have "is_digit c"
    using show_nat_digits [of n] by simp
  moreover have "in_int64 (int n)"
    using assms by (simp add: in_int64_def)
  ultimately show ?thesis
    using s show_nat_digits [of n] digits_value_show [of n] by (simp add: Atoi_def digit_no_space)
qed

lemma stringsTrim_digits:
  assumes "list_all is_digit ds"
  shows "stringsTrim (ds @ CHR 0x0A # rest) = ds"
  using assms by (induction ds) (auto simp: digit_no_space)

lemma LockHolderPID_written:
  assumes "0 < p" "p < 2 ^ 63"
  shows "LockHolderPID (Some (show_nat p @ [CHR 0x0A])) = Some (int p)"
  using assms Atoi_show [of p] show_nat_digits [of p] by (simp add: LockHolderPID_def stringsTrim_digits)

text \<open>A line per process ID, as \<^verbatim>\<open>pgrep\<close> prints them.\<close>

definition pgrep_output :: "nat list \<Rightarrow> string" where
  "pgrep_output ps = concat (map (\<lambda>p. show_nat p @ [CHR 0x0A]) ps)"

lemma pgrep_output_Join: "ps \<noteq> [] \<Longrightarrow> pgrep_output ps = Join (map show_nat ps) (CHR 0x0A) @ [CHR 0x0A]"
  by (induction ps rule: induct_list012) (simp_all add: pgrep_output_def)

lemma TrimSpace_inner:
  assumes "s \<noteq> []" "\<not> is_space (hd s)" "\<not> is_space (last s)" "is_space c"
  shows "TrimSpace (s @ [c]) = s" "TrimSpace s = s"
proof -
  have "dropWhile is_space (rev s) = rev s" "dropWhile is_space (s @ xs) = s @ xs" for xs
    using assms(1-3) by (auto simp: dropWhile_eq_self_iff hd_rev)
  from this(1) this(2) [of "[c]"] this(2) [of "[]"] show "TrimSpace (s @ [c]) = s" "TrimSpace s = s"
    using assms(4) by (simp_all add: TrimSpace_def)
qed

lemma digits_ends:
  assumes "ds \<noteq> []" "list_all is_digit ds"
  shows "\<not> is_space (hd ds)" "\<not> is_space (last ds)"
  using assms by (auto simp: list_all_iff digit_no_space)

lemma Join_ends:
  assumes "ws \<noteq> []" "\<forall>w\<in>set ws. w \<noteq> []"
  shows "hd (Join ws sep) = hd (hd ws)" "last (Join ws sep) = last (last ws)" "Join ws sep \<noteq> []"
  using assms by (induction ws sep rule: Join.induct) (auto simp: last_append)

lemma parse_shown: "list_all (\<lambda>p. p < 2 ^ 63) ps \<Longrightarrow> parse_pids (map show_nat ps) = map int ps"
proof (induction ps)
  case (Cons p ps)
  have "TrimSpace (show_nat p) = show_nat p"
    using show_nat_digits [of p] digits_ends by (intro TrimSpace_inner [of _ "CHR '' ''"]) (auto simp: is_space_def)
  with Cons show_nat_digits [of p] show ?case
    by (simp add: Atoi_show)
qed simp

text \<open>
  C37: process IDs are read back. From the output of \<^verbatim>\<open>pgrep\<close>, one number per line, \<^verbatim>\<open>RunningClientPIDs\<close> returns
  exactly the numbers that were printed, in their order, if they are in the range of an int; no match
  (exit code 1) gives the empty list and any other failure an error.
\<close>

theorem RunningClientPIDs_roundtrip:
  assumes "list_all (\<lambda>p. p < 2 ^ 63) ps"
  shows "RunningClientPIDs (Output (pgrep_output ps)) = Inr (map int ps) \<and>
    RunningClientPIDs (ExitError code) = (if code = 1 then Inr [] else Inl (ExitError code)) \<and>
    RunningClientPIDs (ExecError e) = Inl (ExecError e)"
proof -
  have "parse_pids (Split (TrimSpace (pgrep_output ps)) (CHR 0x0A)) = map int ps"
  proof (cases "ps = []")
    case False
    let ?ws = "map show_nat ps"
    have ne: "\<forall>w\<in>set ?ws. w \<noteq> [] \<and> list_all is_digit w"
      using show_nat_digits by auto
    then have free: "\<forall>w\<in>set ?ws. CHR 0x0A \<notin> set w"
      by (auto simp: list_all_iff dest!: digit_no_space(2))
    have "\<not> is_space (hd (hd ?ws))" "\<not> is_space (last (last ?ws))"
      using False ne digits_ends by (metis hd_in_set last_in_set map_is_Nil_conv)+
    then have "TrimSpace (pgrep_output ps) = Join ?ws (CHR 0x0A)"
      using False ne by (simp add: pgrep_output_Join Join_ends TrimSpace_inner is_space_def)
    with False free assms show ?thesis
      by (simp add: Split_Join parse_shown)
  qed (simp add: pgrep_output_def TrimSpace_def)
  then show ?thesis
    by (simp add: RunningClientPIDs_def listClientPIDs_def)
qed

theorem RunningClientPIDs_roundtrip_witness:
  "list_all (\<lambda>p. p < 2 ^ 63) [7, 42 :: nat] \<and> RunningClientPIDs (Output (pgrep_output [7, 42])) = Inr [7, 42]"
  using RunningClientPIDs_roundtrip [of "[7, 42]"] by simp

section \<open>Exclusion\<close>

fun inode_of :: "pc \<Rightarrow> inode option" where
  "inode_of (Opened i) = Some i"
| "inode_of (Locked i) = Some i"
| "inode_of (Truncated i) = Some i"
| "inode_of (Holding i) = Some i"
| "inode_of _ = None"

fun owns :: "pc \<Rightarrow> inode option" where
  "owns (Locked i) = Some i"
| "owns (Truncated i) = Some i"
| "owns (Holding i) = Some i"
| "owns _ = None"

text \<open>
  The lock of an inode is held by the process that took it; inodes in use are not new ones; the file of a
  holder has its process ID; and until some process has removed the path, every open file is the one at
  the path.
\<close>

definition flock_inv :: "lock_state \<Rightarrow> bool" where
  "flock_inv s \<longleftrightarrow> (\<forall>p i. owns (ls_pc s p) = Some i \<longleftrightarrow> ls_flock s i = Some p)"

definition inode_inv :: "lock_state \<Rightarrow> bool" where
  "inode_inv s \<longleftrightarrow> (\<forall>p i. inode_of (ls_pc s p) = Some i \<or> ls_path s = Some i \<longrightarrow> i < ls_next s)"

definition data_inv :: "lock_state \<Rightarrow> bool" where
  "data_inv s \<longleftrightarrow> (\<forall>p i. ls_pc s p = Holding i \<longrightarrow> ls_data s i = show_nat p @ [CHR 0x0A])"

definition path_inv :: "lock_state \<Rightarrow> bool" where
  "path_inv s \<longleftrightarrow>
     (\<forall>p. ls_pc s p \<noteq> Removed) \<longrightarrow> (\<forall>p i. inode_of (ls_pc s p) = Some i \<longrightarrow> ls_path s = Some i)"

lemma set_pc_simps [simp]:
  "ls_pc (set_pc p x s) = (ls_pc s)(p := x)" "ls_path (set_pc p x s) = ls_path s" "ls_data (set_pc p x s) = ls_data s"
  "ls_flock (set_pc p x s) = ls_flock s" "ls_next (set_pc p x s) = ls_next s"
  by (simp_all add: set_pc_def)

lemma owns_inode: "owns x = Some i \<Longrightarrow> inode_of x = Some i"
  by (cases x) simp_all

lemma flock_free: "flock_inv s \<Longrightarrow> owns (ls_pc s p) = None \<Longrightarrow> ls_flock s i \<noteq> Some p"
  by (metis flock_inv_def option.distinct(1))

lemma flock_owner: "flock_inv s \<Longrightarrow> owns (ls_pc s p) = Some i \<longleftrightarrow> ls_flock s i = Some p"
  by (simp add: flock_inv_def)

lemma flock_inv_keep:
  assumes "flock_inv s" "ls_pc s' = (ls_pc s)(p := x)" "ls_flock s' = ls_flock s" "owns x = owns (ls_pc s p)"
  shows "flock_inv s'"
  using assms by (auto simp: flock_inv_def)

lemma flock_inv_step:
  assumes "lock_step dup s s'" "flock_inv s"
  shows "flock_inv s'"
  using assms(1)
proof (cases rule: lock_step.cases)
  case (flock p i)
  then have "owns (ls_pc s q) \<noteq> Some i" for q
    using assms(2) by (simp add: flock_inv_def)
  with flock assms(2) flock_free [OF assms(2), of p] show ?thesis
    by (auto simp: flock_inv_def)
next
  case (unlock p i)
  then have "ls_flock s i = Some p" "j \<noteq> i \<Longrightarrow> ls_flock s j \<noteq> Some p" for j
    by (auto simp flip: flock_owner [OF assms(2)])
  with unlock assms(2) show ?thesis
    by (auto simp: flock_inv_def)
next
  case (exit p)
  with assms(2) show ?thesis
    by (auto simp: flock_inv_def)
qed (auto intro: flock_inv_keep [OF assms(2)])

lemma inode_inv_step:
  assumes "lock_step dup s s'" "inode_inv s"
  shows "inode_inv s'"
proof -
  have opened: "i < ls_next s" if "ls_pc s p \<in> {Opened i, Locked i, Truncated i}" for p i
    using assms(2) that unfolding inode_inv_def by (auto dest: spec [where x = p])
  from assms show ?thesis
    by (cases rule: lock_step.cases) (auto simp: inode_inv_def less_SucI intro: opened)
qed

lemma data_inv_step:
  assumes "lock_step dup s s'" "data_inv s" "flock_inv s" "inode_inv s"
  shows "data_inv s'"
proof -
  have own: "q = p" if "owns (ls_pc s p) = Some i" "owns (ls_pc s q) = Some i" for p q i
    using assms(3) that by (auto simp: flock_inv_def)
  have new: "ls_pc s q \<noteq> Holding (ls_next s)" for q
    using assms(4) by (auto simp: inode_inv_def) (metis inode_of.simps(4) less_irrefl)
  from assms(1) show ?thesis
  proof (cases rule: lock_step.cases)
    case (truncate p i)
    then show ?thesis
      using assms(2) own [of p i] by (auto simp: data_inv_def)
  next
    case (write_pid p i)
    then show ?thesis
      using assms(2) own [of p i] by (auto simp: data_inv_def)
  qed (use assms(2) new in \<open>auto simp: data_inv_def\<close>)
qed

lemma removed_stays:
  assumes "lock_step dup s s'" "ls_pc s p = Removed"
  shows "ls_pc s' p = Removed"
  using assms by (cases rule: lock_step.cases) auto

lemma path_inv_step:
  assumes "lock_step dup s s'" "path_inv s"
  shows "path_inv s'"
proof -
  have "ls_path s' = Some i" if removed: "\<forall>q. ls_pc s' q \<noteq> Removed" and q: "inode_of (ls_pc s' q) = Some i" for q i
  proof -
    have old: "inode_of (ls_pc s q) = Some j \<Longrightarrow> ls_path s = Some j" for q j
      using removed removed_stays [OF assms(1)] assms(2) unfolding path_inv_def by blast
    have opened: "ls_pc s p \<in> {Opened i, Locked i, Truncated i} \<Longrightarrow> ls_path s = Some i" for p i
      using old [of p i] by auto
    from assms(1) show ?thesis
      by (cases rule: lock_step.cases) (use old opened removed q in \<open>auto split: if_splits\<close>)
  qed
  then show ?thesis
    by (simp add: path_inv_def)
qed

lemmas lock_invs = flock_inv_def inode_inv_def data_inv_def path_inv_def

lemma lock_invariant:
  assumes "(lock_step dup)\<^sup>*\<^sup>* lock_init s"
  shows "flock_inv s \<and> inode_inv s \<and> data_inv s \<and> path_inv s"
  using assms
proof (induction rule: rtranclp_induct)
  case base
  show ?case
    by (simp add: lock_invs lock_init_def)
next
  case (step s s')
  then show ?case
    using flock_inv_step inode_inv_step data_inv_step path_inv_step by blast
qed

text \<open>
  C20: the lock excludes. However the system calls of the processes interleave and whenever processes end,
  no two processes own the lock of the same file; and as long as no process has removed the path, a process
  that runs the client is the only owner of the lock, and \<^verbatim>\<open>LockHolderPID\<close> reads its process ID from the file.
\<close>

theorem lock_exclusive:
  assumes "(lock_step dup)\<^sup>*\<^sup>* lock_init s" "ls_pc s p = Holding i" "owns (ls_pc s q) = Some j"
    and "0 < p" "p < 2 ^ 63"
  shows "(i = j \<longrightarrow> q = p) \<and>
    ((\<forall>r. ls_pc s r \<noteq> Removed) \<longrightarrow> q = p \<and> LockHolderPID (lock_file s) = Some (int p))"
proof -
  note inv = lock_invariant [OF assms(1)]
  have same: "q = p" if "i = j"
    using flock_owner [of s q j] flock_owner [of s p i] inv assms(2,3) that by simp
  have "ls_path s = Some i" "ls_path s = Some j" if "\<forall>r. ls_pc s r \<noteq> Removed"
  proof -
    have "inode_of (ls_pc s p) = Some i" "inode_of (ls_pc s q) = Some j"
      using assms(2,3) owns_inode by simp_all
    with inv that show "ls_path s = Some i" "ls_path s = Some j"
      unfolding path_inv_def by metis+
  qed
  moreover have "ls_data s i = show_nat p @ [CHR 0x0A]"
    using inv assms(2) by (simp add: data_inv_def)
  ultimately show ?thesis
    using same LockHolderPID_written [OF assms(4,5)] by (auto simp: lock_file_def)
qed

section \<open>Traces\<close>

text \<open>The step of process \<open>p\<close> that the code makes next when nothing fails.\<close>

definition lock_next :: "pid \<Rightarrow> lock_state \<Rightarrow> lock_state option" where
  "lock_next p s =
     (case ls_pc s p of
        Begin \<Rightarrow>
          (case ls_path s of
             Some i \<Rightarrow> Some (set_pc p (Opened i) s)
           | None \<Rightarrow> Some (set_pc p (Opened (ls_next s))
               (s\<lparr>ls_path := Some (ls_next s), ls_data := (ls_data s)(ls_next s := ''''), ls_next := Suc (ls_next s)\<rparr>)))
      | Opened i \<Rightarrow>
          if ls_flock s i = None then Some (set_pc p (Locked i) (s\<lparr>ls_flock := (ls_flock s)(i := Some p)\<rparr>))
          else Some (set_pc p Busy s)
      | Busy \<Rightarrow> Some (set_pc p (Refused (case lock_file s of None \<Rightarrow> '''' | Some b \<Rightarrow> stringsTrim b)) s)
      | Locked i \<Rightarrow> Some (set_pc p (Truncated i) (s\<lparr>ls_data := (ls_data s)(i := '''')\<rparr>))
      | Truncated i \<Rightarrow> Some (set_pc p (Holding i) (s\<lparr>ls_data := (ls_data s)(i := show_nat p @ [CHR 0x0A])\<rparr>))
      | Holding i \<Rightarrow> Some (set_pc p Unlocked (s\<lparr>ls_flock := (ls_flock s)(i := None)\<rparr>))
      | Unlocked \<Rightarrow> Some (set_pc p FileClosed s)
      | FileClosed \<Rightarrow> Some (set_pc p Removed (s\<lparr>ls_path := None\<rparr>))
      | _ \<Rightarrow> None)"

fun lock_trace :: "pid list \<Rightarrow> lock_state \<Rightarrow> lock_state option" where
  "lock_trace [] s = Some s"
| "lock_trace (p # ps) s = Option.bind (lock_next p s) (lock_trace ps)"

lemma lock_next_step:
  assumes "lock_next p s = Some s'"
  shows "lock_step (\<lambda>_. False) s s'"
  using assms lock_step.refuse [of s p] unfolding lock_next_def
  by (auto split: pc.splits option.splits if_splits intro: lock_step.intros)

lemma lock_trace_reachable:
  assumes "lock_trace ps s = Some s'"
  shows "(lock_step (\<lambda>_. False))\<^sup>*\<^sup>* s s'"
  using assms
proof (induction ps arbitrary: s)
  case (Cons p ps)
  then obtain u where "lock_next p s = Some u" "lock_trace ps u = Some s'"
    by (auto simp: bind_eq_Some_conv)
  with Cons.IH lock_next_step show ?case
    by (meson converse_rtranclp_into_rtranclp)
qed simp

lemmas trace_simps = lock_next_def lock_init_def lock_file_def set_pc_def

lemma show_seven: "show_nat 7 = ''7''"
  by code_simp

theorem lock_exclusive_witness:
  "\<exists>s. (lock_step (\<lambda>_. False))\<^sup>*\<^sup>* lock_init s \<and> ls_pc s 7 = Holding 0 \<and> ls_pc s 8 = Refused ''7'' \<and>
     LockHolderPID (lock_file s) = Some 7"
proof -
  obtain s where s: "lock_trace [7, 7, 7, 7, 8, 8, 8] lock_init = Some s" "ls_pc s 7 = Holding 0"
    "ls_pc s 8 = Refused ''7''" "\<forall>r. ls_pc s r \<noteq> Removed"
    by (simp add: trace_simps show_seven)
  have "LockHolderPID (lock_file s) = Some 7"
    using lock_exclusive [OF lock_trace_reachable [OF s(1)], of 7 0 7 0] s by simp
  with s lock_trace_reachable [OF s(1)] show ?thesis
    by blast
qed

text \<open>
  The release function unlocks before it removes the path. A process that has opened the file meanwhile takes
  the lock of a file that is then removed, and a third process creates and locks a new one: two clients run.
\<close>

lemma release_breaks_exclusion:
  "\<exists>s. (lock_step (\<lambda>_. False))\<^sup>*\<^sup>* lock_init s \<and> ls_pc s 8 = Holding 0 \<and> ls_pc s 9 = Holding 1"
proof -
  obtain s where "lock_trace [7, 7, 7, 7, 8, 7, 8, 8, 8, 7, 7, 9, 9, 9, 9] lock_init = Some s"
    "ls_pc s 8 = Holding 0" "ls_pc s 9 = Holding 1"
    by (simp add: trace_simps)
  with lock_trace_reachable show ?thesis
    by blast
qed

end
