(* ===== verification/Mains.thy ===== *)
theory Mains
  imports Drain Client Preflight
begin

text \<open>
  The two programs: \<^verbatim>\<open>cmd/server/main.go\<close> and \<^verbatim>\<open>cmd/client/main.go\<close>, as functions of what the environment does:
  the configuration file, the logging library, what happens to the server between start and the signal,
  and, for the client, the lock and the reconnect loops. Log entries are left out. A panic, a fatal log entry
  and the exit code are values.
\<close>

datatype main_end =
    PanicConfig config_error
  | PanicLogger string
  | PanicLock string
  | IndexOutOfRange
  | Fatal string
  | Exit int

text \<open>
  \<^verbatim>\<open>newLogger\<close> of the client and of the server program: the error of parsing the level, if there is one, or of
  building the logger.
\<close>

definition newLogger :: "(string \<Rightarrow> string option) \<Rightarrow> string option \<Rightarrow> string \<Rightarrow> string option" where
  "newLogger UnmarshalText build level =
     (if level \<noteq> '''' then (case UnmarshalText level of Some err \<Rightarrow> Some err | None \<Rightarrow> build) else build)"

definition server_newLogger :: "(string \<Rightarrow> string option) \<Rightarrow> string option \<Rightarrow> string \<Rightarrow> string option" where
  "server_newLogger UnmarshalText build level =
     (if level \<noteq> '''' then (case UnmarshalText level of Some err \<Rightarrow> Some err | None \<Rightarrow> build) else build)"

text \<open>The command-line flags, as the flag package has parsed them: \<^const>\<open>None\<close> where a flag is not given.\<close>

record flags =
  fl_config :: "string option"
  fl_allow_duplicate :: "bool option"

definition string_flag :: "string option \<Rightarrow> string \<Rightarrow> string" where
  "string_flag given value = (case given of None \<Rightarrow> value | Some v \<Rightarrow> v)"

definition bool_flag :: "bool option \<Rightarrow> bool \<Rightarrow> bool" where
  "bool_flag given value = (case given of None \<Rightarrow> value | Some v \<Rightarrow> v)"

definition server_configPath :: "flags \<Rightarrow> string" where
  "server_configPath args = string_flag (fl_config args) ''configs/local/server.yaml''"

definition client_configPath :: "flags \<Rightarrow> string" where
  "client_configPath args = string_flag (fl_config args) ''configs/local/client.yaml''"

definition allowDuplicate :: "flags \<Rightarrow> bool" where
  "allowDuplicate args = bool_flag (fl_allow_duplicate args) False"

section \<open>The server program\<close>

text \<open>
  \<open>serve\<close> is what happens to the server until the signal arrives; \<open>shutdown\<close> is the error of \<^verbatim>\<open>http.Server.Shutdown\<close>
  with a context of the given timeout.
\<close>

definition server_main ::
  "pollmux_consts \<Rightarrow> viper \<Rightarrow> read_file \<Rightarrow> (string \<Rightarrow> string option) \<Rightarrow> string option \<Rightarrow> sort_slice
     \<Rightarrow> (tunnel_ptr \<Rightarrow> ClientTunnel) \<Rightarrow> 'x \<Rightarrow> int \<Rightarrow> ('x Server \<Rightarrow> 'x Server)
     \<Rightarrow> 'x transport \<Rightarrow> 'x session_store \<Rightarrow> (duration \<Rightarrow> HttpServer \<Rightarrow> string option) \<Rightarrow> flags
     \<Rightarrow> main_end \<times> 'x Server option" where
  "server_main pm vp os_ReadFile UnmarshalText build srt heap x now serve A P shutdown args =
     (case LoadServer pm vp os_ReadFile (server_configPath args) of
        Inl err \<Rightarrow> (PanicConfig err, None)
      | Inr cfg \<Rightarrow>
          (case server_newLogger UnmarshalText build (lg_Level (sc_Logging cfg)) of
             Some err \<Rightarrow> (PanicLogger err, None)
           | None \<Rightarrow>
               (case NewServer pm srt heap x cfg of
                  Inl err \<Rightarrow> (Fatal ''create server'', None)
                | Inr srv \<Rightarrow>
                    (case Start now srv of
                       (Some err, srv) \<Rightarrow> (Fatal ''start server'', Some srv)
                     | (None, srv) \<Rightarrow>
                         (case Stop A P (shutdown (tun_SessionTimeout (sc_Tunnel (sv_cfg srv)))) (serve srv) of
                            (Some err, srv) \<Rightarrow> (Exit 1, Some srv)
                          | (None, srv) \<Rightarrow> (Exit 0, Some srv))))))"

section \<open>The client program\<close>

text \<open>
  One supervisor per configuration; \<^verbatim>\<open>main\<close> waits for all of them. \<open>lock\<close> is the error of
  \<^verbatim>\<open>AcquireProcessLock\<close> where it tries to lock; with the flag \<^verbatim>\<open>-allow-duplicate\<close> it does not. The result of the services is \<^const>\<open>None\<close> where the fuel is used up.
\<close>

definition client_main ::
  "pollmux_consts \<Rightarrow> viper \<Rightarrow> read_file \<Rightarrow> (string \<Rightarrow> string option) \<Rightarrow> string option \<Rightarrow> string option
     \<Rightarrow> (string \<Rightarrow> nat \<Rightarrow> reconnect_loop) \<Rightarrow> (string \<Rightarrow> nat \<Rightarrow> bool) \<Rightarrow> nat \<Rightarrow> flags
     \<Rightarrow> main_end + (nat \<times> run_error option \<times> Checker list) option list" where
  "client_main pm vp os_ReadFile UnmarshalText build lock loops stopped fuel args =
     (case LoadClient pm vp os_ReadFile (client_configPath args) of
        Inl err \<Rightarrow> Inl (PanicConfig err)
      | Inr [] \<Rightarrow> Inl IndexOutOfRange
      | Inr (cfg0 # cfgs) \<Rightarrow>
          (case newLogger UnmarshalText build (lg_Level (cc_Logging cfg0)) of
             Some err \<Rightarrow> Inl (PanicLogger err)
           | None \<Rightarrow>
               (case (if allowDuplicate args then None else lock) of
                  Some err \<Rightarrow> Inl (PanicLock err)
                | None \<Rightarrow>
                    Inr (map (\<lambda>cfg. supervise (loops (cc_ClientID cfg)) (stopped (cc_ClientID cfg)) cfg 0 [] fuel)
                          (cfg0 # cfgs)))))"

section \<open>What the programs do\<close>

lemma NewServer_ok:
  assumes "ValidateServer pm cfg = Inr cfg'"
  shows "\<exists>sv. NewServer pm srt heap x cfg = Inr sv \<and> sv_cfg sv = cfg' \<and> \<not> sv_stopOnce sv"
  using assms by (simp add: NewServer_def Let_def split: prod.split)

lemma Start_ok:
  "(fst (Start now sv) = None) \<longleftrightarrow> tls_Disable (sc_TLS (sv_cfg sv)) \<or> tls_CacheDir (sc_TLS (sv_cfg sv)) \<noteq> ''''"
  by (simp add: Start_def setupTLS_def Let_def)

lemma LoadServer_validated:
  assumes "LoadServer pm vp rf path = Inr cfg"
  shows "\<exists>cfg0. ValidateServer pm cfg0 = Inr cfg"
  using assms by (auto simp: LoadServer_def Let_def bind_result_Inr split: option.splits)

text \<open>
  C28: the server program starts with every configuration it loads. If \<^verbatim>\<open>LoadServer\<close> accepts the file with a
  clean control path, the logger can be built and TLS is off or has a cache directory, then \<^verbatim>\<open>NewServer\<close>, which
  validates once more, accepts the same configuration unchanged, \<^verbatim>\<open>Start\<close> succeeds, the states that the program
  goes through until it ends are reachable states of the system, and it ends with exit code 0 or 1 according
  to the error of \<^verbatim>\<open>Stop\<close>.
\<close>

theorem server_main_runs:
  assumes "LoadServer pm vp rf (server_configPath args) = Inr cfg" "clean_abs (sc_ControlPath cfg)" "sc_ControlPath cfg \<noteq> ''/''"
    and "server_newLogger UnmarshalText build (lg_Level (sc_Logging cfg)) = None"
    and "tls_Disable (sc_TLS cfg) \<or> tls_CacheDir (sc_TLS cfg) \<noteq> ''''"
    and "\<And>sv. (sys_step A P closeStream pm)\<^sup>*\<^sup>* sv (serve sv)"
  shows "\<exists>sv sv1 sv2 err. NewServer pm srt heap x cfg = Inr sv \<and> sv_cfg sv = cfg \<and> Start now sv = (None, sv1) \<and>
    sys_reachable A P closeStream pm srt cfg (serve sv1) \<and>
    Stop A P (shutdown (tun_SessionTimeout (sc_Tunnel cfg))) (serve sv1) = (err, sv2) \<and>
    sys_reachable A P closeStream pm srt cfg sv2 \<and>
    server_main pm vp rf UnmarshalText build srt heap x now serve A P shutdown args =
      (Exit (if err = None then 0 else 1), Some sv2)"
proof -
  let ?sd = "shutdown (tun_SessionTimeout (sc_Tunnel cfg))"
  obtain cfg0 where "ValidateServer pm cfg0 = Inr cfg"
    using LoadServer_validated [OF assms(1)] ..
  then have "ValidateServer pm cfg = Inr cfg"
    using assms(2,3) by (rule ValidateServer_again)
  then obtain sv where sv: "NewServer pm srt heap x cfg = Inr sv" "sv_cfg sv = cfg"
    using NewServer_ok [of pm cfg cfg srt heap x] by auto
  obtain sv1 where sv1: "Start now sv = (None, sv1)"
    using Start_ok [of now sv] sv(2) assms(5) by (cases "Start now sv") auto
  have "sys_reachable A P closeStream pm srt cfg sv1"
    using sys_reachable.step [OF sys_reachable.init [OF sv(1)] sys_step.start [of A P closeStream pm sv now]] sv1 by simp
  then have served: "sys_reachable A P closeStream pm srt cfg (serve sv1)"
    by (rule reachable_steps [OF assms(6)])
  obtain err sv2 where sv2: "Stop A P ?sd (serve sv1) = (err, sv2)"
    by (cases "Stop A P ?sd (serve sv1)")
  have "sys_reachable A P closeStream pm srt cfg sv2"
    using sys_reachable.step [OF served sys_step.stop [of A P closeStream pm "serve sv1" ?sd]] sv2 by simp
  moreover have "sv_cfg sv1 = cfg"
    using Start_frame(1) [of now sv] sv(2) sv1 by simp
  ultimately show ?thesis
    using assms(1,4) sv sv1 served sv2 by (auto simp: server_main_def split: option.split)
qed

text \<open>
  C40: the client program never indexes an empty list of configurations. It ends before its services start
  only with a reported error of the configuration, the logger or the lock, and with \<^verbatim>\<open>-allow-duplicate\<close> never for
  the lock; otherwise there is one supervisor per loaded configuration, under pairwise distinct client ids,
  and the program waits for all of them.
\<close>

theorem client_main_services:
  "case client_main pm vp rf UnmarshalText build lock loops stopped fuel args of
     Inl e \<Rightarrow> e \<noteq> IndexOutOfRange \<and>
       (LoadClient pm vp rf (client_configPath args) \<in> range Inl \<or> e \<in> range PanicLogger \<or>
        e \<in> range PanicLock \<and> lock \<noteq> None \<and> \<not> allowDuplicate args)
   | Inr results \<Rightarrow>
       (\<exists>cfgs. LoadClient pm vp rf (client_configPath args) = Inr cfgs \<and> cfgs \<noteq> [] \<and> distinct (map cc_ClientID cfgs) \<and>
          list_all2 (\<lambda>cfg r. r = supervise (loops (cc_ClientID cfg)) (stopped (cc_ClientID cfg)) cfg 0 [] fuel) cfgs results)"
proof (cases "LoadClient pm vp rf (client_configPath args)")
  case (Inr cfgs)
  then obtain cfg0 cfgs' where "cfgs = cfg0 # cfgs'" "distinct (map cc_ClientID cfgs)"
    using LoadClient_contract [OF Inr] by (cases cfgs) auto
  with Inr show ?thesis
    by (auto simp: client_main_def list.rel_map split: option.split intro!: list.rel_refl)
qed (simp add: client_main_def)

text \<open>The example with TLS off.\<close>

definition example_plain :: viper where
  "example_plain = (example_viper [])\<lparr>UnmarshalServer := (\<lambda>_ base. Inr (base\<lparr>sc_RootDomain := ''ex.com'',
     sc_TLS := \<lparr>tls_CacheDir = '''', tls_Email = '''', tls_Disable = True\<rparr>, sc_Clients := [example_binding]\<rparr>))\<rparr>"

lemma example_plain_loads:
  "\<exists>cfg. LoadServer example_consts example_plain (\<lambda>_. Inr (example_token @ ''\<newline>'')) ''/etc/s.yaml'' = Inr cfg \<and>
     sc_ControlPath cfg = ''/tunnel'' \<and> tls_Disable (sc_TLS cfg)"
  by (simp add: example_plain_def load_server_exec validateControlPath_rooted clean_absD [OF clean_abs_tunnel])

definition example_flags :: flags where
  "example_flags = \<lparr>fl_config = Some ''/etc/s.yaml'', fl_allow_duplicate = None\<rparr>"

theorem server_main_runs_witness:
  "fst (server_main example_consts example_plain (\<lambda>_. Inr (example_token @ ''\<newline>'')) (\<lambda>_. None) None
     sort_routes example_heap ({}, {}) 0 (\<lambda>sv. sv) example_transport example_store (\<lambda>_ _. None) example_flags)
     \<in> {Exit 0, Exit 1}"
proof -
  have path: "server_configPath example_flags = ''/etc/s.yaml''"
    by (simp add: server_configPath_def string_flag_def example_flags_def)
  obtain cfg where cfg: "LoadServer example_consts example_plain (\<lambda>_. Inr (example_token @ ''\<newline>'')) ''/etc/s.yaml'' = Inr cfg"
    "sc_ControlPath cfg = ''/tunnel''" "tls_Disable (sc_TLS cfg)"
    using example_plain_loads by blast
  have logger: "server_newLogger (\<lambda>_. None) None level = None" for level
    by (simp add: server_newLogger_def)
  have "\<exists>sv sv1 sv2 err. NewServer example_consts sort_routes example_heap ({}, {}) cfg = Inr sv \<and> sv_cfg sv = cfg \<and>
      Start 0 sv = (None, sv1) \<and>
      sys_reachable example_transport example_store (\<lambda>x _. (x, None)) example_consts sort_routes cfg ((\<lambda>sv. sv) sv1) \<and>
      Stop example_transport example_store ((\<lambda>_ _. None) (tun_SessionTimeout (sc_Tunnel cfg))) ((\<lambda>sv. sv) sv1) = (err, sv2) \<and>
      sys_reachable example_transport example_store (\<lambda>x _. (x, None)) example_consts sort_routes cfg sv2 \<and>
      server_main example_consts example_plain (\<lambda>_. Inr (example_token @ ''\<newline>'')) (\<lambda>_. None) None
        sort_routes example_heap ({}, {}) 0 (\<lambda>sv. sv) example_transport example_store (\<lambda>_ _. None) example_flags
      = (Exit (if err = None then 0 else 1), Some sv2)"
    by (rule server_main_runs [OF cfg(1) [folded path], where serve = "\<lambda>sv. sv" and closeStream = "\<lambda>x _. (x, None)"])
       (use clean_abs_tunnel cfg(2,3) logger in simp_all)
  then show ?thesis
    by (elim exE conjE) simp
qed

end
