(* ===== verification/Exchange.thy ===== *)
theory Exchange
  imports Proxy Bridge
begin

text \<open>
  One exchange from end to end: the reverse proxy of the server writes the rewritten request to a stream of the
  tunnel, the stream handler of the client bridges the stream to the local service, and the answer of the
  service comes back the same way. The two halves are modelled in \<^verbatim>\<open>Proxy\<close> and \<^verbatim>\<open>Bridge\<close>; here they are put
  together, with the local service, and the coding of requests and responses by \<^verbatim>\<open>net/http\<close>, as arguments.
\<close>

section \<open>The round trip over a stream\<close>

text \<open>
  A round trip as the transport of the reverse proxy sees it. \<open>wire\<close> gives the bytes of a request, \<open>parse\<close> the
  response from the bytes that come back, \<open>service\<close> what the local service sends when it has received some
  bytes. Both connections are new when \<^verbatim>\<open>Handle\<close> gets them, and it ends without error.
\<close>

inductive tunnel_round_trip ::
  "http_lib \<Rightarrow> bool \<Rightarrow> StreamHandler \<Rightarrow> (Request \<Rightarrow> string) \<Rightarrow> (string \<Rightarrow> string) \<Rightarrow> (string \<Rightarrow> proxy_error + Response)
     \<Rightarrow> Request \<Rightarrow> proxy_error + Response \<Rightarrow> bool"
  for lib faulty h wire service parse where
  handled: "open_conn stream \<Longrightarrow> cn_pos stream = 0 \<Longrightarrow> cn_out stream = '''' \<Longrightarrow>
     open_conn local \<Longrightarrow> cn_pos local = 0 \<Longrightarrow> cn_out local = '''' \<Longrightarrow>
     Handle lib faulty h stream (Some local) stream' (Some local') None \<Longrightarrow>
     cn_sent stream' = wire out \<Longrightarrow> cn_sent local' = service (cn_out local') \<Longrightarrow>
     tunnel_round_trip lib faulty h wire service parse out (parse (cn_out stream'))"

inductive_cases tunnel_round_tripE: "tunnel_round_trip lib faulty h wire service parse out res"

text \<open>What the local service receives for the bytes of a request.\<close>

definition seen_by_service :: "http_lib \<Rightarrow> StreamHandler \<Rightarrow> string \<Rightarrow> string \<Rightarrow> bool" where
  "seen_by_service lib h bs received \<longleftrightarrow>
     (if sh_hostRewrite h = '''' then received = bs else host_rewritten lib (sh_hostRewrite h) bs received)"

lemma round_trip_result:
  assumes "tunnel_round_trip lib faulty h wire service parse out res"
  obtains received where "seen_by_service lib h (wire out) received" "res = parse (service received)"
  using assms
proof (rule tunnel_round_tripE)
  fix stream local stream' local'
  assume op: "open_conn stream" "open_conn local"
    and handle: "Handle lib faulty h stream (Some local) stream' (Some local') None"
    and new: "cn_pos stream = 0" "cn_out stream = ''''" "cn_pos local = 0" "cn_out local = ''''"
    and sent: "cn_sent stream' = wire out" "cn_sent local' = service (cn_out local')"
    and res: "res = parse (cn_out stream')"
  show thesis
    using Handle_complete [OF op handle] new sent res
    by (intro that [of "cn_out local'"]) (auto simp: seen_by_service_def Let_def)
qed

section \<open>The whole exchange\<close>

text \<open>
  C7: an exchange from end to end. If the reverse proxy can dial the tunnel of the request, and the client
  handles the stream without error, then the answer to the request is what the local service answers to the
  rewritten request (with the new host, where the client is configured with one), with the public prefix put back
  into its headers, or the reply of the error handler if these bytes are no response; nothing is lost, added
  or reordered on the way, whatever the interleaving of the copies, and no stream stays open in the count.
\<close>

theorem exchange_end_to_end:
  assumes "fst (DialContext A (Some ctx) reg) = DialConn c"
    and "tunnel_round_trip lib faulty h wire service parse (proxy_Rewrite (Some ctx) r (prepare r))
      (backend (proxy_Rewrite (Some ctx) r (prepare r)))"
  shows "\<exists>received. seen_by_service lib h (wire (proxy_Rewrite (Some ctx) r (prepare r))) received \<and>
    fst (reverse_proxy A closeStream prepare backend (Some ctx) r reg) =
      Some (case parse (service received) of
              Inl e \<Rightarrow> proxyErrorHandler e
            | Inr resp \<Rightarrow> modifyProxyResponse (Some (Some ctx)) resp) \<and>
    ct_ActiveStreams (rs_tunnels (snd (reverse_proxy A closeStream prepare backend (Some ctx) r reg)) t) =
      ct_ActiveStreams (rs_tunnels reg t)"
proof -
  obtain received where received: "seen_by_service lib h (wire (proxy_Rewrite (Some ctx) r (prepare r))) received"
    "backend (proxy_Rewrite (Some ctx) r (prepare r)) = parse (service received)"
    by (rule round_trip_result [OF assms(2)])
  obtain reg' where dial: "DialContext A (Some ctx) reg = (DialConn c, reg')"
    using assms(1) by (cases "DialContext A (Some ctx) reg") simp
  have "fst (reverse_proxy A closeStream prepare backend (Some ctx) r reg) =
      Some (case backend (proxy_Rewrite (Some ctx) r (prepare r)) of
              Inl e \<Rightarrow> proxyErrorHandler e
            | Inr resp \<Rightarrow> modifyProxyResponse (Some (Some ctx)) resp)"
    by (simp add: reverse_proxy_def Let_def dial)
  with received exchange_balanced show ?thesis
    by metis
qed

section \<open>Witness\<close>

text \<open>A service that answers \<^verbatim>\<open>pong\<close> and a client without host rewrite.\<close>

definition example_plain :: StreamHandler where
  "example_plain = NewStreamHandler \<lparr>lc_Target = ''127.0.0.1:8080'', lc_HostRewrite = ''''\<rparr> 0"

definition example_parse :: "string \<Rightarrow> proxy_error + Response" where
  "example_parse bs = (if bs = ''pong'' then Inr \<lparr>rp_Status = 200, rp_Header = (\<lambda>_. []), rp_Body = ErrorBody ''''\<rparr>
     else Inl (OtherError ''malformed response''))"

lemma example_round_trip:
  "tunnel_round_trip example_lib False example_plain (\<lambda>_. ''ping'') (\<lambda>_. ''pong'') example_parse out (example_parse ''pong'')"
proof -
  let ?a = "example_conn ''ping''" and ?b = "example_conn ''pong''"
  obtain s where s: "runs bridge_exec example_schedule (bridge_init ?a ?b) = Some s" "br_ret s = Some None"
    "cn_sent (br_a s) = ''ping''" "cn_sent (br_b s) = ''pong''" "cn_out (br_a s) = ''pong''"
    by (simp add: example_schedule_def bridge_init_def example_conn_def CloseWrite_def)
  then have "(bridge_step False)\<^sup>*\<^sup>* (bridge_init ?a ?b) s"
    using bridge_runs(2) by blast
  then have "Handle example_lib False example_plain ?a (Some ?b) (Close (br_a s)) (Some (Close (br_b s))) None"
    using s(2) by (intro Handle.plain) (simp_all add: example_plain_def NewStreamHandler_def)
  from tunnel_round_trip.handled [OF example_open _ _ example_open _ _ this, of "\<lambda>_. ''ping''" out "\<lambda>_. ''pong''" example_parse]
  show ?thesis
    using s by (simp add: example_conn_def)
qed

theorem exchange_end_to_end_witness:
  "\<exists>resp. fst (reverse_proxy example_transport example_close (\<lambda>r. r) (\<lambda>_. example_parse ''pong'')
      (Some \<lparr>pc_tunnel = Some 0, pc_strip = ''''\<rparr>) (example_request ''GET'' ''/index'' ''x'') (sv_registry example_connected)) =
      Some resp \<and> rp_Status resp = 200"
proof -
  have "case fst (DialContext example_transport (Some \<lparr>pc_tunnel = Some 0, pc_strip = ''''\<rparr>) (sv_registry example_connected)) of
      DialConn c \<Rightarrow> True | _ \<Rightarrow> False"
    by code_simp
  then obtain c where "fst (DialContext example_transport (Some \<lparr>pc_tunnel = Some 0, pc_strip = ''''\<rparr>)
      (sv_registry example_connected)) = DialConn c"
    by (auto split: dial_result.splits)
  from exchange_end_to_end [OF this, where prepare = "\<lambda>r. r" and backend = "\<lambda>_. example_parse ''pong''"
      and r = "example_request ''GET'' ''/index'' ''x''" and closeStream = example_close, OF example_round_trip]
  show ?thesis
    by (simp add: example_parse_def modifyProxyResponse_def)
qed

end
