(* ===== verification/Stream_Limit.thy ===== *)
theory Stream_Limit
  imports Drain
begin

text \<open>
  The limit on the streams of a tunnel under concurrency. A request is checked by \<^verbatim>\<open>servePublic\<close> and opens its
  stream later, when the reverse proxy dials; the connection is closed when the exchange is over. Between
  these points other requests and any other events of the server happen. The result: the counter of
  every tunnel is exact, and it exceeds the configured limit by less than the number of requests that are
  between check and dial at the same time; two such requests do exceed it.
\<close>

section \<open>What changes the counters\<close>

abbreviation streams :: "'x Server \<Rightarrow> tunnel_ptr \<Rightarrow> int" where
  "streams sv t \<equiv> ct_ActiveStreams (rs_tunnels (sv_registry sv) t)"

lemma Pool_Add_keeps_streams:
  "ct_ActiveStreams (rs_tunnels (snd (Pool_Add p t mx d st)) u) = ct_ActiveStreams (rs_tunnels st u)"
  by (simp add: Pool_Add_def split: option.split)

lemma Register_streams:
  "ct_ActiveStreams (rs_tunnels (snd (Register A t mx st)) u) = ct_ActiveStreams (rs_tunnels st u)"
proof -
  have "ct_ActiveStreams (rs_tunnels (snd (register_in A p t mx st)) u) = ct_ActiveStreams (rs_tunnels st u)" for p st
  proof -
    define st1 where "st1 = drop_session A (Pool_ByID st p (tunnel_ID st t)) st"
    obtain err st2 where add: "Pool_Add p t mx (rs_supersedeDrainTimeout st1) st1 = (err, st2)"
      by fastforce
    have "ct_ActiveStreams (rs_tunnels st2 v) = ct_ActiveStreams (rs_tunnels st v)" for v
      using Pool_Add_keeps_streams [of p t mx "rs_supersedeDrainTimeout st1" st1 v] by (simp add: add) (simp add: st1_def)
    then show ?thesis
      by (simp add: register_in_def Let_def add [unfolded st1_def] split: option.split)
  qed
  then show ?thesis
    by (simp add: Register_def case_prod_beta Let_def)
qed

text \<open>The counters of the tunnels that exist are unchanged, and those of new tunnels are zero.\<close>

definition keeps_streams :: "'x Server \<Rightarrow> 'x Server \<Rightarrow> bool" where
  "keeps_streams sv sv' \<longleftrightarrow>
     sv_nextTunnel sv \<le> sv_nextTunnel sv' \<and>
     (\<forall>t < sv_nextTunnel sv'. streams sv' t = (if t < sv_nextTunnel sv then streams sv t else 0))"

lemma keeps_streamsI:
  "sv_nextTunnel sv' = sv_nextTunnel sv \<Longrightarrow> (\<And>t. t < sv_nextTunnel sv \<Longrightarrow> streams sv' t = streams sv t) \<Longrightarrow>
   keeps_streams sv sv'"
  by (simp add: keeps_streams_def)

lemma onConnect_streams: "keeps_streams sv (snd (onConnect A now s meta sv))"
proof -
  obtain x ys where cs: "ClientSession A (rs_ext (sv_registry sv)) s = (x, ys)"
    by fastforce
  show ?thesis
  proof (cases "\<exists>y b. ys = Inr y \<and> Lookup (sv_clients sv) (map_get meta ''client_id'') = Some b")
    case False
    then show ?thesis
      using cs by (cases ys; cases "Lookup (sv_clients sv) (map_get meta ''client_id'')")
        (simp_all add: onConnect_def keeps_streams_def)
  next
    case True
    then obtain y b where y: "ys = Inr y" "Lookup (sv_clients sv) (map_get meta ''client_id'') = Some b"
      by blast
    let ?t = "sv_nextTunnel sv" and ?sv' = "snd (onConnect A now s meta sv)"
    let ?reg0 = "with_tunnel now (map_get meta ''client_id'') b s y x sv"
    have next': "sv_nextTunnel ?sv' = Suc ?t"
      using onConnect_known [OF cs [unfolded y(1)] y(2), of now]
      by (simp split: prod.split option.split registry_error.split)
    have "streams ?sv' u = ct_ActiveStreams (rs_tunnels ?reg0 u)" for u
      using onConnect_known [OF cs [unfolded y(1)] y(2), of now] Register_streams [of A ?t "cb_MaxClients b" ?reg0 u]
      by (auto split: prod.splits option.splits)
    then show ?thesis
      by (simp add: keeps_streams_def next' less_Suc_eq new_tunnel_def)
  qed
qed

lemma onDisconnect_streams: "streams (onDisconnect A s sv) t = streams sv t"
  by (simp add: onDisconnect_def Let_def split: option.split)

lemma CloseSession_streams: "streams (CloseSession A P s sv) t = streams sv t"
  by (simp add: CloseSession_def onDisconnect_streams case_prod_beta Let_def)

lemma Stop_streams: "streams (snd (Stop A P sd sv)) t = streams sv t"
proof -
  have "streams (fold (CloseSession A P) ss sv) t = streams sv t" for ss and sv
    by (induction ss arbitrary: sv) (simp_all add: CloseSession_streams)
  then show ?thesis
    by (simp add: Stop_def Let_def)
qed

text \<open>Only opening and closing a stream change a counter.\<close>

lemma sys_step_streams:
  assumes "sys_step A P closeStream pm sv sv'"
  shows "keeps_streams sv sv' \<or> (\<exists>t. sv' = upd_registry (\<lambda>reg. snd (OpenStream A t reg)) sv)
    \<or> (\<exists>c. sv' = upd_registry (\<lambda>reg. snd (countedConn_Close closeStream c reg)) sv)"
  using assms
proof cases
  case (connect s now meta)
  then show ?thesis by (simp add: onConnect_streams)
next
  case (disconnect s)
  then have "keeps_streams sv sv'"
    by (intro keeps_streamsI) (simp_all add: onDisconnect_streams, simp add: onDisconnect_def)
  then show ?thesis ..
next
  case (close_session s)
  then have "keeps_streams sv sv'"
    by (intro keeps_streamsI) (simp_all add: CloseSession_streams, simp add: CloseSession_def onDisconnect_def case_prod_beta Let_def)
  then show ?thesis ..
next
  case (stop sd)
  then show ?thesis by (intro disjI1 keeps_streamsI) (simp_all add: Stop_streams Stop_nextTunnel)
next
  case (request r)
  obtain reg where "snd (servePublic A r sv) = sv\<lparr>sv_registry := reg\<rparr>"
    "reg = sv_registry sv \<or> (\<exists>p. reg = snd (Pool_Pick A p (sv_registry sv)))"
    using servePublic_registry [of A r sv] by blast
  with request show ?thesis by (intro disjI1 keeps_streamsI) auto
qed (auto intro!: keeps_streamsI simp: Start_frame stop_exec_frame StartOnListener_def onPoll_def SetLocalHealth_def Let_def
       split: option.split)

section \<open>Requests between check and dial\<close>

text \<open>
  The server together with the requests that \<^verbatim>\<open>servePublic\<close> has forwarded and whose reverse proxy has not
  dialled yet, at most \<open>K\<close> at a time, and the open connections. Every connection is closed once, when its
  exchange is over. A forwarded request may also end without a dial. \<open>other\<close> is any event of the server that
  changes no counter: by \<open>sys_step_streams\<close> these are all but the dials and closings that have rules of their own.
\<close>

inductive load_step ::
  "'x transport \<Rightarrow> 'x session_store \<Rightarrow> ('x \<Rightarrow> nat \<Rightarrow> 'x \<times> string option) \<Rightarrow> pollmux_consts \<Rightarrow> nat
     \<Rightarrow> 'x Server \<times> proxyCtx list \<times> countedConn list \<Rightarrow> 'x Server \<times> proxyCtx list \<times> countedConn list \<Rightarrow> bool"
  for A P closeStream pm K where
  admitted: "servePublic A r sv = (Forward ctx, sv') \<Longrightarrow> length adm < K \<Longrightarrow>
    load_step A P closeStream pm K (sv, adm, conns) (sv', ctx # adm, conns)"
| dialled: "ctx \<in> set adm \<Longrightarrow> DialContext A (Some ctx) (sv_registry sv) = (DialConn c, reg) \<Longrightarrow>
    load_step A P closeStream pm K (sv, adm, conns) (sv\<lparr>sv_registry := reg\<rparr>, remove1 ctx adm, c # conns)"
| dial_failed: "ctx \<in> set adm \<Longrightarrow> DialContext A (Some ctx) (sv_registry sv) = (DialError e, reg) \<Longrightarrow>
    load_step A P closeStream pm K (sv, adm, conns) (sv\<lparr>sv_registry := reg\<rparr>, remove1 ctx adm, conns)"
| abandoned: "ctx \<in> set adm \<Longrightarrow> load_step A P closeStream pm K (sv, adm, conns) (sv, remove1 ctx adm, conns)"
| closed: "c \<in> set conns \<Longrightarrow>
    load_step A P closeStream pm K (sv, adm, conns)
      (upd_registry (\<lambda>reg. snd (countedConn_Close closeStream c reg)) sv, adm, remove1 c conns)"
| other: "sys_step A P closeStream pm sv sv' \<Longrightarrow> (\<And>t. t < sv_nextTunnel sv \<Longrightarrow> streams sv' t = streams sv t) \<Longrightarrow>
    load_step A P closeStream pm K (sv, adm, conns) (sv', adm, conns)"

abbreviation adm_of :: "tunnel_ptr \<Rightarrow> proxyCtx list \<Rightarrow> int" where
  "adm_of t adm \<equiv> int (length (filter (\<lambda>ctx. pc_tunnel ctx = Some t) adm))"

abbreviation stream_limit :: "'x Server \<Rightarrow> int" where
  "stream_limit sv \<equiv> tun_MaxStreamsPerTunnel (sc_Tunnel (sv_cfg sv))"

text \<open>
  The counters are exact; connections and pending requests use tunnels that exist; and the connections of a
  tunnel together with its pending requests are bounded.
\<close>

definition load_inv :: "nat \<Rightarrow> 'x Server \<times> proxyCtx list \<times> countedConn list \<Rightarrow> bool" where
  "load_inv K s \<longleftrightarrow> (case s of (sv, adm, conns) \<Rightarrow>
     length adm \<le> K \<and>
     (\<forall>ctx \<in> set adm. \<exists>t. pc_tunnel ctx = Some t \<and> t < sv_nextTunnel sv) \<and>
     (\<forall>c \<in> set conns. cn_tunnel c < sv_nextTunnel sv) \<and>
     (\<forall>t < sv_nextTunnel sv. streams sv t = conns_of t conns) \<and>
     (\<forall>t < sv_nextTunnel sv. conns_of t conns + adm_of t adm \<le> max 0 (stream_limit sv + int K - 1)))"

lemma load_step_sys:
  assumes "load_step A P closeStream pm K (sv, adm, conns) (sv', adm', conns')"
  shows "sv' = sv \<or> sys_step A P closeStream pm sv sv'"
proof -
  have dial: "sv\<lparr>sv_registry := reg\<rparr> = sv \<or> sys_step A P closeStream pm sv (sv\<lparr>sv_registry := reg\<rparr>)"
    if "DialContext A (Some ctx) (sv_registry sv) = (res, reg)" for ctx res reg
    using that sys_step.dial [of A P closeStream pm sv "the (pc_tunnel ctx)"]
    by (auto simp: DialContext_def split: option.splits)
  from assms show ?thesis
  proof (cases rule: load_step.cases)
    case (admitted r ctx)
    then show ?thesis using sys_step.request [of A P closeStream pm sv r] by simp
  qed (use dial in \<open>auto intro: sys_step.close\<close>)
qed

lemma load_step_admitted:
  assumes inv: "load_inv K (sv, adm, conns)" and serve: "servePublic A r sv = (Forward ctx, sv')" "length adm < K"
    and ctx: "pc_tunnel ctx = Some t" "t < sv_nextTunnel sv"
  shows "load_inv K (sv', ctx # adm, conns)"
proof -
  have same: "sv_nextTunnel sv' = sv_nextTunnel sv" "sv_cfg sv' = sv_cfg sv" "streams sv' u = streams sv u" for u
    using servePublic_registry [of A r sv] serve(1) by auto
  have "streams sv t < stream_limit sv"
    using serve(1) by (rule forward_cases) (use ctx(1) in \<open>simp add: forward_ctx_def\<close>)
  moreover have "streams sv t = conns_of t conns"
    using inv ctx(2) by (simp add: load_inv_def)
  moreover have "adm_of t adm < int K"
    using serve(2) length_filter_le [of "\<lambda>ctx. pc_tunnel ctx = Some t" adm] by linarith
  ultimately have "conns_of t conns + (1 + adm_of t adm) \<le> max 0 (stream_limit sv + int K - 1)"
    by linarith
  then show ?thesis
    using inv serve(2) ctx by (auto simp: load_inv_def same)
qed

text \<open>A request that leaves the list of pending ones, with or without a connection.\<close>

lemma load_step_left:
  assumes inv: "load_inv K (sv, adm, conns)" and ctx: "ctx \<in> set adm" "pc_tunnel ctx = Some t"
    and sv': "sv_nextTunnel sv' = sv_nextTunnel sv" "sv_cfg sv' = sv_cfg sv"
  shows "(\<And>u. streams sv' u = streams sv u) \<Longrightarrow> load_inv K (sv', remove1 ctx adm, conns)"
    and "cn_tunnel c = t \<Longrightarrow> (\<And>u. streams sv' u = streams sv u + (if u = t then 1 else 0)) \<Longrightarrow>
      load_inv K (sv', remove1 ctx adm, c # conns)"
proof -
  have adm: "adm_of u adm = adm_of u (remove1 ctx adm) + (if u = t then 1 else 0)" for u
    using filter_remove1_length [OF ctx(1), of "\<lambda>ctx. pc_tunnel ctx = Some u"] ctx(2) by auto
  have rest: "length (remove1 ctx adm) \<le> K" "set (remove1 ctx adm) \<subseteq> set adm"
    using inv by (auto simp: load_inv_def length_remove1 set_remove1_subset)
  have t: "t < sv_nextTunnel sv"
    using inv ctx by (auto simp: load_inv_def)
  have bound: "conns_of u conns + adm_of u adm \<le> max 0 (stream_limit sv + int K - 1)" if "u < sv_nextTunnel sv" for u
    using inv that by (simp add: load_inv_def)
  show "load_inv K (sv', remove1 ctx adm, conns)" if "\<And>u. streams sv' u = streams sv u"
  proof -
    have "conns_of u conns + adm_of u (remove1 ctx adm) \<le> max 0 (stream_limit sv + int K - 1)"
      if "u < sv_nextTunnel sv" for u
      using bound [OF that] adm [of u] by (simp split: if_splits)
    with inv rest that show ?thesis
      by (auto simp: load_inv_def sv')
  qed
  show "load_inv K (sv', remove1 ctx adm, c # conns)"
    if "cn_tunnel c = t" "\<And>u. streams sv' u = streams sv u + (if u = t then 1 else 0)"
  proof -
    have "conns_of u (c # conns) + adm_of u (remove1 ctx adm) \<le> max 0 (stream_limit sv + int K - 1)"
      if "u < sv_nextTunnel sv" for u
      using bound [OF that] adm [of u] \<open>cn_tunnel c = t\<close> by (simp split: if_splits)
    with inv rest t that show ?thesis
      by (auto simp: load_inv_def sv')
  qed
qed

lemma load_step_closed:
  assumes inv: "load_inv K (sv, adm, conns)" and c: "c \<in> set conns"
  shows "load_inv K (upd_registry (\<lambda>reg. snd (countedConn_Close closeStream c reg)) sv, adm, remove1 c conns)"
proof -
  let ?sv' = "upd_registry (\<lambda>reg. snd (countedConn_Close closeStream c reg)) sv"
  have streams: "streams ?sv' u = streams sv u - (if u = cn_tunnel c then 1 else 0)" for u
    by (simp add: countedConn_Close_def case_prod_beta Let_def)
  have conns: "conns_of u conns = conns_of u (remove1 c conns) + (if u = cn_tunnel c then 1 else 0)" for u
    using filter_remove1_length [OF c, of "\<lambda>c. cn_tunnel c = u"] by auto
  have "conns_of u (remove1 c conns) + adm_of u adm \<le> max 0 (stream_limit sv + int K - 1)" if "u < sv_nextTunnel sv" for u
    using inv that conns [of u] by (auto simp: load_inv_def split: if_splits)
  moreover have "streams ?sv' u = conns_of u (remove1 c conns)" if "u < sv_nextTunnel sv" for u
    using inv that conns [of u] streams [of u] by (simp add: load_inv_def)
  ultimately show ?thesis
    using inv set_remove1_subset [of c conns] by (auto simp: load_inv_def)
qed

lemma load_step_other:
  assumes inv: "load_inv K (sv, adm, conns)" and step: "keeps_streams sv sv'" "sv_cfg sv' = sv_cfg sv"
  shows "load_inv K (sv', adm, conns)"
proof -
  have none: "conns_of u conns = 0" "adm_of u adm = 0" if "\<not> u < sv_nextTunnel sv" for u
    using inv that by (auto simp: load_inv_def filter_empty_conv)
  have "streams sv' u = conns_of u conns" if "u < sv_nextTunnel sv'" for u
    using inv step(1) that none(1) [of u] by (auto simp: load_inv_def keeps_streams_def)
  moreover have "conns_of u conns + adm_of u adm \<le> max 0 (stream_limit sv + int K - 1)" for u
    using inv none [of u] by (cases "u < sv_nextTunnel sv") (auto simp: load_inv_def)
  moreover have "sv_nextTunnel sv \<le> sv_nextTunnel sv'"
    using step(1) by (simp add: keeps_streams_def)
  ultimately show ?thesis
    using inv step(2) by (auto simp: load_inv_def dest: less_le_trans)
qed

lemma load_step_inv:
  assumes "load_step A P closeStream pm K (sv, adm, conns) (sv', adm', conns')" "load_inv K (sv, adm, conns)"
    and "route_sorter srt" "sys_reachable A P closeStream pm srt cfg sv"
  shows "load_inv K (sv', adm', conns')"
  using assms(1)
proof (cases rule: load_step.cases)
  case (admitted r ctx)
  then show ?thesis
    using load_step_admitted [OF assms(2)] forwarded_allocated [OF assms(3,4)] by metis
next
  case (dialled ctx c reg)
  obtain t where t: "pc_tunnel ctx = Some t" "OpenStream A t (sv_registry sv) = (DialConn c, reg)"
    using dialled(5) by (auto simp: DialContext_def split: option.splits)
  show ?thesis
    unfolding dialled(1-3) using OpenStream_conn [OF t(2)]
    by (intro load_step_left(2) [OF assms(2) dialled(4) t(1)]) simp_all
next
  case (dial_failed ctx e reg)
  obtain t where t: "pc_tunnel ctx = Some t"
    using dial_failed(4) assms(2) by (auto simp: load_inv_def)
  then have "OpenStream A t (sv_registry sv) = (DialError e, reg)"
    using dial_failed(5) by (simp add: DialContext_def)
  from OpenStream_error [OF this] show ?thesis
    unfolding dial_failed(1-3) by (intro load_step_left(1) [OF assms(2) dial_failed(4) t]) simp_all
next
  case (abandoned ctx)
  obtain t where t: "pc_tunnel ctx = Some t"
    using abandoned(4) assms(2) by (auto simp: load_inv_def)
  show ?thesis
    unfolding abandoned(1-3) by (intro load_step_left(1) [OF assms(2) abandoned(4) t]) simp_all
next
  case (closed c)
  then show ?thesis using load_step_closed [OF assms(2)] by simp
next
  case other
  note inv = sys_reachable_inv [OF assms(3,4), unfolded sys_inv_def, THEN conjunct1]
  have "keeps_streams sv sv'"
    using sys_step_streams [OF other(3)] other(4) by (auto intro: keeps_streamsI)
  moreover have "sv_cfg sv' = sv_cfg sv"
    using sys_step_inv [OF other(3) inv] by (simp add: same_names_def)
  ultimately show ?thesis
    using load_step_other [OF assms(2)] other(1,2) by simp
qed

lemma load_steps_inv:
  assumes "(load_step A P closeStream pm K)\<^sup>*\<^sup>* s s'" "route_sorter srt"
    and "load_inv K s" "sys_reachable A P closeStream pm srt cfg (fst s)"
  shows "load_inv K s' \<and> sys_reachable A P closeStream pm srt cfg (fst s')"
  using assms(1)
proof (induction rule: rtranclp_induct)
  case (step s1 s2)
  obtain sv adm conns sv' adm' conns' where s: "s1 = (sv, adm, conns)" "s2 = (sv', adm', conns')"
    by (cases s1, cases s2)
  show ?case
    using step.IH load_step_sys [OF step.hyps(2) [unfolded s]] load_step_inv [OF step.hyps(2) [unfolded s] _ assms(2)]
    by (auto simp: s intro: sys_reachable.step)
qed (use assms in simp)

section \<open>The bound\<close>

text \<open>
  C21: the stream counters under concurrency. Let a new server run through any interleaving of requests, dials,
  closings and all other events, where at most \<open>K\<close> requests at a time have been forwarded and have not dialled,
  and every connection is closed once. Then the counter of every tunnel is the number of its open connections,
  and it is at most the configured limit of streams per tunnel plus \<open>K - 1\<close> (never negative). With requests that
  follow each other, the limit is never exceeded.
\<close>

theorem stream_count_exact:
  assumes "route_sorter srt" "NewServer pm srt heap x cfg = Inr sv0"
    and "(load_step A P closeStream pm K)\<^sup>*\<^sup>* (sv0, [], []) (sv, adm, conns)" "t < sv_nextTunnel sv"
  shows "ct_ActiveStreams (rs_tunnels (sv_registry sv) t) = conns_of t conns \<and>
    ct_ActiveStreams (rs_tunnels (sv_registry sv) t)
      \<le> max 0 (tun_MaxStreamsPerTunnel (sc_Tunnel (sv_cfg sv)) + int K - 1)"
proof -
  have "sv_nextTunnel sv0 = 0"
    using assms(2) by (auto simp: NewServer_def bind_result_Inr Let_def case_prod_beta)
  then have "load_inv K (sv0, [], [])"
    by (simp add: load_inv_def)
  from load_steps_inv [OF assms(3,1) this] sys_reachable.init [OF assms(2)]
  have inv: "load_inv K (sv, adm, conns)"
    by (metis fst_conv)
  then have "streams sv t = conns_of t conns"
    "conns_of t conns + adm_of t adm \<le> max 0 (stream_limit sv + int K - 1)"
    using assms(4) by (simp_all add: load_inv_def)
  then show ?thesis
    by linarith
qed

section \<open>Runs\<close>

datatype load_event = Connect session_ptr | Serve Request | DialFor proxyCtx | HangUp countedConn

fun load_exec ::
  "'x transport \<Rightarrow> ('x \<Rightarrow> nat \<Rightarrow> 'x \<times> string option) \<Rightarrow> nat \<Rightarrow> load_event
     \<Rightarrow> 'x Server \<times> proxyCtx list \<times> countedConn list \<Rightarrow> ('x Server \<times> proxyCtx list \<times> countedConn list) option" where
  "load_exec A closeStream K (Connect s) (sv, adm, conns) =
     (if Option.is_none (GetBySessionID (sv_registry sv) (session_ID A s))
      then Some (snd (onConnect A 0 s example_meta sv), adm, conns) else None)"
| "load_exec A closeStream K (Serve r) (sv, adm, conns) =
     (case servePublic A r sv of
        (Forward ctx, sv') \<Rightarrow> if length adm < K then Some (sv', ctx # adm, conns) else None
      | (PublicReply _, _) \<Rightarrow> None)"
| "load_exec A closeStream K (DialFor ctx) (sv, adm, conns) =
     (if ctx \<in> set adm then
        (case DialContext A (Some ctx) (sv_registry sv) of
           (DialConn c, reg) \<Rightarrow> Some (sv\<lparr>sv_registry := reg\<rparr>, remove1 ctx adm, c # conns)
         | (DialError e, reg) \<Rightarrow> Some (sv\<lparr>sv_registry := reg\<rparr>, remove1 ctx adm, conns)
         | (DialPanic, reg) \<Rightarrow> None)
      else None)"
| "load_exec A closeStream K (HangUp c) (sv, adm, conns) =
     (if c \<in> set conns
      then Some (upd_registry (\<lambda>reg. snd (countedConn_Close closeStream c reg)) sv, adm, remove1 c conns) else None)"

lemma load_exec_step:
  assumes "load_exec A closeStream K e s = Some s'"
  shows "load_step A P closeStream pm K s s'"
proof -
  obtain sv adm conns where s: "s = (sv, adm, conns)"
    by (cases s)
  have connect: "load_step A P closeStream pm K (sv, adm, conns) (snd (onConnect A 0 s example_meta sv), adm, conns)"
    if "GetBySessionID (sv_registry sv) (session_ID A s) = None" for s
    using sys_step.connect [OF that] onConnect_streams [of sv A 0 s example_meta]
    by (intro load_step.other) (simp_all add: keeps_streams_def)
  show ?thesis
    using assms connect unfolding s
    by (cases e)
       (auto split: if_splits prod.splits dial_result.splits public_result.splits simp: Option.is_none_def
         intro: load_step.intros(1-5))
qed

text \<open>A server that allows one stream per tunnel.\<close>

definition one_stream_cfg :: ServerConfig where
  "one_stream_cfg = example_cfg\<lparr>sc_Tunnel := (sc_Tunnel example_cfg)\<lparr>tun_MaxStreamsPerTunnel := 1\<rparr>\<rparr>"

definition one_stream_server :: "example_ext Server" where
  "one_stream_server = projr (NewServer example_consts sort_routes example_heap ({}, {}) one_stream_cfg)"

lemma one_stream_NewServer:
  "NewServer example_consts sort_routes example_heap ({}, {}) one_stream_cfg = Inr one_stream_server"
proof -
  have "\<not> isl (NewServer example_consts sort_routes example_heap ({}, {}) one_stream_cfg)"
    by code_simp
  from sum.collapse(2) [OF this] show ?thesis
    unfolding one_stream_server_def by (rule sym)
qed

abbreviation example_login :: Request where
  "example_login \<equiv> example_request ''GET'' ''/service/auth/login'' ''x''"

abbreviation login_ctx :: proxyCtx where
  "login_ctx \<equiv> \<lparr>pc_tunnel = Some 0, pc_strip = ''/service/auth''\<rparr>"

abbreviation one_stream_run :: "nat \<Rightarrow> load_event list \<Rightarrow> (example_ext Server \<times> proxyCtx list \<times> countedConn list) option" where
  "one_stream_run K es \<equiv> runs (load_exec example_transport example_close K) es (one_stream_server, [], [])"

definition one_stream_served :: "example_ext Server \<times> proxyCtx list \<times> countedConn list" where
  "one_stream_served = the (one_stream_run 1 [Connect 0, Serve example_login, DialFor login_ctx])"

lemma one_stream_steps:
  "one_stream_run K es = Some s \<Longrightarrow>
   (load_step example_transport P example_close pm K)\<^sup>*\<^sup>* (one_stream_server, [], []) s"
  by (rule runs_rtranclp [OF load_exec_step])

theorem stream_count_exact_witness:
  "ct_ActiveStreams (rs_tunnels (sv_registry (fst one_stream_served)) 0) = 1 \<and>
   tun_MaxStreamsPerTunnel (sc_Tunnel (sv_cfg (fst one_stream_served))) = 1"
proof -
  have "\<not> Option.is_none (one_stream_run 1 [Connect 0, Serve example_login, DialFor login_ctx])"
    by code_simp
  from one_stream_steps [OF not_none_the [OF this]]
  have run: "(load_step example_transport example_store example_close example_consts 1)\<^sup>*\<^sup>* (one_stream_server, [], [])
    (fst one_stream_served, fst (snd one_stream_served), snd (snd one_stream_served))"
    by (simp add: one_stream_served_def)
  have facts: "0 < sv_nextTunnel (fst one_stream_served)" "conns_of 0 (snd (snd one_stream_served)) = 1"
    "tun_MaxStreamsPerTunnel (sc_Tunnel (sv_cfg (fst one_stream_served))) = 1"
    by code_simp+
  from stream_count_exact [OF ins.route_sorter_axioms one_stream_NewServer run facts(1)] facts(2,3)
  show ?thesis
    by simp
qed

text \<open>Two requests that are checked before either of them dials exceed the limit.\<close>

lemma stream_limit_overrun:
  "\<exists>sv adm conns. (load_step example_transport example_store example_close example_consts 2)\<^sup>*\<^sup>*
      (one_stream_server, [], []) (sv, adm, conns) \<and>
    tun_MaxStreamsPerTunnel (sc_Tunnel (sv_cfg sv)) < ct_ActiveStreams (rs_tunnels (sv_registry sv) 0)"
proof -
  let ?es = "[Connect 0, Serve example_login, Serve example_login, DialFor login_ctx, DialFor login_ctx]"
  have run: "case one_stream_run 2 ?es of None \<Rightarrow> False
    | Some (sv, adm, conns) \<Rightarrow>
        tun_MaxStreamsPerTunnel (sc_Tunnel (sv_cfg sv)) < ct_ActiveStreams (rs_tunnels (sv_registry sv) 0)"
    by code_simp
  then obtain s where s: "one_stream_run 2 ?es = Some s"
    by (cases "one_stream_run 2 ?es") (simp_all only: option.case)
  with run one_stream_steps [OF s] show ?thesis
    by (cases s) (simp only: option.case prod.case, blast)
qed

end
