(* ===== verification/Directory_Spec.thy ===== *)
theory Directory_Spec
  imports Nil_Safety
begin

text \<open>
  What the server promises, without pools, pointers and indexes: a directory that maps a subdomain and a
  client ID to the session that serves it and to its reported health. The hooks of \<^verbatim>\<open>internal/server/hooks.go\<close>
  implement its three operations, everything else leaves it alone, so every run of the server is a run of
  the directory; what is proved of the directory holds of the server.
\<close>

section \<open>The directory\<close>

record place =
  pl_session :: string
  pl_healthy :: bool

type_synonym directory = "string \<times> string \<rightharpoonup> place"

text \<open>The client IDs that a subdomain has, and the sessions in use.\<close>

definition present :: "directory \<Rightarrow> string \<Rightarrow> string set" where
  "present d sub = {cid. d (sub, cid) \<noteq> None}"

definition sessions :: "directory \<Rightarrow> string set" where
  "sessions d = pl_session ` ran d"

text \<open>A client of the configuration joins: it takes the place of its old session, or a free place.\<close>

definition may_join :: "ClientBinding \<Rightarrow> directory \<Rightarrow> bool" where
  "may_join b d \<longleftrightarrow>
     cb_ClientID b \<in> present d (cb_Subdomain b) \<or> int (card (present d (cb_Subdomain b))) < cb_MaxClients b"

definition join :: "ClientBinding \<Rightarrow> string \<Rightarrow> directory \<Rightarrow> directory" where
  "join b sid d = d((cb_Subdomain b, cb_ClientID b) \<mapsto> \<lparr>pl_session = sid, pl_healthy = True\<rparr>)"

text \<open>A report on the health of a client that is present, and the end of a session.\<close>

definition report :: "string \<times> string \<Rightarrow> bool \<Rightarrow> directory \<Rightarrow> directory" where
  "report k ok d = d(k := map_option (pl_healthy_update (\<lambda>_. ok)) (d k))"

definition leave :: "string \<Rightarrow> directory \<Rightarrow> directory" where
  "leave sid d k = (case d k of Some e \<Rightarrow> if pl_session e = sid then None else Some e | None \<Rightarrow> None)"

lemma leave_Some: "leave sid d k = Some e \<longleftrightarrow> d k = Some e \<and> pl_session e \<noteq> sid"
  by (auto simp: leave_def split: option.splits)

inductive dir_step :: "ClientBinding list \<Rightarrow> directory \<Rightarrow> directory \<Rightarrow> bool" for bs where
  joins: "b \<in> set bs \<Longrightarrow> sid \<notin> sessions d \<Longrightarrow> may_join b d \<Longrightarrow> dir_step bs d (join b sid d)"
| reports: "dir_step bs d (report k ok d)"
| leaves: "dir_step bs d (leave sid d)"

text \<open>A session serves one client only.\<close>

definition one_each :: "directory \<Rightarrow> bool" where
  "one_each d \<longleftrightarrow> (\<forall>k k' e e'. d k = Some e \<longrightarrow> d k' = Some e' \<longrightarrow> pl_session e = pl_session e' \<longrightarrow> k = k')"

lemma one_each_step: "dir_step bs d d' \<Longrightarrow> one_each d \<Longrightarrow> one_each d'"
proof (induction rule: dir_step.induct)
  case (joins b sid d)
  have "pl_session e \<noteq> sid" if "d k = Some e" for k e
    using joins(2) ranI [of d k e] that by (auto simp: sessions_def)
  with joins(4) show ?case
    unfolding one_each_def join_def by (auto simp del: split_paired_All split: if_splits; blast)
next
  case (reports d k ok)
  have "\<exists>e0. d k' = Some e0 \<and> pl_session e0 = pl_session e" if "report k ok d k' = Some e" for k' e
    using that by (auto simp: report_def split: if_splits)
  with reports show ?case
    unfolding one_each_def by metis
next
  case (leaves d sid)
  then show ?case
    unfolding one_each_def leave_Some by metis
qed

text \<open>No subdomain has more clients than the largest limit of its bindings.\<close>

definition within_limits :: "ClientBinding list \<Rightarrow> directory \<Rightarrow> bool" where
  "within_limits bs d \<longleftrightarrow>
     (\<forall>sub. finite (present d sub) \<and>
        (present d sub = {} \<or>
         (\<exists>b\<in>set bs. cb_Subdomain b = sub \<and> int (card (present d sub)) \<le> cb_MaxClients b)))"

lemma within_limits_mono:
  assumes "within_limits bs d" "\<And>sub. present d' sub \<subseteq> present d sub"
  shows "within_limits bs d'"
  unfolding within_limits_def
proof (intro allI conjI)
  fix sub
  have fin: "finite (present d sub)" using assms(1) by (simp add: within_limits_def)
  then show "finite (present d' sub)" by (rule finite_subset [OF assms(2)])
  have "card (present d' sub) \<le> card (present d sub)" by (rule card_mono [OF fin assms(2)])
  moreover have "present d' sub = {}" if "present d sub = {}" using assms(2) [of sub] that by simp
  ultimately show "present d' sub = {} \<or>
      (\<exists>b\<in>set bs. cb_Subdomain b = sub \<and> int (card (present d' sub)) \<le> cb_MaxClients b)"
    using assms(1) unfolding within_limits_def by fastforce
qed

lemma present_join:
  "present (join b sid d) sub =
     (if sub = cb_Subdomain b then insert (cb_ClientID b) (present d sub) else present d sub)"
  by (auto simp: present_def join_def)

lemma within_limits_join:
  assumes "within_limits bs d" "b \<in> set bs" "may_join b d"
  shows "within_limits bs (join b sid d)"
  unfolding within_limits_def
proof (intro allI conjI)
  fix sub
  have fin: "finite (present d sub)" using assms(1) by (simp add: within_limits_def)
  then show "finite (present (join b sid d) sub)" by (auto simp: present_join)
  show "present (join b sid d) sub = {} \<or>
      (\<exists>b'\<in>set bs. cb_Subdomain b' = sub \<and> int (card (present (join b sid d) sub)) \<le> cb_MaxClients b')"
  proof (cases "sub = cb_Subdomain b \<and> cb_ClientID b \<notin> present d sub")
    case True
    with assms(2,3) fin show ?thesis by (auto simp: present_join may_join_def intro!: bexI [of _ b])
  next
    case False
    then have "present (join b sid d) sub = present d sub" by (auto simp: present_join)
    with assms(1) show ?thesis by (simp add: within_limits_def)
  qed
qed

lemma within_limits_step: "dir_step bs d d' \<Longrightarrow> within_limits bs d \<Longrightarrow> within_limits bs d'"
proof (induction rule: dir_step.induct)
  case (joins b sid d)
  then show ?case by (intro within_limits_join)
next
  case (reports d k ok)
  then show ?case by (rule within_limits_mono) (auto simp: present_def report_def split: if_splits)
next
  case (leaves d sid)
  then show ?case by (rule within_limits_mono) (auto simp: present_def leave_def split: option.splits)
qed

lemma dir_empty [simp]: "one_each Map.empty" "within_limits bs Map.empty"
  by (simp_all add: one_each_def within_limits_def present_def)

section \<open>Simulation\<close>

text \<open>
  A concrete machine that implements an abstract one: every concrete step from a state that satisfies the
  invariant is a sequence of abstract steps.
\<close>

locale simulation =
  fixes cinit :: "'c \<Rightarrow> bool"
    and cstep :: "'c \<Rightarrow> 'c \<Rightarrow> bool"
    and ainit :: "'a \<Rightarrow> bool"
    and astep :: "'a \<Rightarrow> 'a \<Rightarrow> bool"
    and view :: "'c \<Rightarrow> 'a"
    and inv :: "'c \<Rightarrow> bool"
  assumes init_inv: "cinit c \<Longrightarrow> inv c"
    and init_view: "cinit c \<Longrightarrow> ainit (view c)"
    and step_inv: "inv c \<Longrightarrow> cstep c c' \<Longrightarrow> inv c'"
    and step_view: "inv c \<Longrightarrow> cstep c c' \<Longrightarrow> astep\<^sup>*\<^sup>* (view c) (view c')"
begin

lemma run_inv: "cstep\<^sup>*\<^sup>* c c' \<Longrightarrow> inv c \<Longrightarrow> inv c'"
  by (induction rule: rtranclp_induct) (auto intro: step_inv)

lemma run_view: "cstep\<^sup>*\<^sup>* c c' \<Longrightarrow> inv c \<Longrightarrow> astep\<^sup>*\<^sup>* (view c) (view c')"
proof (induction rule: rtranclp_induct)
  case (step c' c'')
  then show ?case using step_view [OF run_inv [OF step(1,4)] step(2)] by simp
qed simp

lemma reach_view: "cinit c \<Longrightarrow> cstep\<^sup>*\<^sup>* c c' \<Longrightarrow> \<exists>a. ainit a \<and> astep\<^sup>*\<^sup>* a (view c')"
  using run_view init_inv init_view by blast

text \<open>An inductive invariant of the abstract machine holds of every view of the concrete one.\<close>

lemma invariant_transfer:
  assumes "cinit c" "cstep\<^sup>*\<^sup>* c c'"
    and "\<And>a. ainit a \<Longrightarrow> J a" "\<And>a a'. astep a a' \<Longrightarrow> J a \<Longrightarrow> J a'"
  shows "J (view c')"
proof -
  have "J a'" if "astep\<^sup>*\<^sup>* a a'" "J a" for a a'
    using that by (induction rule: rtranclp_induct) (auto intro: assms(4))
  then show ?thesis using reach_view [OF assms(1,2)] assms(3) by blast
qed

end

section \<open>The view of the server\<close>

definition entry :: "'x transport \<Rightarrow> 'x reg_state \<Rightarrow> tunnel_ptr \<Rightarrow> place" where
  "entry A reg t =
     \<lparr>pl_session = (case ct_Session (rs_tunnels reg t) of None \<Rightarrow> '''' | Some s \<Rightarrow> session_ID A s),
      pl_healthy = ct_LocalHealthy (rs_tunnels reg t)\<rparr>"

definition directory_of :: "'x transport \<Rightarrow> 'x Server \<Rightarrow> directory" where
  "directory_of A sv k = map_option (entry A (sv_registry sv)) (lookup_tunnel (sv_registry sv) k)"

lemma directory_of_Some:
  assumes "srv_inv A sv"
  shows "directory_of A sv (sub, cid) = Some e \<longleftrightarrow>
    (\<exists>t. member_of (sv_registry sv) sub t \<and> tunnel_ID (sv_registry sv) t = cid \<and> entry A (sv_registry sv) t = e)"
  by (auto simp: directory_of_def lookup_tunnel_iff [OF srv_inv_reg [OF assms]])


text \<open>A change of the registry that keeps pools, members, identities, sessions and health is not seen.\<close>

lemma directory_of_quiet:
  assumes "rs_byName (sv_registry sv') = rs_byName (sv_registry sv)"
    and "\<And>p. members (sv_registry sv') p = members (sv_registry sv) p"
    and "\<And>t. tunnel_ID (sv_registry sv') t = tunnel_ID (sv_registry sv) t"
    and "\<And>t. ct_Session (rs_tunnels (sv_registry sv') t) = ct_Session (rs_tunnels (sv_registry sv) t)"
    and "\<And>t. ct_LocalHealthy (rs_tunnels (sv_registry sv') t) = ct_LocalHealthy (rs_tunnels (sv_registry sv) t)"
  shows "directory_of A sv' = directory_of A sv"
proof -
  have "Pool_ByID (sv_registry sv') = Pool_ByID (sv_registry sv)"
    by (simp add: Pool_ByID_def fun_eq_iff assms(2,3))
  then have "lookup_tunnel (sv_registry sv') k = lookup_tunnel (sv_registry sv) k" for k
    by (simp only: lookup_tunnel_def Pool_def assms(1))
  moreover have "entry A (sv_registry sv') = entry A (sv_registry sv)"
    by (simp add: entry_def fun_eq_iff assms(4,5))
  ultimately show ?thesis
    by (intro ext) (simp only: directory_of_def)
qed

lemma directory_of_ext [simp]:
  "directory_of A (sv\<lparr>sv_registry := (sv_registry sv)\<lparr>rs_ext := x\<rparr>\<rparr>) = directory_of A sv"
  by (rule directory_of_quiet) simp_all

lemma directory_of_eqI:
  assumes "srv_inv A sv"
    and "\<And>sub cid e. d (sub, cid) = Some e \<longleftrightarrow>
      (\<exists>t. member_of (sv_registry sv) sub t \<and> tunnel_ID (sv_registry sv) t = cid \<and> entry A (sv_registry sv) t = e)"
  shows "directory_of A sv = d"
proof
  fix k
  have "directory_of A sv k = Some e \<longleftrightarrow> d k = Some e" for e
    using directory_of_Some [OF assms(1)] assms(2) by (cases k) simp
  then show "directory_of A sv k = d k"
    by (metis option.exhaust)
qed

subsection \<open>Joining\<close>

lemma directory_of_sessions:
  assumes inv: "srv_inv A sv" and typed: "typed_heap sv"
    and sid: "GetBySessionID (sv_registry sv) i = None"
  shows "i \<notin> sessions (directory_of A sv)"
proof
  assume "i \<in> sessions (directory_of A sv)"
  then obtain sub cid e where e: "directory_of A sv (sub, cid) = Some e" "pl_session e = i"
    by (auto simp: sessions_def ran_def)
  then obtain t where t: "member_of (sv_registry sv) sub t" "pl_session (entry A (sv_registry sv) t) = i"
    using directory_of_Some [OF inv, of sub cid e] by blast
  then have "has_sid A (sv_registry sv) t i"
    using srv_inv_member [OF inv t(1)] typed by (auto simp: entry_def has_sid_def typed_heap_def)
  with t(1) sid show False
    using reg_inv_bySess [OF srv_inv_reg [OF inv], of i t] by (auto simp: GetBySessionID_def)
qed

lemma present_members:
  assumes "srv_inv A sv"
  shows "present (directory_of A sv) sub = tunnel_ID (sv_registry sv) ` pool_members sv sub"
    and "card (present (directory_of A sv) sub) = card (pool_members sv sub)"
proof -
  show p: "present (directory_of A sv) sub = tunnel_ID (sv_registry sv) ` pool_members sv sub"
    using directory_of_Some [OF assms, of sub] unfolding present_def by auto
  have "inj_on (tunnel_ID (sv_registry sv)) (pool_members sv sub)"
    using member_ID_unique [OF srv_inv_reg [OF assms]] by (auto intro!: inj_onI)
  then show "card (present (directory_of A sv) sub) = card (pool_members sv sub)"
    by (simp add: p card_image)
qed


lemma registered_view:
  assumes inv: "srv_inv A sv" and sid: "GetBySessionID (sv_registry sv) (session_ID A s) = None"
    and b: "Lookup (sv_clients sv) cid = Some b"
    and reg: "Register A (sv_nextTunnel sv) (cb_MaxClients b) (with_tunnel now cid b s y x sv) = (None, reg)"
  shows "directory_of A (sv\<lparr>sv_nextTunnel := Suc (sv_nextTunnel sv), sv_registry := reg\<rparr>) =
    join b (session_ID A s) (directory_of A sv)" (is "directory_of A ?sv' = _")
proof (rule directory_of_eqI)
  let ?t = "sv_nextTunnel sv" and ?reg0 = "with_tunnel now cid b s y x sv"
  note f = onConnect_registered [OF inv sid b reg]
  have cid: "cb_ClientID b = cid"
    using b Lookup_mem srv_inv_clients [OF inv] by metis
  have fields: "ct_Session (rs_tunnels reg u) = ct_Session (rs_tunnels (sv_registry sv) u)"
    "ct_LocalHealthy (rs_tunnels reg u) = ct_LocalHealthy (rs_tunnels (sv_registry sv) u)" if "u \<noteq> ?t" for u
  proof -
    have r: "registered A ?reg0 ?t reg"
      by (rule Register_cases [OF with_tunnel_ok [OF inv sid, of now cid b y x], of "cb_MaxClients b"])
         (use reg ensured_with_tunnel [OF inv b, of now s y x] in auto)
    then show "ct_LocalHealthy (rs_tunnels reg u) = ct_LocalHealthy (rs_tunnels (sv_registry sv) u)"
      unfolding registered_def using that by simp
    show "ct_Session (rs_tunnels reg u) = ct_Session (rs_tunnels (sv_registry sv) u)"
      using registered_fields(3) [OF r, of u] that by simp
  qed
  show "srv_inv A ?sv'"
    by (rule onConnect_ok_inv [OF inv sid b reg])
  have new: "entry A reg ?t = \<lparr>pl_session = session_ID A s, pl_healthy = True\<rparr>"
    using f(5,7) by (simp add: entry_def)
  have old: "entry A reg u = entry A (sv_registry sv) u" if "u \<noteq> ?t" for u
    using fields [OF that] by (simp add: entry_def)
  have nt: "\<not> member_of (sv_registry sv) sub ?t" for sub
    using srv_inv_member [OF inv] by blast
  fix sub i e
  show "join b (session_ID A s) (directory_of A sv) (sub, i) = Some e \<longleftrightarrow>
    (\<exists>t. member_of (sv_registry ?sv') sub t \<and> tunnel_ID (sv_registry ?sv') t = i \<and> entry A (sv_registry ?sv') t = e)"
  proof (cases "sub = cb_Subdomain b \<and> i = cid")
    case True
    then show ?thesis
      using f(3) [of sub] f(4) new nt by (auto simp: join_def cid split: if_splits)
  next
    case False
    have "(\<exists>t. member_of reg sub t \<and> tunnel_ID reg t = i \<and> entry A reg t = e) \<longleftrightarrow>
      (\<exists>t. member_of (sv_registry sv) sub t \<and> tunnel_ID (sv_registry sv) t = i \<and> entry A (sv_registry sv) t = e)"
      using False f(3) [of sub] f(4) old nt [of sub] by (metis (full_types))
    with False show ?thesis
      by (auto simp: join_def cid directory_of_Some [OF inv])
  qed
qed

text \<open>A tunnel that is built and not registered is not seen.\<close>

lemma unregistered_view:
  assumes "srv_inv A sv" "srv_inv A sv'"
    and "sv_registry sv' = (with_tunnel now cid b s y x sv)\<lparr>rs_ext := z\<rparr>"
  shows "directory_of A sv' = directory_of A sv"
proof (rule directory_of_eqI [OF assms(2)])
  fix sub i e
  have "member_of (sv_registry sv) sub t \<Longrightarrow> rs_tunnels (sv_registry sv') t = rs_tunnels (sv_registry sv) t" for t
    using srv_inv_member [OF assms(1), of sub t] by (simp add: assms(3))
  then show "directory_of A sv (sub, i) = Some e \<longleftrightarrow>
    (\<exists>t. member_of (sv_registry sv') sub t \<and> tunnel_ID (sv_registry sv') t = i \<and> entry A (sv_registry sv') t = e)"
    by (auto simp: directory_of_Some [OF assms(1)] entry_def assms(3))
qed

lemma Register_may_join:
  assumes inv: "srv_inv A sv" and sid: "GetBySessionID (sv_registry sv) (session_ID A s) = None"
    and b: "Lookup (sv_clients sv) cid = Some b"
  shows "fst (Register A (sv_nextTunnel sv) (cb_MaxClients b) (with_tunnel now cid b s y x sv)) = None \<longleftrightarrow>
    may_join b (directory_of A sv)"
proof -
  have cid: "cb_ClientID b = cid"
    using b Lookup_mem srv_inv_clients [OF inv] by metis
  have "tunnel_ID (with_tunnel now cid b s y x sv) u = tunnel_ID (sv_registry sv) u"
    if "member_of (sv_registry sv) (cb_Subdomain b) u" for u
    using srv_inv_member [OF inv that] by simp
  then show ?thesis
    unfolding may_join_def cid present_members(2) [OF inv] Register_room [OF with_tunnel_ok(1) [OF inv sid]]
    by (auto simp: present_members(1) [OF inv] new_tunnel_def)
qed

text \<open>What a connect does to the directory: it joins when it may, and changes nothing when it is refused.\<close>

lemma onConnect_view:
  assumes inv: "srv_inv A sv" and sid: "GetBySessionID (sv_registry sv) (session_ID A s) = None"
  shows "case Lookup (sv_clients sv) (map_get meta ''client_id'') of
      Some b \<Rightarrow>
        if isl (snd (ClientSession A (rs_ext (sv_registry sv)) s)) \<or> \<not> may_join b (directory_of A sv)
        then fst (onConnect A now s meta sv) \<noteq> None \<and> directory_of A (snd (onConnect A now s meta sv)) = directory_of A sv
        else fst (onConnect A now s meta sv) = None \<and>
          directory_of A (snd (onConnect A now s meta sv)) = join b (session_ID A s) (directory_of A sv)
    | None \<Rightarrow> fst (onConnect A now s meta sv) \<noteq> None \<and> directory_of A (snd (onConnect A now s meta sv)) = directory_of A sv"
proof -
  obtain x ys where cs: "ClientSession A (rs_ext (sv_registry sv)) s = (x, ys)" by fastforce
  let ?cid = "map_get meta ''client_id''"
  show ?thesis
  proof (cases "\<exists>y b. ys = Inr y \<and> Lookup (sv_clients sv) ?cid = Some b")
    case False
    then show ?thesis using cs
      by (cases ys; cases "Lookup (sv_clients sv) ?cid") (simp_all add: onConnect_def)
  next
    case True
    then obtain y b where y: "ys = Inr y" and b: "Lookup (sv_clients sv) ?cid = Some b" by blast
    note c = onConnect_known [OF cs [unfolded y] b, of now]
    note room = Register_may_join [OF inv sid b, of now y x]
    show ?thesis
    proof (rule Register_cases [OF with_tunnel_ok [OF inv sid, of now ?cid b y x], of "cb_MaxClients b"])
      fix reg assume reg: "Register A (sv_nextTunnel sv) (cb_MaxClients b) (with_tunnel now ?cid b s y x sv) = (None, reg)"
      have "directory_of A (warmCert (cb_Subdomain b) sv') = directory_of A sv'" for sv'
        by (rule directory_of_quiet) simp_all
      then show ?thesis
        using registered_view [OF inv sid b reg] room b reg by (simp add: c cs y)
    next
      assume full: "Register A (sv_nextTunnel sv) (cb_MaxClients b) (with_tunnel now ?cid b s y x sv) =
          (Some ErrPoolFull, ensured (with_tunnel now ?cid b s y x sv) (sv_nextTunnel sv))"
      then have "directory_of A (snd (onConnect A now s meta sv)) = directory_of A sv"
        using ensured_with_tunnel [OF inv b, of now s y x]
        by (intro unregistered_view [OF inv onConnect_inv [OF inv sid]]) (simp add: c)
      then show ?thesis
        using full room b by (simp add: c)
    qed
  qed
qed

subsection \<open>Reporting and leaving\<close>

lemma onPoll_view:
  assumes inv: "srv_inv A sv"
  shows "directory_of A (onPoll A pm s hdr sv) =
    (let h = Header_Get hdr (HeaderLocalHealth pm);
         k = (map_get (session_Meta A s) ''subdomain'', map_get (session_Meta A s) ''client_id'')
     in if h \<noteq> '''' \<and> fst k \<noteq> '''' \<and> snd k \<noteq> '''' then report k (h = ''ok'') (directory_of A sv) else directory_of A sv)"
proof -
  have set_health: "directory_of A (upd_registry (SetLocalHealth sub cid ok) sv) = report (sub, cid) ok (directory_of A sv)"
    (is "directory_of A ?sv' = _") for sub cid ok
  proof (rule directory_of_eqI)
    show inv': "srv_inv A ?sv'"
      by (rule srv_inv_frame [OF inv]) (auto intro: SetLocalHealth_inv srv_inv_reg [OF inv])
    fix sub' i e
    have "SetLocalHealth sub cid ok (sv_registry sv) =
      (case lookup_tunnel (sv_registry sv) (sub, cid) of None \<Rightarrow> sv_registry sv
       | Some t \<Rightarrow> upd_tunnel t (\<lambda>c. c\<lparr>ct_LocalHealthy := ok\<rparr>) (sv_registry sv))"
      by (simp add: SetLocalHealth_def lookup_tunnel_def Pool_def split: option.splits)
    then have e: "entry A (sv_registry ?sv') t =
      (if lookup_tunnel (sv_registry sv) (sub, cid) = Some t then (entry A (sv_registry sv) t)\<lparr>pl_healthy := ok\<rparr>
       else entry A (sv_registry sv) t)" for t
      by (simp add: entry_def split: option.splits)
    show "report (sub, cid) ok (directory_of A sv) (sub', i) = Some e \<longleftrightarrow>
      (\<exists>t. member_of (sv_registry ?sv') sub' t \<and> tunnel_ID (sv_registry ?sv') t = i \<and> entry A (sv_registry ?sv') t = e)"
      unfolding e
      by (auto simp: report_def directory_of_def lookup_tunnel_iff [OF srv_inv_reg [OF inv]]
          dest: member_of_unique [OF srv_inv_reg [OF inv]])
  qed
  then show ?thesis
    by (simp add: onPoll_def Let_def)
qed

lemma onDisconnect_view:
  assumes inv: "srv_inv A sv" and typed: "typed_heap sv"
  shows "directory_of A (onDisconnect A s sv) = leave (session_ID A s) (directory_of A sv)"
proof (rule directory_of_eqI [OF onDisconnect_inv [OF inv]])
  fix sub i e
  let ?reg = "sv_registry sv" and ?reg' = "sv_registry (onDisconnect A s sv)"
  have tunnels: "rs_tunnels ?reg' = rs_tunnels ?reg"
    by (simp add: onDisconnect_def Let_def split: option.split)
  then have entries: "entry A ?reg' = entry A ?reg"
    by (simp add: entry_def fun_eq_iff)
  have sid: "has_sid A ?reg t (session_ID A s) \<longleftrightarrow> pl_session (entry A ?reg t) = session_ID A s"
    if "member_of ?reg sub t" for t
    using srv_inv_member [OF inv that] typed by (auto simp: entry_def has_sid_def typed_heap_def)
  show "leave (session_ID A s) (directory_of A sv) (sub, i) = Some e \<longleftrightarrow>
    (\<exists>t. member_of ?reg' sub t \<and> tunnel_ID ?reg' t = i \<and> entry A ?reg' t = e)"
    using sid
    by (auto simp: leave_Some directory_of_Some [OF inv] onDisconnect_members(1) [OF inv] tunnels entries)
qed


section \<open>The server implements the directory\<close>

definition server_init ::
  "pollmux_consts \<Rightarrow> sort_slice \<Rightarrow> ServerConfig \<Rightarrow> ClientBinding list \<Rightarrow> 'x Server \<Rightarrow> bool" where
  "server_init pm srt cfg bs sv \<longleftrightarrow> (\<exists>heap x. NewServer pm srt heap x cfg = Inr sv) \<and> sc_Clients (sv_cfg sv) = bs"

definition server_inv :: "'x transport \<Rightarrow> ClientBinding list \<Rightarrow> 'x Server \<Rightarrow> bool" where
  "server_inv A bs sv \<longleftrightarrow> srv_inv A sv \<and> typed_heap sv \<and> sc_Clients (sv_cfg sv) = bs"

lemma onDisconnect_server_inv: "server_inv A bs sv \<Longrightarrow> server_inv A bs (onDisconnect A s sv)"
  using sys_step_inv [OF sys_step.disconnect] sys_step_heap [OF sys_step.disconnect]
  by (force simp: server_inv_def same_names_def)

lemma ext_server_inv: "server_inv A bs sv \<Longrightarrow> server_inv A bs (upd_registry (\<lambda>reg. reg\<lparr>rs_ext := x\<rparr>) sv)"
  using sys_step_inv [OF sys_step.transport] sys_step_heap [OF sys_step.transport]
  by (force simp: server_inv_def same_names_def)

lemma CloseSession_view:
  assumes "server_inv A bs sv"
  shows "server_inv A bs (CloseSession A P s sv)"
    and "(dir_step bs)\<^sup>*\<^sup>* (directory_of A sv) (directory_of A (CloseSession A P s sv))"
proof -
  obtain x hook where c: "store_Close P (rs_ext (sv_registry sv)) s = (x, hook)"
    by fastforce
  let ?sv = "upd_registry (\<lambda>reg. reg\<lparr>rs_ext := x\<rparr>) sv"
  have close: "CloseSession A P s sv = (if hook then onDisconnect A s ?sv else ?sv)"
    by (simp add: CloseSession_def c)
  have inv: "server_inv A bs ?sv"
    by (rule ext_server_inv [OF assms])
  then show "server_inv A bs (CloseSession A P s sv)"
    by (simp add: close onDisconnect_server_inv)
  from inv have "directory_of A (onDisconnect A s ?sv) = leave (session_ID A s) (directory_of A sv)"
    using onDisconnect_view [of A ?sv s] by (simp add: server_inv_def)
  then show "(dir_step bs)\<^sup>*\<^sup>* (directory_of A sv) (directory_of A (CloseSession A P s sv))"
    by (simp add: close r_into_rtranclp dir_step.leaves)
qed

lemma Stop_view:
  assumes "server_inv A bs sv"
  shows "(dir_step bs)\<^sup>*\<^sup>* (directory_of A sv) (directory_of A (snd (Stop A P sd sv)))"
proof -
  have closing: "(dir_step bs)\<^sup>*\<^sup>* (directory_of A s) (directory_of A (fold (CloseSession A P) ss s))" if "server_inv A bs s" for s ss
    using that
  proof (induction ss arbitrary: s)
    case (Cons c ss)
    then show ?case
      using CloseSession_view [OF Cons.prems, of P c] by (auto intro: rtranclp_trans)
  qed simp
  let ?sv = "sv\<lparr>sv_stopOnce := True\<rparr>"
  have "srv_inv A ?sv"
    using assms srv_inv_cong [of A sv ?sv] by (simp add: server_inv_def)
  then have "server_inv A bs ?sv"
    using assms by (simp add: server_inv_def typed_heap_def)
  moreover have "directory_of A (snd (Stop A P sd sv)) =
      (if sv_stopOnce sv then directory_of A sv
       else directory_of A (fold (CloseSession A P) (store_All P (rs_ext (sv_registry sv))) ?sv))"
    by (auto simp: Stop_def Let_def intro!: directory_of_quiet)
  moreover have "directory_of A ?sv = directory_of A sv"
    by (rule directory_of_quiet) simp_all
  ultimately show ?thesis
    using closing [of ?sv] by simp
qed

lemma rtranclp_reflI: "b = a \<Longrightarrow> R\<^sup>*\<^sup>* a b"
  by simp

lemma sys_step_view:
  assumes "sys_step A P closeStream pm sv sv'" "server_inv A bs sv"
  shows "(dir_step bs)\<^sup>*\<^sup>* (directory_of A sv) (directory_of A sv')"
proof -
  have inv: "srv_inv A sv" "typed_heap sv" "sc_Clients (sv_cfg sv) = bs"
    using assms(2) by (simp_all add: server_inv_def)
  note quiet = directory_of_quiet [THEN rtranclp_reflI]
  from assms(1) show ?thesis
  proof cases
    case (connect s now meta)
    from onConnect_view [OF inv(1) connect(2), of now meta] show ?thesis
      using directory_of_sessions [OF inv(1,2) connect(2)] inv(3) Lookup_mem srv_inv_clients [OF inv(1)]
      by (auto simp: connect(1) split: option.splits if_splits intro!: r_into_rtranclp dir_step.joins)
  next
    case (poll s hdr)
    then show ?thesis
      by (auto simp: onPoll_view [OF inv(1)] Let_def intro: r_into_rtranclp dir_step.reports)
  next
    case (disconnect s)
    then show ?thesis
      by (auto simp: onDisconnect_view [OF inv(1,2)] intro: r_into_rtranclp dir_step.leaves)
  next
    case (close_session s)
    then show ?thesis using CloseSession_view(2) [OF assms(2)] by simp
  next
    case (stop sd)
    then show ?thesis using Stop_view [OF assms(2)] by simp
  next
    case (request r)
    obtain reg where "snd (servePublic A r sv) = sv\<lparr>sv_registry := reg\<rparr>"
      "reg = sv_registry sv \<or> (\<exists>p. reg = snd (Pool_Pick A p (sv_registry sv)))"
      using servePublic_registry [of A r sv] by blast
    with request show ?thesis by (intro quiet) auto
  next
    case (dial t)
    obtain x f where "snd (OpenStream A t (sv_registry sv)) = upd_tunnel t f ((sv_registry sv)\<lparr>rs_ext := x\<rparr>)"
      "f = id \<or> f = add_streams 1"
      by (rule OpenStream_frame)
    with dial show ?thesis by (intro quiet) auto
  qed (auto intro!: quiet simp: Start_frame stop_exec_frame StartOnListener_def countedConn_Close_def case_prod_beta Let_def split: if_splits)
qed


lemma NewServer_nothing:
  assumes "NewServer pm srt heap x cfg = Inr sv"
  shows "typed_heap sv" "directory_of A sv = Map.empty"
proof -
  have none: "sv_nextTunnel sv = 0"
    using assms by (auto simp: NewServer_def bind_result_Inr Let_def case_prod_beta)
  then show "typed_heap sv"
    by (simp add: typed_heap_def)
  have inv: "srv_inv A sv"
    by (rule NewServer_inv [OF assms])
  show "directory_of A sv = Map.empty"
    by (rule directory_of_eqI [OF inv]) (use srv_inv_member [OF inv] none in auto)
qed

interpretation srv_dir: simulation "server_init pm srt cfg bs" "sys_step A P closeStream pm"
  "\<lambda>d. d = Map.empty" "dir_step bs" "directory_of A" "server_inv A bs" for pm srt cfg bs A P closeStream
proof
  fix sv sv'
  show "server_inv A bs sv" if "server_init pm srt cfg bs sv"
    using that by (auto simp: server_init_def server_inv_def NewServer_inv NewServer_nothing)
  show "directory_of A sv = Map.empty" if "server_init pm srt cfg bs sv"
    using that by (auto simp: server_init_def NewServer_nothing)
  show "server_inv A bs sv'" if "server_inv A bs sv" "sys_step A P closeStream pm sv sv'"
    using that sys_step_inv sys_step_heap unfolding server_inv_def same_names_def by metis
qed (rule sys_step_view)


lemma reachable_run:
  "sys_reachable A P closeStream pm srt cfg sv \<Longrightarrow>
   \<exists>sv0. server_init pm srt cfg (sc_Clients (sv_cfg sv)) sv0 \<and> (sys_step A P closeStream pm)\<^sup>*\<^sup>* sv0 sv"
proof (induction rule: sys_reachable.induct)
  case (init heap x sv)
  then show ?case by (auto simp: server_init_def)
next
  case (step sv sv')
  then obtain sv0 where sv0: "server_init pm srt cfg (sc_Clients (sv_cfg sv)) sv0"
    "(sys_step A P closeStream pm)\<^sup>*\<^sup>* sv0 sv"
    by blast
  have "srv_inv A sv"
    using srv_dir.run_inv [OF sv0(2) srv_dir.init_inv [OF sv0(1)]] by (simp add: server_inv_def)
  then have "sv_cfg sv' = sv_cfg sv"
    using sys_step_inv [OF step(2)] by (simp add: same_names_def)
  with sv0 step(2) show ?case
    by (metis rtranclp.rtrancl_into_rtrancl)
qed

lemma reachable_inv:
  "sys_reachable A P closeStream pm srt cfg sv \<Longrightarrow> srv_inv A sv \<and> typed_heap sv"
  using reachable_run srv_dir.run_inv srv_dir.init_inv unfolding server_inv_def by metis

lemma forwarded_entry:
  assumes "route_sorter srt" "sys_reachable A P closeStream pm srt cfg sv" "fst (servePublic A r sv) = Forward ctx"
  obtains h cid e where "HostKey (rq_Host r) (sc_RootDomain (sv_cfg sv)) = Inr h"
    "directory_of A sv (h, cid) = Some e" "pl_healthy e" "pc_tunnel ctx = lookup_tunnel (sv_registry sv) (h, cid)"
proof -
  have "servePublic A r sv = (Forward ctx, snd (servePublic A r sv))"
    using assms(3) by (simp add: prod_eq_iff)
  from forward_member [OF assms(1,2) this] obtain h t where
    t: "HostKey (rq_Host r) (sc_RootDomain (sv_cfg sv)) = Inr h" "pc_tunnel ctx = Some t"
      "member_of (sv_registry sv) h t" "available A (sv_registry sv) t" by metis
  then have "lookup_tunnel (sv_registry sv) (h, tunnel_ID (sv_registry sv) t) = Some t"
    using lookup_tunnel_iff [OF srv_inv_reg] reachable_inv [OF assms(2)] by blast
  with t(2,4) show ?thesis
    by (intro that [OF t(1), of "tunnel_ID (sv_registry sv) t"])
       (auto simp: directory_of_def entry_def available_def)
qed

text \<open>
  C6: every run of the server is a run of the directory. The directory of a server is always one that the
  abstract machine reaches from the empty one; so each session serves one client, and no subdomain has more
  clients than the largest limit of its bindings. A request is forwarded only to a client that the directory
  has as healthy under the host of the request.
\<close>

theorem server_refines_directory:
  assumes "route_sorter srt" "sys_reachable A P closeStream pm srt cfg sv"
  shows "(dir_step (sc_Clients (sv_cfg sv)))\<^sup>*\<^sup>* Map.empty (directory_of A sv)
    \<and> one_each (directory_of A sv) \<and> within_limits (sc_Clients (sv_cfg sv)) (directory_of A sv)
    \<and> (\<forall>ctx. fst (servePublic A r sv) = Forward ctx \<longrightarrow>
         (\<exists>h cid e. HostKey (rq_Host r) (sc_RootDomain (sv_cfg sv)) = Inr h \<and>
            directory_of A sv (h, cid) = Some e \<and> pl_healthy e \<and>
            pc_tunnel ctx = lookup_tunnel (sv_registry sv) (h, cid)))"
proof -
  let ?bs = "sc_Clients (sv_cfg sv)"
  obtain sv0 where sv0: "server_init pm srt cfg ?bs sv0" "(sys_step A P closeStream pm)\<^sup>*\<^sup>* sv0 sv"
    using reachable_run [OF assms(2)] by blast
  have "(dir_step ?bs)\<^sup>*\<^sup>* Map.empty (directory_of A sv)"
    using srv_dir.reach_view [OF sv0] by blast
  moreover have "one_each (directory_of A sv)" "within_limits ?bs (directory_of A sv)"
    using srv_dir.invariant_transfer [OF sv0, of one_each] srv_dir.invariant_transfer [OF sv0, of "within_limits ?bs"]
    by (auto intro: one_each_step within_limits_step)
  ultimately show ?thesis
    using forwarded_entry [OF assms] by metis
qed

text \<open>
  C3: the hooks do to the directory exactly what its operations do. A connect with a new session whose yamux
  session can be opened succeeds exactly if the client is configured and may join; it then puts the client with
  the session and as healthy into the directory, and otherwise changes nothing. A poll with a health
  header changes the health of the client that the session names. A disconnect removes the client that
  the session serves, if any.
\<close>

theorem hooks_refine_directory:
  assumes "sys_reachable A P closeStream pm srt cfg sv" "GetBySessionID (sv_registry sv) (session_ID A s) = None"
    and "ClientSession A (rs_ext (sv_registry sv)) s = (x, Inr y)"
  shows "(case Lookup (sv_clients sv) (map_get meta ''client_id'') of
       Some b \<Rightarrow>
         if may_join b (directory_of A sv)
         then fst (OnConnect (buildHooks A) now s meta sv) = None \<and>
           directory_of A (snd (OnConnect (buildHooks A) now s meta sv)) = join b (session_ID A s) (directory_of A sv)
         else fst (OnConnect (buildHooks A) now s meta sv) \<noteq> None \<and>
           directory_of A (snd (OnConnect (buildHooks A) now s meta sv)) = directory_of A sv
     | None \<Rightarrow> fst (OnConnect (buildHooks A) now s meta sv) \<noteq> None \<and>
           directory_of A (snd (OnConnect (buildHooks A) now s meta sv)) = directory_of A sv)
    \<and> directory_of A (OnPoll (buildHooks A) pm u hdr sv) =
        (let h = Header_Get hdr (HeaderLocalHealth pm);
             k = (map_get (session_Meta A u) ''subdomain'', map_get (session_Meta A u) ''client_id'')
         in if h \<noteq> '''' \<and> fst k \<noteq> '''' \<and> snd k \<noteq> '''' then report k (h = ''ok'') (directory_of A sv) else directory_of A sv)
    \<and> directory_of A (OnDisconnect (buildHooks A) u sv) = leave (session_ID A u) (directory_of A sv)"
proof -
  have inv: "srv_inv A sv" "typed_heap sv"
    using reachable_inv [OF assms(1)] by simp_all
  from onConnect_view [OF inv(1) assms(2), of now meta] show ?thesis
    unfolding buildHooks_simps onPoll_view [OF inv(1)] onDisconnect_view [OF inv]
    by (auto simp: assms(3) split: option.splits)
qed


section \<open>Witnesses\<close>

theorem server_refines_directory_witness:
  "\<exists>h cid e. HostKey ''app.example.com'' ''example.com'' = Inr h \<and>
     directory_of example_transport example_connected (h, cid) = Some e \<and> pl_healthy e"
proof -
  have "sc_RootDomain (sv_cfg example_connected) = ''example.com''"
    "rq_Host (example_request ''GET'' ''/service/auth/login'' ''x'') = ''app.example.com''"
    by code_simp+
  with server_refines_directory [OF ins.route_sorter_axioms example_reachable,
      of "example_request ''GET'' ''/service/auth/login'' ''x''"] example_forward(1)
  show ?thesis by auto
qed

text \<open>The client connects again with session 1.\<close>

theorem hooks_refine_directory_witness:
  "directory_of example_transport
      (snd (OnConnect (buildHooks example_transport) 9 1 example_meta example_connected)) (''app'', ''home'') =
     Some \<lparr>pl_session = ''si'', pl_healthy = True\<rparr>"
proof -
  have fresh: "GetBySessionID (sv_registry example_connected) (session_ID example_transport 1) = None"
    "ClientSession example_transport (rs_ext (sv_registry example_connected)) 1 = (({}, {}), Inr 1)"
    by code_simp+
  have client: "Lookup (sv_clients example_connected) (map_get example_meta ''client_id'') = Some example_binding"
    "directory_of example_transport example_connected (''app'', ''home'') \<noteq> None"
    "session_ID example_transport 1 = ''si''"
    by code_simp+
  have key: "cb_Subdomain example_binding = ''app''" "cb_ClientID example_binding = ''home''"
    by code_simp+
  with client(2) have "may_join example_binding (directory_of example_transport example_connected)"
    by (simp add: may_join_def present_def)
  with hooks_refine_directory [OF example_reachable fresh, where meta = example_meta and now = 9] client key show ?thesis
    by (simp add: join_def)
qed

end
