(* ===== verification/Graceful_Stop.thy ===== *)
theory Graceful_Stop
  imports Directory_Spec
begin

text \<open>
  \<^verbatim>\<open>Stop\<close> (\<^verbatim>\<open>internal/server/server.go\<close>) while the server goes on working. The sessions are closed first, with
  the hooks in place and the listeners open; requests, polls and connects come in between the statements. The
  result: \<^verbatim>\<open>Stop\<close> closes every tunnel that was there when it listed the sessions and shuts every listener down,
  however it is interleaved, and what is registered afterwards has connected in the meantime; a client that
  reconnects at once does stay registered.
\<close>

section \<open>The statements of Stop and the other events\<close>

text \<open>
  Where \<^verbatim>\<open>Stop\<close> is: called; inside \<^verbatim>\<open>stopOnce.Do\<close>, before the sessions are listed; closing the sessions that are
  left; before the statements that are left, with \<^verbatim>\<open>errOut\<close>; returned.
\<close>

datatype stop_pc =
    Called
  | Entered
  | CloseAll "session_ptr list"
  | Rest "stop_stmt list" "string option"
  | Returned "string option"

definition rest_stmts :: "stop_stmt list" where
  "rest_stmts = [StopSweeper, ShutdownHttp, ShutdownHttp80, ShutdownStatus, CloseDone]"

definition stop_fields ::
  "'x Server \<Rightarrow> bool \<times> bool \<times> HttpServer option \<times> HttpServer option \<times> HttpServer option \<times> bool" where
  "stop_fields sv =
     (sv_stopOnce sv, sv_stopSweeper sv, sv_httpSrv sv, sv_http80Srv sv, sv_statusSrv sv, sv_done sv)"

text \<open>
  A second call of \<^verbatim>\<open>stopOnce.Do\<close> waits for the first one. \<open>env\<close> is any event of the server that is not a start or a
  statement of \<^verbatim>\<open>Stop\<close> itself.
\<close>

inductive stop_step ::
  "'x transport \<Rightarrow> 'x session_store \<Rightarrow> ('x \<Rightarrow> nat \<Rightarrow> 'x \<times> string option) \<Rightarrow> pollmux_consts
     \<Rightarrow> (HttpServer \<Rightarrow> string option) \<Rightarrow> 'x Server \<times> stop_pc \<Rightarrow> 'x Server \<times> stop_pc \<Rightarrow> bool"
  for A P closeStream pm shutdown where
  once: "\<not> sv_stopOnce sv \<Longrightarrow>
    stop_step A P closeStream pm shutdown (sv, Called) (stop_exec EnterOnce sv, Entered)"
| again: "sv_stopOnce sv \<Longrightarrow> sv_done sv \<Longrightarrow>
    stop_step A P closeStream pm shutdown (sv, Called) (sv, Returned None)"
| list_sessions: "stop_step A P closeStream pm shutdown (sv, Entered) (sv, CloseAll (store_All P (rs_ext (sv_registry sv))))"
| close_one: "stop_step A P closeStream pm shutdown (sv, CloseAll (s # ss)) (CloseSession A P s sv, CloseAll ss)"
| all_closed: "stop_step A P closeStream pm shutdown (sv, CloseAll []) (sv, Rest rest_stmts None)"
| stmt: "stop_step A P closeStream pm shutdown (sv, Rest (st # sts) err)
    (stop_exec st sv, Rest sts (if st = ShutdownHttp then Option.bind (sv_httpSrv sv) shutdown else err))"
| returns: "stop_step A P closeStream pm shutdown (sv, Rest [] err) (sv, Returned err)"
| env: "sys_step A P closeStream pm sv sv' \<Longrightarrow> stop_fields sv' = stop_fields sv \<Longrightarrow>
    stop_step A P closeStream pm shutdown (sv, pc) (sv', pc)"

section \<open>Registered tunnels\<close>

text \<open>No event registers a tunnel that existed before and was not registered.\<close>

definition no_comeback :: "'x Server \<Rightarrow> 'x Server \<Rightarrow> bool" where
  "no_comeback sv sv' \<longleftrightarrow>
     (\<forall>sub t. t < sv_nextTunnel sv \<longrightarrow> member_of (sv_registry sv') sub t \<longrightarrow> member_of (sv_registry sv) sub t)"

lemma no_comebackI:
  "(\<And>sub t. member_of (sv_registry sv') sub t \<Longrightarrow> member_of (sv_registry sv) sub t) \<Longrightarrow> no_comeback sv sv'"
  by (simp add: no_comeback_def)

lemma quiet_members:
  "rs_byName reg' = rs_byName reg \<Longrightarrow> (\<And>p. members reg' p = members reg p) \<Longrightarrow> member_of reg' = member_of reg"
  by (simp add: member_of_def named_def fun_eq_iff)

lemma CloseSession_no_comeback:
  assumes "srv_inv A sv"
  shows "no_comeback sv (CloseSession A P s sv)"
proof -
  let ?sv = "upd_registry (\<lambda>reg. reg\<lparr>rs_ext := fst (store_Close P (rs_ext (sv_registry sv)) s)\<rparr>) sv"
  have "srv_inv A ?sv"
    by (rule srv_inv_frame [OF assms]) (simp_all add: ext_inv srv_inv_reg [OF assms])
  from onDisconnect_members(1) [OF this] show ?thesis
    by (intro no_comebackI) (auto simp: CloseSession_def case_prod_beta Let_def split: if_splits)
qed

lemma Stop_no_comeback:
  assumes "srv_inv A sv"
  shows "no_comeback sv (snd (Stop A P sd sv))"
proof -
  have next': "sv_nextTunnel (CloseSession A P s sv) = sv_nextTunnel sv" for s and sv :: "'a Server"
    by (simp add: CloseSession_def onDisconnect_def case_prod_beta Let_def)
  have "no_comeback sv (fold (CloseSession A P) ss sv)" if "srv_inv A sv" for ss sv
    using that
  proof (induction ss arbitrary: sv)
    case (Cons s ss)
    then show ?case
      using CloseSession_no_comeback [OF Cons.prems, of P s] CloseSession_inv [OF Cons.prems, of P s]
      by (fastforce simp: no_comeback_def next')
  qed (simp add: no_comeback_def)
  moreover have "srv_inv A (sv\<lparr>sv_stopOnce := True\<rparr>)"
    by (rule srv_inv_cong [OF assms]) simp_all
  ultimately have "no_comeback (sv\<lparr>sv_stopOnce := True\<rparr>) (fold (CloseSession A P) ss (sv\<lparr>sv_stopOnce := True\<rparr>))" for ss
    by blast
  then show ?thesis
    by (auto simp: Stop_def Let_def no_comeback_def)
qed

lemma onConnect_no_comeback:
  assumes inv: "srv_inv A sv" and sid: "GetBySessionID (sv_registry sv) (session_ID A s) = None"
  shows "no_comeback sv (snd (onConnect A now s meta sv))"
proof -
  obtain x ys where cs: "ClientSession A (rs_ext (sv_registry sv)) s = (x, ys)"
    by fastforce
  let ?cid = "map_get meta ''client_id''"
  show ?thesis
  proof (cases "\<exists>y b. ys = Inr y \<and> Lookup (sv_clients sv) ?cid = Some b")
    case False
    then show ?thesis
      using cs by (cases ys; cases "Lookup (sv_clients sv) ?cid") (simp_all add: onConnect_def no_comeback_def)
  next
    case True
    then obtain y b where y: "ys = Inr y" and b: "Lookup (sv_clients sv) ?cid = Some b"
      by blast
    note c = onConnect_known [OF cs [unfolded y] b, of now]
    show ?thesis
    proof (rule Register_cases [OF with_tunnel_ok [OF inv sid, of now ?cid b y x], of "cb_MaxClients b"])
      fix reg
      assume reg: "Register A (sv_nextTunnel sv) (cb_MaxClients b) (with_tunnel now ?cid b s y x sv) = (None, reg)"
      show ?thesis
        using onConnect_registered(3) [OF inv sid b reg]
        by (auto simp: c reg no_comeback_def split: if_splits)
    qed (use ensured_with_tunnel [OF inv b] in \<open>simp add: c no_comeback_def\<close>)
  qed
qed

lemma sys_step_no_comeback:
  assumes "sys_step A P closeStream pm sv sv'" "srv_inv A sv"
  shows "no_comeback sv sv'"
  using assms(1)
proof cases
  case (connect s now meta)
  then show ?thesis using onConnect_no_comeback [OF assms(2)] by simp
next
  case (disconnect s)
  then show ?thesis using onDisconnect_members(1) [OF assms(2)] by (simp add: no_comeback_def)
next
  case (close_session s)
  then show ?thesis using CloseSession_no_comeback [OF assms(2)] by simp
next
  case (stop sd)
  then show ?thesis using Stop_no_comeback [OF assms(2)] by simp
next
  case (request r)
  obtain reg where "snd (servePublic A r sv) = sv\<lparr>sv_registry := reg\<rparr>"
    "reg = sv_registry sv \<or> (\<exists>p. reg = snd (Pool_Pick A p (sv_registry sv)))"
    using servePublic_registry [of A r sv] by blast
  with request show ?thesis using quiet_members [of reg "sv_registry sv"] by (auto simp: no_comeback_def)
next
  case (dial t)
  obtain x f where "snd (OpenStream A t (sv_registry sv)) = upd_tunnel t f ((sv_registry sv)\<lparr>rs_ext := x\<rparr>)"
    by (rule OpenStream_frame)
  with dial show ?thesis
    using quiet_members [of "snd (OpenStream A t (sv_registry sv))" "sv_registry sv"] by (simp add: no_comeback_def)
next
  case (drained old d)
  then show ?thesis
    using quiet_members [of "fst (Close_tunnel A old (sv_registry sv))" "sv_registry sv"] by (simp add: no_comeback_def)
next
  case (close c)
  then show ?thesis
    using quiet_members [of "snd (countedConn_Close closeStream c (sv_registry sv))" "sv_registry sv"]
    by (simp add: no_comeback_def countedConn_Close_def case_prod_beta Let_def)
qed (auto intro!: no_comebackI simp: Start_frame stop_exec_frame StartOnListener_def onPoll_def Let_def split: if_splits)

section \<open>Invariant\<close>

text \<open>What a statement has achieved; no later event undoes it.\<close>

fun stop_done :: "stop_stmt \<Rightarrow> 'x Server \<Rightarrow> bool" where
  "stop_done EnterOnce sv = sv_stopOnce sv"
| "stop_done StopSweeper sv = (\<not> sv_stopSweeper sv)"
| "stop_done ShutdownHttp sv = pred_option hs_Shutdown (sv_httpSrv sv)"
| "stop_done ShutdownHttp80 sv = pred_option hs_Shutdown (sv_http80Srv sv)"
| "stop_done ShutdownStatus sv = pred_option hs_Shutdown (sv_statusSrv sv)"
| "stop_done CloseDone sv = sv_done sv"

lemma stop_done_fields: "stop_fields sv' = stop_fields sv \<Longrightarrow> stop_done st sv' = stop_done st sv"
  by (cases st) (simp_all add: stop_fields_def)

lemma stop_done_exec: "stop_done st (stop_exec st' sv) \<longleftrightarrow> st = st' \<or> stop_done st sv"
  by (cases st; cases st') (auto simp: option.pred_map pred_option_def)

lemma CloseSession_fields: "stop_fields (CloseSession A P s sv) = stop_fields sv"
  by (simp add: CloseSession_def onDisconnect_def stop_fields_def case_prod_beta Let_def)

text \<open>The tunnels older than \<open>n\<close> that are still registered belong to the sessions \<open>ss\<close>.\<close>

definition leftover :: "nat \<Rightarrow> session_ptr list \<Rightarrow> 'x Server \<Rightarrow> bool" where
  "leftover n ss sv \<longleftrightarrow>
     (\<forall>sub t. t < n \<longrightarrow> member_of (sv_registry sv) sub t \<longrightarrow> ct_Session (rs_tunnels (sv_registry sv) t) \<in> Some ` set ss)"

definition stop_inv :: "'x transport \<Rightarrow> nat \<Rightarrow> 'x Server \<times> stop_pc \<Rightarrow> bool" where
  "stop_inv A n s \<longleftrightarrow> (case s of (sv, pc) \<Rightarrow>
     srv_inv A sv \<and> n \<le> sv_nextTunnel sv \<and> sv_stopOnce sv \<and>
     (case pc of
        Called \<Rightarrow> False
      | Entered \<Rightarrow> False
      | CloseAll ss \<Rightarrow> leftover n ss sv
      | Rest sts err \<Rightarrow> leftover n [] sv \<and> (\<forall>st \<in> set rest_stmts. st \<in> set sts \<or> stop_done st sv)
      | Returned err \<Rightarrow> leftover n [] sv \<and> (\<forall>st \<in> set rest_stmts. stop_done st sv)))"

lemma sys_step_leftover:
  assumes "sys_step A P closeStream pm sv sv'" "srv_inv A sv" "n \<le> sv_nextTunnel sv" "leftover n ss sv"
  shows "leftover n ss sv' \<and> n \<le> sv_nextTunnel sv'"
proof -
  have heap: "extends_heap sv sv'"
    using sys_step_heap [OF assms(1)] by blast
  then have "ct_Session (rs_tunnels (sv_registry sv') t) = ct_Session (rs_tunnels (sv_registry sv) t)" if "t < n" for t
    using that assms(3) by (auto simp: extends_heap_def static_fields_def)
  moreover have "member_of (sv_registry sv) sub t" if "t < n" "member_of (sv_registry sv') sub t" for sub t
    using that assms(3) sys_step_no_comeback [OF assms(1,2)] by (simp add: no_comeback_def)
  ultimately have "leftover n ss sv'"
    using assms(4) unfolding leftover_def by (metis (full_types))
  then show ?thesis
    using assms(3) heap by (simp add: extends_heap_def)
qed

lemma CloseSession_leftover:
  assumes "leftover n (s # ss) sv" "srv_inv A sv" "\<And>x s. snd (store_Close P x s)"
  shows "leftover n ss (CloseSession A P s sv)"
  using assms(1) CloseSession_members [OF assms(2,3), of s] by (fastforce simp: leftover_def has_sid_def)

lemma stop_step_inv:
  assumes "stop_step A P closeStream pm shutdown s s'" "stop_inv A n s" "\<And>x s. snd (store_Close P x s)"
  shows "stop_inv A n s'"
  using assms(1)
proof cases
  case (close_one sv c ss)
  have sys: "sys_step A P closeStream pm sv (CloseSession A P c sv)"
    by (rule sys_step.close_session)
  have "srv_inv A sv" "leftover n (c # ss) sv" "n \<le> sv_nextTunnel sv" "sv_stopOnce sv"
    using assms(2) close_one by (simp_all add: stop_inv_def)
  then show ?thesis
    using CloseSession_leftover [OF _ _ assms(3)] sys_step_leftover [OF sys] sys_step_inv [OF sys]
      CloseSession_fields [of A P c sv]
    by (auto simp: stop_inv_def stop_fields_def close_one(2))
next
  case (stmt sv st sts err)
  have "srv_inv A sv" using assms(2) stmt by (simp add: stop_inv_def)
  then have "srv_inv A (stop_exec st sv)"
    by (rule srv_inv_cong) (simp_all add: stop_exec_frame)
  moreover have "leftover n [] (stop_exec st sv) = leftover n [] sv" "sv_stopOnce (stop_exec st sv) = (st = EnterOnce \<or> sv_stopOnce sv)"
    by (simp add: leftover_def stop_exec_frame) (cases st; simp)
  ultimately show ?thesis
    using assms(2) stmt by (auto simp: stop_inv_def stop_done_exec stop_exec_frame)
next
  case (env sv sv' pc)
  have inv: "srv_inv A sv" "n \<le> sv_nextTunnel sv" "sv_stopOnce sv" using assms(2) env by (simp_all add: stop_inv_def)
  then show ?thesis
    using assms(2) sys_step_leftover [OF env(3) inv(1,2)] sys_step_inv [OF env(3) inv(1)] env(1,2) stop_done_fields [OF env(4)]
      env(4)
    by (auto simp: stop_inv_def stop_fields_def split: stop_pc.splits)
qed (use assms(2) in \<open>auto simp: stop_inv_def\<close>)

lemma stop_steps_inv:
  assumes "(stop_step A P closeStream pm shutdown)\<^sup>*\<^sup>* s s'" "stop_inv A n s" "\<And>x s. snd (store_Close P x s)"
  shows "stop_inv A n s'"
  using assms(1) by (induction rule: rtranclp_induct) (use assms(2) stop_step_inv [OF _ _ assms(3)] in auto)

section \<open>Stop as one operation\<close>

lemma closing_run:
  "(stop_step A P closeStream pm shutdown)\<^sup>*\<^sup>* (sv, CloseAll ss) (fold (CloseSession A P) ss sv, CloseAll [])"
  by (induction ss arbitrary: sv) (auto intro: converse_rtranclp_into_rtranclp stop_step.close_one)

lemma rest_run:
  "(stop_step A P closeStream pm shutdown)\<^sup>*\<^sup>* (sv, CloseAll [])
     (fold stop_exec rest_stmts sv, Returned (Option.bind (sv_httpSrv sv) shutdown))"
proof -
  let ?R = "stop_step A P closeStream pm shutdown" and ?err = "Option.bind (sv_httpSrv sv) shutdown"
  have keeps: "?R\<^sup>*\<^sup>* (sv, Rest sts err) (fold stop_exec sts sv, Rest [] err)" if "ShutdownHttp \<notin> set sts" for sv sts err
    using that
  proof (induction sts arbitrary: sv)
    case (Cons st sts)
    then show ?case
      using stop_step.stmt [of A P closeStream pm shutdown sv st sts err] by (auto intro: converse_rtranclp_into_rtranclp)
  qed simp
  let ?sv = "stop_exec StopSweeper sv"
  have "?R\<^sup>*\<^sup>* (sv, CloseAll []) (sv, Rest rest_stmts None)"
    by (rule r_into_rtranclp [where r = ?R, OF stop_step.all_closed])
  also have "?R (sv, Rest rest_stmts None) (?sv, Rest (tl rest_stmts) None)"
    using stop_step.stmt [of A P closeStream pm shutdown sv StopSweeper "tl rest_stmts" None] by (simp add: rest_stmts_def)
  also have "?R (?sv, Rest (tl rest_stmts) None) (stop_exec ShutdownHttp ?sv, Rest (tl (tl rest_stmts)) ?err)"
    using stop_step.stmt [of A P closeStream pm shutdown ?sv ShutdownHttp "tl (tl rest_stmts)" None]
    by (simp add: rest_stmts_def split: if_splits)
  also have "?R\<^sup>*\<^sup>* (stop_exec ShutdownHttp ?sv, Rest (tl (tl rest_stmts)) ?err) (fold stop_exec rest_stmts sv, Rest [] ?err)"
    using keeps [of "tl (tl rest_stmts)" "stop_exec ShutdownHttp ?sv" ?err] by (simp add: rest_stmts_def)
  also have "?R (fold stop_exec rest_stmts sv, Rest [] ?err) (fold stop_exec rest_stmts sv, Returned ?err)"
    by (rule stop_step.returns)
  finally show ?thesis .
qed

text \<open>Without other events in between, the statements are the operation \<^const>\<open>Stop\<close>.\<close>

lemma Stop_undisturbed:
  assumes "\<not> sv_stopOnce sv"
  shows "(stop_step A P closeStream pm shutdown)\<^sup>*\<^sup>* (sv, Called)
    (snd (Stop A P shutdown sv), Returned (fst (Stop A P shutdown sv)))"
proof -
  let ?sv = "stop_exec EnterOnce sv" and ?R = "stop_step A P closeStream pm shutdown"
  let ?closed = "fold (CloseSession A P) (store_All P (rs_ext (sv_registry sv))) ?sv"
  have "?R\<^sup>*\<^sup>* (sv, Called) (?sv, Entered)"
    by (rule r_into_rtranclp [where r = ?R, OF stop_step.once [OF assms]])
  also have "?R (?sv, Entered) (?sv, CloseAll (store_All P (rs_ext (sv_registry sv))))"
    using stop_step.list_sessions [of A P closeStream pm shutdown ?sv] by simp
  also have "?R\<^sup>*\<^sup>* \<dots> (?closed, CloseAll [])"
    by (rule closing_run)
  also have "?R\<^sup>*\<^sup>* \<dots> (snd (Stop A P shutdown sv), Returned (fst (Stop A P shutdown sv)))"
    using rest_run [of A P closeStream pm shutdown ?closed] assms
    by (auto simp: Stop_def rest_stmts_def Let_def split: option.splits)
  finally show ?thesis .
qed

section \<open>What Stop leaves behind\<close>

lemma stop_step_sys:
  assumes "stop_step A P closeStream pm shutdown (sv, pc) (sv', pc')"
  shows "sv' = sv \<or> sys_step A P closeStream pm sv sv'"
    and "pc' = Entered \<Longrightarrow> pc = Entered \<and> stop_fields sv' = stop_fields sv \<or> sv_stopOnce sv'"
proof -
  show "sv' = sv \<or> sys_step A P closeStream pm sv sv'"
    using assms sys_step.stop_stmt [of A P closeStream pm sv EnterOnce]
    by cases (auto intro: sys_step.close_session sys_step.stop_stmt)
  show "pc = Entered \<and> stop_fields sv' = stop_fields sv \<or> sv_stopOnce sv'" if "pc' = Entered"
    using assms that by cases auto
qed

lemma stop_steps_entered:
  assumes "(stop_step A P closeStream pm shutdown)\<^sup>*\<^sup>* (sv, Called) s" "sys_reachable A P closeStream pm srt cfg sv"
  shows "sys_reachable A P closeStream pm srt cfg (fst s) \<and> (snd s = Entered \<longrightarrow> sv_stopOnce (fst s))"
  using assms(1)
proof (induction rule: rtranclp_induct)
  case (step s s')
  obtain sv1 pc1 sv2 pc2 where s: "s = (sv1, pc1)" "s' = (sv2, pc2)"
    by (cases s, cases s')
  show ?case
    using step.IH stop_step_sys [OF step.hyps(2) [unfolded s]] by (auto simp: s stop_fields_def intro: sys_reachable.step)
qed (use assms(2) in simp)

text \<open>
  C33: \<^verbatim>\<open>Stop\<close> under interference. Let \<^verbatim>\<open>Stop\<close> be called on a running server and let requests, connects, polls,
  disconnects and any other events happen between its statements. If the store, when \<^verbatim>\<open>Stop\<close> lists its sessions,
  holds every session that has a registered tunnel, and closing a session runs the disconnect hook, then, when
  \<^verbatim>\<open>Stop\<close> returns, every listener that was started is shut down, the sweeper is stopped and the channel \<^verbatim>\<open>done\<close> is closed;
  every tunnel that is registered belongs to a client that connected after the sessions were listed, so if no
  client did, none is registered; and another \<^verbatim>\<open>Stop\<close> changes nothing and reports no error. The first \<^verbatim>\<open>Stop\<close> without
  interference is the operation \<^const>\<open>Stop\<close>.
\<close>

theorem graceful_stop:
  assumes "sys_reachable A P closeStream pm srt cfg sv0"
    and "(stop_step A P closeStream pm shutdown)\<^sup>*\<^sup>* (sv0, Called) (sv, Entered)"
    and "(stop_step A P closeStream pm shutdown)\<^sup>*\<^sup>*
           (sv, CloseAll (store_All P (rs_ext (sv_registry sv)))) (sv', Returned err)"
    and "\<And>x s. snd (store_Close P x s)"
    and "\<And>sub t. member_of (sv_registry sv) sub t \<Longrightarrow>
           \<exists>s \<in> set (store_All P (rs_ext (sv_registry sv))). ct_Session (rs_tunnels (sv_registry sv) t) = Some s"
  shows "sv_done sv' \<and> \<not> sv_stopSweeper sv'
    \<and> pred_option hs_Shutdown (sv_httpSrv sv') \<and> pred_option hs_Shutdown (sv_http80Srv sv')
    \<and> pred_option hs_Shutdown (sv_statusSrv sv')
    \<and> (\<forall>sub t. member_of (sv_registry sv') sub t \<longrightarrow> sv_nextTunnel sv \<le> t)
    \<and> (sv_nextTunnel sv' = sv_nextTunnel sv \<longrightarrow> (\<forall>sub. pool_members sv' sub = {}))
    \<and> Stop A P shutdown' sv' = (None, sv')
    \<and> (\<not> sv_stopOnce sv0 \<longrightarrow> (stop_step A P closeStream pm shutdown)\<^sup>*\<^sup>* (sv0, Called)
          (snd (Stop A P shutdown sv0), Returned (fst (Stop A P shutdown sv0))))"
proof -
  have entered: "sys_reachable A P closeStream pm srt cfg sv" "sv_stopOnce sv"
    using stop_steps_entered [OF assms(2,1)] by simp_all
  then have "stop_inv A (sv_nextTunnel sv) (sv, CloseAll (store_All P (rs_ext (sv_registry sv))))"
    using reachable_inv [OF entered(1)] assms(5) by (fastforce simp: stop_inv_def leftover_def)
  from stop_steps_inv [OF assms(3) this assms(4)]
  have inv: "srv_inv A sv'" "sv_stopOnce sv'" "\<And>st. st \<in> set rest_stmts \<Longrightarrow> stop_done st sv'"
    and old: "\<And>sub t. member_of (sv_registry sv') sub t \<Longrightarrow> \<not> t < sv_nextTunnel sv"
    by (auto simp: stop_inv_def leftover_def)
  have "stop_done StopSweeper sv'" "stop_done ShutdownHttp sv'" "stop_done ShutdownHttp80 sv'"
    "stop_done ShutdownStatus sv'" "stop_done CloseDone sv'"
    by (intro inv(3), simp add: rest_stmts_def)+
  moreover have "sv_nextTunnel sv' = sv_nextTunnel sv \<longrightarrow> (\<forall>sub. pool_members sv' sub = {})"
    using old srv_inv_member [OF inv(1)] by auto
  ultimately show ?thesis
    using old inv(2) Stop_undisturbed [of sv0 A P closeStream pm shutdown] by (simp add: Stop_def not_less)
qed

section \<open>Runs\<close>

text \<open>The server with one client stops.\<close>

abbreviation example_stopping :: "example_ext Server" where
  "example_stopping \<equiv> stop_exec EnterOnce example_connected"

lemma example_stop_entered:
  "(stop_step example_transport example_store example_close example_consts (\<lambda>_. None))\<^sup>*\<^sup>*
     (example_connected, Called) (example_stopping, Entered)"
proof -
  have "\<not> sv_stopOnce example_connected"
    by code_simp
  then show ?thesis
    by (intro r_into_rtranclp stop_step.once)
qed

theorem graceful_stop_witness:
  "sv_done (fold stop_exec rest_stmts (CloseSession example_transport example_store 0 example_stopping)) \<and>
   pool_members (fold stop_exec rest_stmts (CloseSession example_transport example_store 0 example_stopping)) ''app'' = {}"
proof -
  let ?R = "stop_step example_transport example_store example_close example_consts (\<lambda>_. None)"
  let ?sv' = "fold stop_exec rest_stmts (CloseSession example_transport example_store 0 example_stopping)"
  have "?R (example_stopping, CloseAll [0]) (CloseSession example_transport example_store 0 example_stopping, CloseAll [])"
    by (rule stop_step.close_one)
  from converse_rtranclp_into_rtranclp [OF this rest_run]
  obtain err where run: "?R\<^sup>*\<^sup>* (example_stopping, CloseAll (store_All example_store (rs_ext (sv_registry example_stopping))))
      (?sv', Returned err)"
    by (auto simp: example_store_def)
  have facts: "ct_Session (rs_tunnels (sv_registry example_stopping) 0) = Some 0" "sv_nextTunnel example_stopping = 1"
    "sv_nextTunnel ?sv' = 1"
    by code_simp+
  have "srv_inv example_transport example_stopping"
    using srv_inv_cong [of example_transport example_connected example_stopping] reachable_inv [OF example_reachable] by simp
  then have store: "\<exists>s \<in> set (store_All example_store (rs_ext (sv_registry example_stopping))).
      ct_Session (rs_tunnels (sv_registry example_stopping) t) = Some s"
    if "member_of (sv_registry example_stopping) sub t" for sub t
    using srv_inv_member that facts(1,2) by (fastforce simp: example_store_def)
  from graceful_stop [OF example_reachable example_stop_entered run _ store] facts(2,3) show ?thesis
    by (simp add: example_store_def)
qed

text \<open>
  The client is disconnected by \<^verbatim>\<open>Stop\<close> and connects again, with a new session, before the listener is shut down:
  after \<^verbatim>\<open>Stop\<close> its new tunnel is registered, and nothing closes its session.
\<close>

definition example_reconnected :: "example_ext Server" where
  "example_reconnected =
     snd (onConnect example_transport 6 1 example_meta (CloseSession example_transport example_store 0 example_stopping))"

lemma stop_reconnect:
  "\<exists>sv' err. (stop_step example_transport example_store example_close example_consts (\<lambda>_. None))\<^sup>*\<^sup>*
      (example_connected, Called) (sv', Returned err) \<and>
    sv_done sv' \<and> Pool (sv_registry sv') ''app'' = Some 0 \<and> members (sv_registry sv') 0 = [1] \<and>
    available example_transport (sv_registry sv') 1"
proof -
  let ?R = "stop_step example_transport example_store example_close example_consts (\<lambda>_. None)"
  let ?closed = "CloseSession example_transport example_store 0 example_stopping"
  have "GetBySessionID (sv_registry ?closed) (session_ID example_transport 1) = None"
    by code_simp
  then have sys: "sys_step example_transport example_store example_close example_consts ?closed example_reconnected"
    unfolding example_reconnected_def
    using sys_step.connect [of ?closed example_transport 1 example_store example_close example_consts 6 example_meta] by simp
  have fields: "stop_fields example_reconnected = stop_fields ?closed"
    by code_simp
  note example_stop_entered
  also have "?R (example_stopping, Entered) (example_stopping, CloseAll [0])"
    using stop_step.list_sessions [of example_transport example_store example_close example_consts "\<lambda>_. None" example_stopping]
    by (simp add: example_store_def)
  also have "?R \<dots> (?closed, CloseAll [])"
    by (rule stop_step.close_one)
  also have "?R \<dots> (example_reconnected, CloseAll [])"
    by (rule stop_step.env [OF sys fields])
  also note rest_run [of example_transport example_store example_close example_consts "\<lambda>_. None" example_reconnected]
  finally have "\<exists>err. ?R\<^sup>*\<^sup>* (example_connected, Called) (fold stop_exec rest_stmts example_reconnected, Returned err)"
    by blast
  moreover have "sv_done (fold stop_exec rest_stmts example_reconnected)"
    "Pool (sv_registry (fold stop_exec rest_stmts example_reconnected)) ''app'' = Some 0"
    "members (sv_registry (fold stop_exec rest_stmts example_reconnected)) 0 = [1]"
    "available example_transport (sv_registry (fold stop_exec rest_stmts example_reconnected)) 1"
    by code_simp+
  ultimately show ?thesis
    by blast
qed

end
