(* ===== verification/Spec2Isabelle.thy ===== *)
theory Spec2Isabelle
  imports Mains Exchange Stream_Limit Graceful_Stop
begin

text \<open>
  A model of HttpHop, a reverse tunnel in Go. A client at home connects to a public server; the server
  routes HTTP requests for \<^verbatim>\<open><subdomain>.<root domain>/<prefix>\<close> over the connection to the client, which copies
  them to a local service. File names below are relative to \<^verbatim>\<open>src/\<close>.

  \<^bold>\<open>Parts of the program and how they interact.\<close> \<^verbatim>\<open>cmd/server/main.go\<close> loads a configuration (\<^verbatim>\<open>internal/config\<close>) and
  starts a \<^verbatim>\<open>Server\<close> (\<^verbatim>\<open>internal/server\<close>). The server has a route table (\<^verbatim>\<open>internal/router\<close>) and a registry of tunnels
  with one pool per subdomain (\<^verbatim>\<open>internal/registry\<close>). The library pollmux serves the control path and calls the
  hooks \<^verbatim>\<open>authenticateConnect\<close>, \<^verbatim>\<open>onConnect\<close>, \<^verbatim>\<open>onPoll\<close> and \<^verbatim>\<open>onDisconnect\<close>, which change the registry. A public request
  goes through \<^verbatim>\<open>rootHandler\<close>, \<^verbatim>\<open>servePublic\<close> (host key, route, tunnel) and the reverse proxy, which opens a
  counted yamux stream on the tunnel and rewrites the headers of the reply. \<^verbatim>\<open>cmd/client/main.go\<close> loads one or
  several services, takes a lock file, and supervises one \<^verbatim>\<open>internal/client\<close> per service: a health checker, a
  session loop, and a stream handler that bridges each stream to the local service.

  \<^bold>\<open>Theories.\<close>

  \<^item> \<^verbatim>\<open>Hop_Prelude\<close>, \<^verbatim>\<open>Go_Path\<close>, \<^verbatim>\<open>Go_Url\<close>, \<^verbatim>\<open>Go_Http\<close>: what the sources use of the Go language and its standard library:
    byte strings and \<^verbatim>\<open>strings\<close>, 64-bit durations with their wrap-around, \<^verbatim>\<open>path.Clean\<close> and \<^verbatim>\<open>filepath\<close>, \<^verbatim>\<open>net/url\<close>,
    headers, requests and \<^verbatim>\<open>http.Redirect\<close>. They have no behaviour of HttpHop.
  \<^item> \<^verbatim>\<open>Config\<close>, \<^verbatim>\<open>Config_Load\<close>: \<^verbatim>\<open>internal/config\<close>. One record per struct; \<^const>\<open>LoadServer\<close>, \<^const>\<open>LoadClient\<close>, token
    files, defaults, \<^const>\<open>ValidateServer\<close> and \<^const>\<open>ValidateClient\<close> with a constructor of \<^typ>\<open>config_error\<close> for every error.
    The validators accept exactly what the predicates \<^const>\<open>server_ok\<close> and \<^const>\<open>client_ok\<close> say; loading is sound for them.
  \<^item> \<^verbatim>\<open>Registry\<close>: \<^verbatim>\<open>internal/registry\<close>. Tunnels are shared by pointer, so they live in a heap from addresses to
    records; \<^typ>\<open>'x reg_state\<close> has the heap, the pools and the session index. The invariant \<^const>\<open>reg_inv\<close> ties the three
    together and every operation keeps it. The locale \<^verbatim>\<open>balancer\<close> is the Go interface of the same name, interpreted
    by the first-available balancer; the locale \<^verbatim>\<open>tunnel_directory\<close> is what clients of the registry rely on (lookup
    by client and by session agree), interpreted by the registry, and gives the supersession results.
  \<^item> \<^verbatim>\<open>Router\<close>: \<^verbatim>\<open>internal/router\<close>. Host keys, certificate names, route table, longest-prefix match. The locale
    \<^verbatim>\<open>route_sorter\<close> is what \<^verbatim>\<open>sort.Slice\<close> promises for every strict weak order (a permutation without inversions), and
    \<^const>\<open>NewRouteTable\<close> calls it with the comparison of the source, \<^const>\<open>longer_prefix\<close>; it is interpreted by insertion sort
    and by a sort that reverses equal elements, so that nothing rests on stability.
  \<^item> \<^verbatim>\<open>Rewrite\<close>, \<^verbatim>\<open>Auth\<close>: \<^verbatim>\<open>proxy_rewrite.go\<close>, and \<^verbatim>\<open>auth.go\<close> with \<^verbatim>\<open>errors.go\<close> of \<^verbatim>\<open>internal/server\<close>. Prefix and cookie rewriting
    and their round trips; token comparison.
  \<^item> \<^verbatim>\<open>Server\<close>: \<^verbatim>\<open>server.go\<close>, \<^verbatim>\<open>status.go\<close>, \<^verbatim>\<open>tls.go\<close>. The record \<^verbatim>\<open>Server\<close>, construction, control routes with session
    authentication, the hooks, start, stop, TLS. The invariant \<^const>\<open>srv_inv\<close> adds to \<^const>\<open>reg_inv\<close> that pools and their
    members come from the configuration.
  \<^item> \<^verbatim>\<open>Proxy\<close>: \<^verbatim>\<open>proxy.go\<close> and the counted connections of \<^verbatim>\<open>bridge.go\<close>. The inductive relation \<^const>\<open>sys_step\<close> has one rule
    per event (start, connect, poll, disconnect, request, dial, close, end of a drain, transport change, stop and
    its statements); \<^const>\<open>sys_reachable\<close> are the states of a running server, and their invariant is by rule induction.
  \<^item> \<^verbatim>\<open>Nil_Safety\<close>: the typing of the heap of tunnels. The fields that identify a tunnel are written once, and every
    tunnel that was allocated has both of its sessions; so neither the dial of a request that has waited nor the
    status page dereferences a nil pointer.
  \<^item> \<^verbatim>\<open>Directory_Spec\<close>: the abstract specification of the server, a map from subdomain and client ID to session and
    health with the steps \<^const>\<open>join\<close>, \<^const>\<open>report\<close> and \<^const>\<open>leave\<close>. The locale \<^verbatim>\<open>simulation\<close> says what it means that a
    machine implements another one and carries invariants over; its interpretation on \<^const>\<open>sys_step\<close> and \<^const>\<open>dir_step\<close> is
    the refinement of the directory by the server.
  \<^item> \<^verbatim>\<open>Drain\<close>: the goroutine of \<^verbatim>\<open>beginSupersedeDrain\<close>, statement by statement, interleaved with requests, other changes of
    the registry and the clock: which streams of a superseded tunnel it can cut off, and when.
  \<^item> \<^verbatim>\<open>Stream_Limit\<close>: requests between the check of the stream limit in \<^verbatim>\<open>servePublic\<close> and their dial, as a step relation
    over the server, such requests and the open connections: exactness of the counters, and by how much the
    configured limit can be exceeded.
  \<^item> \<^verbatim>\<open>Graceful_Stop\<close>: \<^verbatim>\<open>Stop\<close> statement by statement, interleaved with all events of the server: what it has achieved
    when it returns, and which tunnels can be left. \<^const>\<open>Stop\<close> of the theory \<^verbatim>\<open>Server\<close> is its run without interference.
  \<^item> \<^verbatim>\<open>Bridge\<close>: \<^verbatim>\<open>internal/client/handler.go\<close> and \<^verbatim>\<open>Bridge\<close> of \<^verbatim>\<open>internal/server/bridge.go\<close>. Copy loops, waiting
    goroutines and both peers as step relations over two connections.
  \<^item> \<^verbatim>\<open>Exchange\<close>: the reverse proxy of the server and the stream handler of the client put together to one exchange
    with the local service.
  \<^item> \<^verbatim>\<open>Client\<close>: \<^verbatim>\<open>client.go\<close>, \<^verbatim>\<open>diagnostics.go\<close>, \<^verbatim>\<open>session_detail.go\<close> of \<^verbatim>\<open>internal/client\<close> and the supervisor loop.
  \<^item> \<^verbatim>\<open>Preflight\<close>: \<^verbatim>\<open>preflight.go\<close>, \<^verbatim>\<open>preflight_pgrep.go\<close>. The lock file as a state machine over processes, inodes and
    advisory locks, and the reading of process IDs.
  \<^item> \<^verbatim>\<open>Mains\<close>: the two main functions with their command-line flags.
  \<^item> This theory: properties that span components: a connected client is served, the credentials of the two
    programs agree, which requests the control plane takes, redirects lead back to the backend.

  \<^bold>\<open>Parameters.\<close> pollmux, yamux, viper, autocert and gorilla/mux are not in the repository. Sessions are a record of
  functions over an abstract state of the transport (argument \<open>A\<close>); the constants of pollmux are the record \<open>pm\<close>;
  the session store (\<open>P\<close>), what viper decodes, file contents, probes, dials, replies of backends and the
  parsing of a request by \<^verbatim>\<open>http.ReadRequest\<close> are arguments. What a property needs of them are its hypotheses. Each property with
  a hypothesis has a witness on a concrete configuration and transport.

  \<^bold>\<open>Fuel and bounds.\<close> The drain loop of a superseded tunnel and the supervisor loop are recursions with fuel. For
  the first, one round per 100 ms of the timeout is enough whenever the clock advances by what was slept; for
  the second, termination depends on the environment, and the result says exactly for which histories of
  sessions it ends and that a fuel of that length sees it. The bridge has no fuel: \<^const>\<open>bridge_work\<close> bounds the
  number of its steps once both peers have ended. Durations are 64-bit; where the code doubles one, the model
  wraps, and the bounds on timeouts carry the hypothesis that the double fits.

  \<^bold>\<open>Not modelled.\<close> Log output and the registration of signals (effects without influence on the state); the data race
  of \<^verbatim>\<open>TunnelPool.Pick\<close> (operations under a mutex are atomic here); back-pressure of connections (a write of the copy loops never
  blocks); the wire protocols of pollmux and yamux, TLS and
  ACME (library code); bytes outside ASCII in case mapping; declarations that no code of the program uses or that
  only return a field (\<^verbatim>\<open>PathRewrite\<close>, \<^verbatim>\<open>RouteTable.Validate\<close>, \<^verbatim>\<open>stripPort\<close> of \<^verbatim>\<open>proxy.go\<close>, the getters at the end of \<^verbatim>\<open>server.go\<close>);
  the shell scripts of \<^verbatim>\<open>scripts/macos\<close> and the tests.
\<close>

section \<open>From connect to request\<close>

lemma reachable_parts:
  assumes "route_sorter srt" "sys_reachable A P closeStream pm srt cfg sv"
  shows "srv_inv A sv" "routes_ok sv" "ValidateServer pm cfg = Inr (sv_cfg sv)"
  using sys_reachable_inv [OF assms] by (simp_all add: sys_inv_def)

text \<open>A request with a route is forwarded if a member of the pool is available and no available one is at the limit.\<close>

lemma forwarded_if_available:
  assumes "routes_ok sv" "HostKey (rq_Host q) (sc_RootDomain (sv_cfg sv)) = Inr h"
    and "b \<in> set (host_bindings h (sc_Clients (sv_cfg sv)))" "binding_matches (Clean (url_Path (rq_URL q))) b"
    and "member_of (sv_registry sv) h t" "available A (sv_registry sv) t"
    and "\<And>u. member_of (sv_registry sv) h u \<Longrightarrow> available A (sv_registry sv) u \<Longrightarrow>
           ct_ActiveStreams (rs_tunnels (sv_registry sv) u) < tun_MaxStreamsPerTunnel (sc_Tunnel (sv_cfg sv))"
  shows "\<exists>ctx u. fst (servePublic A q sv) = Forward ctx \<and> pc_tunnel ctx = Some u \<and> member_of (sv_registry sv) h u"
proof -
  obtain route where m: "Match (sv_routes sv) h (url_Path (rq_URL q)) = Inr route"
    using routes_ok_Inl [OF assms(1), of h "url_Path (rq_URL q)"] assms(3,4)
    by (cases "Match (sv_routes sv) h (url_Path (rq_URL q))") (auto simp: list_all_iff)
  have named: "named (sv_registry sv) h (rt_Pool route)"
    by (rule routes_ok_Inr(1) [OF assms(1) m])
  then have "t \<in> set (members (sv_registry sv) (rt_Pool route))"
    using assms(5) by (simp add: member_of_named)
  then obtain u where u: "firstAvailable_Pick A (sv_registry sv) (members (sv_registry sv) (rt_Pool route)) = Some u"
    using fa.pick_iff assms(6) by blast
  then have "u \<in> set (members (sv_registry sv) (rt_Pool route))" "available A (sv_registry sv) u"
    using fa.pick_sound by blast+
  moreover from this(1) named have "member_of (sv_registry sv) h u"
    by (rule member_ofI [rotated])
  ultimately show ?thesis
    using servePublic_routed [OF assms(2) m, of A] u assms(7) [of u] by (simp add: forward_ctx_def)
qed

text \<open>
  C9: a client that has connected is served. After a connect that was admitted, with a yamux session that
  can be opened and is not closed, a public request whose host names the client's subdomain and whose path
  some binding of that subdomain matches is forwarded to a tunnel of the subdomain, as long as no tunnel of
  the subdomain has reached the stream limit.
\<close>

theorem connected_client_served:
  assumes "route_sorter srt" "sys_reachable A P closeStream pm srt cfg sv"
    and "authenticateConnect sv r req = Inr meta"
    and "GetBySessionID (sv_registry sv) (session_ID A s) = None"
    and "ClientSession A (rs_ext (sv_registry sv)) s = (x, Inr y)"
    and "\<not> yamux_IsClosed A x y" "\<not> session_IsClosed A x s"
    and "sub = map_get meta ''subdomain''" "HostKey (rq_Host q) (sc_RootDomain (sv_cfg sv)) = Inr sub"
    and "b \<in> set (host_bindings sub (sc_Clients (sv_cfg sv)))" "binding_matches (Clean (url_Path (rq_URL q))) b"
    and "0 < tun_MaxStreamsPerTunnel (sc_Tunnel (sv_cfg sv))"
    and "\<And>t. member_of (sv_registry sv) sub t \<Longrightarrow>
           ct_ActiveStreams (rs_tunnels (sv_registry sv) t) < tun_MaxStreamsPerTunnel (sc_Tunnel (sv_cfg sv))"
  shows "\<exists>sv' ctx t. onConnect A now s meta sv = (None, sv') \<and> fst (servePublic A q sv') = Forward ctx \<and>
    pc_tunnel ctx = Some t \<and> member_of (sv_registry sv') sub t"
proof -
  note inv = reachable_parts [OF assms(1,2)]
  obtain b' reg where b': "Lookup (sv_clients sv) (requested_client req) = Some b'"
    and meta: "map_get meta ''client_id'' = requested_client req" "map_get meta ''subdomain'' = cb_Subdomain b'"
    and reg: "Register A (sv_nextTunnel sv) (cb_MaxClients b') (with_tunnel now (requested_client req) b' s y x sv) = (None, reg)"
    and con: "onConnect A now s meta sv =
       (None, warmCert (cb_Subdomain b') (sv\<lparr>sv_nextTunnel := Suc (sv_nextTunnel sv), sv_registry := reg\<rparr>))"
      (is "_ = (None, ?sv')")
    by (rule admitted_registers [OF inv(1) assms(3-5), where now = now])
  note f = onConnect_registered [OF inv(1) assms(4) b' reg]
  let ?t = "sv_nextTunnel sv"
  have "sys_reachable A P closeStream pm srt cfg ?sv'"
    using sys_reachable.step [OF assms(2) sys_step.connect [OF assms(4), of P closeStream pm now meta]] con by simp
  then have routes: "routes_ok ?sv'"
    by (rule reachable_parts [OF assms(1)])
  have mem: "member_of (sv_registry ?sv') sub ?t"
    using f(3) [of sub ?t] meta assms(8) by simp
  have "\<not> ct_Draining (rs_tunnels reg ?t)"
    using reg_inv_member [OF f(2), of sub ?t] mem by simp
  then have avail: "available A (sv_registry ?sv') ?t"
    using f(5-8) assms(6,7) by (simp add: available_def Alive_iff)
  have "ct_ActiveStreams (rs_tunnels (sv_registry ?sv') u) < tun_MaxStreamsPerTunnel (sc_Tunnel (sv_cfg ?sv'))"
    if "member_of (sv_registry ?sv') sub u" for u
    using that f(3) [of sub u] f(9) [of u] assms(12) assms(13) [of u] by (auto split: if_splits)
  then have "\<exists>ctx u. fst (servePublic A q ?sv') = Forward ctx \<and> pc_tunnel ctx = Some u \<and> member_of (sv_registry ?sv') sub u"
    using routes mem avail assms(9-11) by (intro forwarded_if_available) simp_all
  with con show ?thesis
    by blast
qed

theorem connected_client_served_witness:
  "\<exists>sv' ctx t. onConnect example_transport 5 0 example_meta example_server = (None, sv') \<and>
     fst (servePublic example_transport (example_request ''GET'' ''/index'' ''x'') sv') = Forward ctx \<and>
     pc_tunnel ctx = Some t \<and> member_of (sv_registry sv') ''app'' t"
proof (rule connected_client_served [OF ins.route_sorter_axioms sys_reachable.init [OF example_NewServer] example_admitted
      example_fresh_session])
  have zero: "sv_nextTunnel example_server = 0"
    by code_simp
  show "example_bindings ! 0 \<in> set (host_bindings ''app'' (sc_Clients (sv_cfg example_server)))"
    "binding_matches (Clean (url_Path (rq_URL (example_request ''GET'' ''/index'' ''x'')))) (example_bindings ! 0)"
    "0 < tun_MaxStreamsPerTunnel (sc_Tunnel (sv_cfg example_server))"
    "HostKey (rq_Host (example_request ''GET'' ''/index'' ''x'')) (sc_RootDomain (sv_cfg example_server)) = Inr ''app''"
    by code_simp+
  show "ct_ActiveStreams (rs_tunnels (sv_registry example_server) t) < tun_MaxStreamsPerTunnel (sc_Tunnel (sv_cfg example_server))"
    if "member_of (sv_registry example_server) ''app'' t" for t
    using srv_inv_member [OF example_server_inv that] zero by simp
qed (simp_all add: example_transport_def example_meta_def map_get_def)

section \<open>Credentials of a configured client\<close>

text \<open>
  C16: the two programs agree on credentials. If a binding of the server has the client ID and the token of
  a client's configuration, then the connect request that carries the connector's token as bearer token and
  the connector's metadata is admitted with the subdomain of that binding whenever there is a place for the
  client, and otherwise refused with status 409: it is never unauthorized, unknown or malformed.
\<close>

theorem configured_client_admitted:
  assumes "route_sorter srt" "sys_reachable A P closeStream pm srt cfg sv"
    and "b \<in> set (sc_Clients (sv_cfg sv))" "cb_ClientID b = cc_ClientID cc" "cb_Token b = sr_Token (cc_Server cc)"
    and "Header_Get (rq_Header r) ''Authorization'' = ''Bearer '' @ cn_AuthToken (buildConnector cc)"
    and "cq_Meta req = Some (cn_Meta (buildConnector cc))"
  shows "authenticateConnect sv r req =
    (if has_place sv b (cc_ClientID cc)
     then Inr [''subdomain'' \<mapsto> cb_Subdomain b, ''host_key'' \<mapsto> cb_Subdomain b, ''client_id'' \<mapsto> cc_ClientID cc]
     else Inl (StatusError StatusConflict ''subdomain has reached max_clients''))"
proof -
  note inv = reachable_parts [OF assms(1,2)]
  have bs: "bindings_ok (sc_Clients (sv_cfg sv))"
    using inv(3) by (auto simp: ValidateServer_Inr server_ok_def)
  have ok: "cb_ClientID b \<noteq> ''''" "cb_Token b \<noteq> ''''"
    using bs assms(3) by (auto simp: bindings_ok_def list_all_iff binding_ok_def)
  have lookup: "Lookup (sv_clients sv) (cc_ClientID cc) = Some b"
    using bs assms(3,4) srv_inv_clients [OF inv(1)] by (simp add: Lookup_distinct bindings_ok_def)
  obtain p where p: "Pool (sv_registry sv) (cb_Subdomain b) = Some p"
    by (rule srv_inv_pool [OF inv(1) lookup])
  have token: "bearerToken r = cb_Token b"
    using assms(5,6) bearerToken_iff [of "cb_Token b" r] ok(2) by (simp add: buildConnector_def Let_def)
  moreover have "validToken (cb_Token b) (cb_Token b)"
    using ok by (simp add: validToken_iff)
  moreover have "map_get (cn_Meta (buildConnector cc)) ''client_id'' = cc_ClientID cc"
    by (simp add: buildConnector_def map_get_def Let_def)
  ultimately show ?thesis
    using assms(4,7) ok lookup p place_test [OF inv(1) lookup p] by (simp add: authenticateConnect_def Let_def)
qed

theorem configured_client_admitted_witness:
  "authenticateConnect example_server (example_request ''POST'' ''/tunnel/connect'' example_token)
     \<lparr>cq_Meta = Some (cn_Meta (buildConnector example_client))\<rparr> =
   Inr [''subdomain'' \<mapsto> ''app'', ''host_key'' \<mapsto> ''app'', ''client_id'' \<mapsto> ''home'']"
proof -
  have "example_binding \<in> set (sc_Clients (sv_cfg example_server))"
    "Header_Get (rq_Header (example_request ''POST'' ''/tunnel/connect'' example_token)) ''Authorization'' =
       ''Bearer '' @ cn_AuthToken (buildConnector example_client)"
    by code_simp+
  moreover have "cb_ClientID example_binding = cc_ClientID example_client" "cc_ClientID example_client = ''home''"
    "cb_Token example_binding = sr_Token (cc_Server example_client)" "cb_Subdomain example_binding = ''app''"
    by (simp_all add: example_binding_def example_client_def)
  ultimately show ?thesis
    using configured_client_admitted [OF ins.route_sorter_axioms sys_reachable.init [OF example_NewServer], of example_binding
        example_client "example_request ''POST'' ''/tunnel/connect'' example_token"
        "\<lparr>cq_Meta = Some (cn_Meta (buildConnector example_client))\<rparr>"] example_place
    by simp
qed

section \<open>Control plane and clients\<close>

text \<open>
  C17: which requests the control plane takes. On a server whose control path is clean, exactly the requests for a
  path at or below the control path go to the control routes. A request for a path at or below the prefix of some
  binding goes to the public side if that prefix, normalised, is neither empty nor \<^verbatim>\<open>/\<close>. A binding with an empty
  prefix or with the prefix \<^verbatim>\<open>/\<close> is accepted beside every control path; it does not get the paths at and below
  the control path.
\<close>

theorem client_paths_public:
  assumes "route_sorter srt" "sys_reachable A P closeStream pm srt cfg sv" "clean_abs (sc_ControlPath (sv_cfg sv))"
  shows "(if under_path (url_Path (rq_URL q)) (sc_ControlPath (sv_cfg sv))
      then rootHandler mx A P q sv = (Control (controlMux mx A P sv q), sv)
      else rootHandler mx A P q sv = (Public (fst (servePublic A q sv)), snd (servePublic A q sv)))
    \<and> (b \<in> set (sc_Clients (sv_cfg sv)) \<longrightarrow> NormalizePathPrefix (cb_PathPrefix b) \<notin> {'''', ''/''} \<longrightarrow>
        under_path (url_Path (rq_URL q)) (NormalizePathPrefix (cb_PathPrefix b)) \<longrightarrow>
        rootHandler mx A P q sv = (Public (fst (servePublic A q sv)), snd (servePublic A q sv)))"
proof -
  let ?cp = "sc_ControlPath (sv_cfg sv)" and ?p = "url_Path (rq_URL q)"
  have valid: "ValidateServer pm cfg = Inr (sv_cfg sv)"
    by (rule reachable_parts(3) [OF assms(1,2)])
  then have ok: "?cp \<noteq> ''/''" "list_all (control_disjoint ?cp) (sc_Clients (sv_cfg sv))"
    by (auto simp: ValidateServer_Inr server_ok_def)
  have "NormalizeControlPath ?cp = ?cp"
    using validateControlPath_fixpoint [OF assms(3) ok(1)] by (simp add: NormalizeControlPath_def)
  then have taken: "isControlPath (sv_cfg sv) ?p \<longleftrightarrow> under_path ?p ?cp"
    by (simp add: isControlPath_def under_path_def Let_def)
  have "\<not> under_path ?p ?cp"
    if "b \<in> set (sc_Clients (sv_cfg sv))" "NormalizePathPrefix (cb_PathPrefix b) \<noteq> ''''"
      "under_path ?p (NormalizePathPrefix (cb_PathPrefix b))"
  proof -
    have "\<not> under_path (NormalizePathPrefix (cb_PathPrefix b)) ?cp" "\<not> under_path ?cp (NormalizePathPrefix (cb_PathPrefix b))"
      using ok(2) that(1,2) by (auto simp: list_all_iff control_disjoint_def NormalizePathPrefix_eq Let_def)
    then show ?thesis
      using under_path_comparable that(3) by blast
  qed
  then show ?thesis
    by (auto simp: rootHandler_def taken split: prod.split)
qed

theorem client_paths_public_witness:
  "fst (rootHandler example_mux example_transport example_store (example_request ''GET'' ''/service/auth/login'' ''x'') example_server) =
     Public (fst (servePublic example_transport (example_request ''GET'' ''/service/auth/login'' ''x'') example_server))"
proof -
  have "clean_abs (sc_ControlPath (sv_cfg example_server))"
    "example_bindings ! 1 \<in> set (sc_Clients (sv_cfg example_server))"
    "NormalizePathPrefix (cb_PathPrefix (example_bindings ! 1)) \<notin> {'''', ''/''}"
    "under_path (url_Path (rq_URL (example_request ''GET'' ''/service/auth/login'' ''x'')))
       (NormalizePathPrefix (cb_PathPrefix (example_bindings ! 1)))"
    by code_simp+
  then show ?thesis
    using client_paths_public [OF ins.route_sorter_axioms sys_reachable.init [OF example_NewServer],
        of "example_request ''GET'' ''/service/auth/login'' ''x''" example_mux example_transport example_store "example_bindings ! 1"]
    by auto
qed

section \<open>Redirects behind a stripped prefix\<close>

text \<open>
  C15: a redirect of a backend behind a stripped prefix leads back to it. When a request was forwarded with
  a prefix to strip, and the backend answers with a clean absolute path in \<^verbatim>\<open>Location\<close> that is not itself below the
  prefix, then the browser gets a path below the prefix; and a request for that path, forwarded with the
  same prefix, reaches the backend with exactly the path it had answered.
\<close>

theorem redirect_followed:
  assumes "route_sorter srt" "sys_reachable A P closeStream pm srt cfg sv"
    and "servePublic A r sv = (Forward ctx, sv')" "pc_strip ctx \<noteq> ''''" "pc_strip ctx \<noteq> ''/''"
    and "Header_Get (rp_Header resp) ''Location'' = loc" "clean_abs loc" "\<not> under_path loc (pc_strip ctx)"
    and "url_Path (rq_URL out) = Header_Get (rp_Header (modifyProxyResponse (Some (Some ctx)) resp)) ''Location''"
    and "pc_strip ctx2 = pc_strip ctx"
  shows "under_path (url_Path (rq_URL out)) (pc_strip ctx) \<and> url_Path (rq_URL (proxy_Rewrite (Some ctx2) r2 out)) = loc"
proof -
  have clean: "clean_abs (pc_strip ctx)"
    by (rule forwarded_strip(1) [OF sys_reachable_inv [OF assms(1,2)] assms(3,4)])
  then have pfx: "rooted (pc_strip ctx)" "Clean (pc_strip ctx) = pc_strip ctx" "NormalizePathPrefix (pc_strip ctx) = pc_strip ctx"
    using clean_absD normalizePathPrefix_rooted by (auto simp: NormalizePathPrefix_eq)
  have rooted: "rooted loc"
    by (rule clean_absD(2) [OF assms(7)])
  then have nonempty: "loc \<noteq> ''''"
    by (auto elim: rootedE)
  have "url_Path (rq_URL out) = prependPublicPath (pc_strip ctx) loc"
    using assms(4,6,9) pfx rooted nonempty
    by (simp add: modifyProxyResponse_def rewrite_headers_Location rewriteLocation_def)
  moreover have "StripPathPrefix (prependPublicPath (pc_strip ctx) loc) (pc_strip ctx) = (loc, True)"
    using strip_of_prepend [OF pfx(1)] pfx(2) assms(5,7,8) by simp
  moreover have "under_path (prependPublicPath (pc_strip ctx) loc) (pc_strip ctx)"
    using prepend_under [OF pfx(1)] pfx(2) assms(5) clean_absD(2) [OF assms(7)] by simp
  ultimately show ?thesis
    using assms(4,10) by (simp add: proxy_Rewrite_path)
qed

definition example_ctx :: proxyCtx where
  "example_ctx = \<lparr>pc_tunnel = Some 0, pc_strip = ''/service/auth''\<rparr>"

definition example_redirect :: Response where
  "example_redirect = \<lparr>rp_Status = 302, rp_Header = Header_Set ''Location'' ''/login'' (\<lambda>_. []), rp_Body = ErrorBody ''''\<rparr>"

definition example_again :: Request where
  "example_again = example_request ''GET''
     (Header_Get (rp_Header (modifyProxyResponse (Some (Some example_ctx)) example_redirect)) ''Location'') ''x''"

theorem redirect_followed_witness:
  "url_Path (rq_URL (proxy_Rewrite (Some example_ctx) example_again example_again)) = ''/login''"
proof -
  have ctx: "pc_strip example_ctx \<noteq> ''''" "pc_strip example_ctx \<noteq> ''/''" "clean_abs ''/login''"
    "\<not> under_path ''/login'' (pc_strip example_ctx)"
    by code_simp+
  have loc: "Header_Get (rp_Header example_redirect) ''Location'' = ''/login''"
    by (simp add: example_redirect_def)
  have again: "url_Path (rq_URL example_again) =
      Header_Get (rp_Header (modifyProxyResponse (Some (Some example_ctx)) example_redirect)) ''Location''"
    by (simp add: example_again_def example_request_def)
  from redirect_followed [OF ins.route_sorter_axioms example_reachable example_forward_pair [folded example_ctx_def]
      ctx(1,2) loc ctx(3,4) again refl]
  show ?thesis
    by (rule conjunct2)
qed

end
